(* ===== verification/Base.thy ===== *)
theory Base
  imports Main "HOL-Library.Word"
begin

text \<open>
  The prelude of the development: names for the C integer types, little-endian
  byte access as the sources spell it (\<^verbatim>\<open>get_unaligned_le32\<close>, \<^verbatim>\<open>rd32\<close>,
  \<^verbatim>\<open>le32_to_cpu\<close> over a packed struct), byte-wise exclusive or of buffers, and the
  generic facts about words and lists that the component theories share.
\<close>

unbundle bit_operations_syntax

section \<open>Names of the C types\<close>

type_synonym u8 = "8 word"
type_synonym u16 = "16 word"
type_synonym u32 = "32 word"
type_synonym u64 = "64 word"
type_synonym bytes = "8 word list"

named_theorems word_alg \<open>exclusive-or algebra used to cancel masks\<close>
named_theorems buf_simps \<open>lengths and shapes of byte buffers\<close>

section \<open>Little-endian access\<close>

text \<open>\<^verbatim>\<open>(u32) b[0] | ((u32) b[1] << 8) | ((u32) b[2] << 16) | ((u32) b[3] << 24)\<close>\<close>

definition get_unaligned_le32 :: "bytes \<Rightarrow> u32" where
  "get_unaligned_le32 b =
     ucast (b ! 0) OR push_bit 8 (ucast (b ! 1))
       OR push_bit 16 (ucast (b ! 2)) OR push_bit 24 (ucast (b ! 3))"

definition put_unaligned_le32 :: "u32 \<Rightarrow> bytes" where
  "put_unaligned_le32 v =
     [ucast v, ucast (drop_bit 8 v),
      ucast (drop_bit 16 v), ucast (drop_bit 24 v)]"

lemma length_put_unaligned_le32 [simp, buf_simps]: "length (put_unaligned_le32 v) = 4"
  by (simp add: put_unaligned_le32_def)

lemma bit_byte_ge: "8 \<le> n \<Longrightarrow> \<not> bit (b :: u8) n"
  using bit_imp_le_length [of b n] by auto

lemma length4_cases:
  assumes "length (b :: 'a list) = 4"
  obtains b0 b1 b2 b3 where "b = [b0, b1, b2, b3]"
  using assms by (auto simp: numeral_eq_Suc length_Suc_conv)

lemma get_put_le32 [simp]: "get_unaligned_le32 (put_unaligned_le32 v @ r) = v"
proof (rule bit_word_eqI)
  fix n assume "n < LENGTH(32)"
  then consider "n < 8" | "8 \<le> n" "n < 16" | "16 \<le> n" "n < 24" | "24 \<le> n" "n < 32"
    by fastforce
  then show "bit (get_unaligned_le32 (put_unaligned_le32 v @ r)) n = bit v n"
    by cases (auto simp: get_unaligned_le32_def put_unaligned_le32_def bit_simps)
qed

lemma get_put_le32' [simp]: "get_unaligned_le32 (put_unaligned_le32 v) = v"
  using get_put_le32 [of v "[]"] by simp

lemma put_get_le32_list:
  "put_unaligned_le32 (get_unaligned_le32 (b0 # b1 # b2 # b3 # r)) = [b0, b1, b2, b3]"
  unfolding get_unaligned_le32_def put_unaligned_le32_def
  by (auto intro!: bit_eqI simp: bit_simps bit_byte_ge)

lemma put_get_le32 [simp]: "length b = 4 \<Longrightarrow> put_unaligned_le32 (get_unaligned_le32 b) = b"
  by (erule length4_cases) (simp add: put_get_le32_list)

lemma get_le32_take: "get_unaligned_le32 (take 4 b) = get_unaligned_le32 b"
  by (simp add: get_unaligned_le32_def)

text \<open>Two- and eight-byte values (\<^verbatim>\<open>le16_to_cpu\<close>, \<^verbatim>\<open>le64_to_cpu\<close>, \<^verbatim>\<open>MBEDTLS_GET_UINT64_LE\<close>).\<close>

definition get_unaligned_le16 :: "bytes \<Rightarrow> u16" where
  "get_unaligned_le16 b = ucast (b ! 0) OR push_bit 8 (ucast (b ! 1))"

definition put_unaligned_le16 :: "u16 \<Rightarrow> bytes" where
  "put_unaligned_le16 v = [ucast v, ucast (drop_bit 8 v)]"

definition get_unaligned_le64 :: "bytes \<Rightarrow> u64" where
  "get_unaligned_le64 b =
     push_bit 56 (ucast (b ! 7)) OR push_bit 48 (ucast (b ! 6)) OR push_bit 40 (ucast (b ! 5))
     OR push_bit 32 (ucast (b ! 4)) OR push_bit 24 (ucast (b ! 3)) OR push_bit 16 (ucast (b ! 2))
     OR push_bit 8 (ucast (b ! 1)) OR ucast (b ! 0)"

definition put_unaligned_le64 :: "u64 \<Rightarrow> bytes" where
  "put_unaligned_le64 v = map (\<lambda>i. ucast (drop_bit (8 * i) v)) [0..<8]"

lemma length_put_unaligned_le16 [simp, buf_simps]: "length (put_unaligned_le16 v) = 2"
  by (simp add: put_unaligned_le16_def)

lemma length_put_unaligned_le64 [simp, buf_simps]: "length (put_unaligned_le64 v) = 8"
  by (simp add: put_unaligned_le64_def)

lemma get_put_le16 [simp]: "get_unaligned_le16 (put_unaligned_le16 v @ r) = v"
proof (rule bit_word_eqI)
  fix n assume "n < LENGTH(16)"
  then consider "n < 8" | "8 \<le> n" "n < 16" by fastforce
  then show "bit (get_unaligned_le16 (put_unaligned_le16 v @ r)) n = bit v n"
    by cases (auto simp: get_unaligned_le16_def put_unaligned_le16_def bit_simps)
qed

text \<open>Any number of bytes as a little-endian word.\<close>

primrec le_word :: "bytes \<Rightarrow> 'a::len word" where
  "le_word [] = 0"
| "le_word (b # bs) = ucast b OR push_bit 8 (le_word bs)"

lemma bit_le_word:
  "bit (le_word t :: 'a::len word) n \<longleftrightarrow>
     n < LENGTH('a) \<and> n div 8 < length t \<and> bit (t ! (n div 8)) (n mod 8)"
proof (induction t arbitrary: n)
  case (Cons b t)
  show ?case
  proof (cases "n < 8")
    case True
    then show ?thesis by (simp add: bit_simps)
  next
    case False
    moreover from this have "n div 8 = Suc ((n - 8) div 8)" "n mod 8 = (n - 8) mod 8"
      by (simp_all add: le_div_geq le_mod_geq)
    ultimately show ?thesis
      by (auto simp: Cons.IH bit_simps bit_byte_ge)
  qed
qed simp

lemma list8: "length b = 8 \<Longrightarrow> b = [b ! 0, b ! 1, b ! 2, b ! 3, b ! 4, b ! 5, b ! 6, b ! 7]"
  by (rule nth_equalityI) (auto simp: less_Suc_eq numeral_eq_Suc)

lemma get_le64_le_word:
  assumes "length b = 8"
  shows "get_unaligned_le64 b = le_word b"
  by (subst (2) list8 [OF assms])
    (simp add: get_unaligned_le64_def or.assoc or.commute or.left_commute)

text \<open>A 16-byte block read as four words and written back.\<close>

lemma block16_words:
  assumes "length b = 16"
  shows "put_unaligned_le32 (get_unaligned_le32 b) @ put_unaligned_le32 (get_unaligned_le32 (drop 4 b)) @
    put_unaligned_le32 (get_unaligned_le32 (drop 8 b)) @ put_unaligned_le32 (get_unaligned_le32 (drop 12 b)) = b"
proof -
  have "put_unaligned_le32 (get_unaligned_le32 (drop n b)) = take 4 (drop n b)" if "n + 4 \<le> 16" for n
    using put_get_le32 [of "take 4 (drop n b)"] that assms by (simp add: get_le32_take)
  from this [of 0] this [of 4] this [of 8] this [of 12] show ?thesis
    using assms append_take_drop_id [of 4 b] append_take_drop_id [of 4 "drop 4 b"]
      append_take_drop_id [of 4 "drop 8 b"] by simp
qed

section \<open>Exclusive or\<close>

lemma xor_cancel_right [simp, word_alg]: "((a :: 'a::len word) XOR b) XOR b = a"
  by (simp add: xor.assoc)

lemma xor_cancel_left [simp, word_alg]: "(b :: 'a::len word) XOR (b XOR a) = a"
  by (simp add: xor.assoc [symmetric])

definition xor_bytes :: "bytes \<Rightarrow> bytes \<Rightarrow> bytes" where
  "xor_bytes xs ys = map2 (XOR) xs ys"

lemma length_xor_bytes [simp, buf_simps]: "length (xor_bytes xs ys) = min (length xs) (length ys)"
  by (simp add: xor_bytes_def)

lemma nth_xor_bytes [simp]:
  "i < length xs \<Longrightarrow> i < length ys \<Longrightarrow> xor_bytes xs ys ! i = xs ! i XOR ys ! i"
  by (simp add: xor_bytes_def)

lemma xor_bytes_cancel [simp, word_alg]:
  "length xs \<le> length ys \<Longrightarrow> xor_bytes (xor_bytes xs ys) ys = xs"
  by (rule nth_equalityI) auto

section \<open>Rotations written as two shifts\<close>

lemma rotate_index:
  fixes s n :: nat
  assumes "s < 32" "n < 32"
  shows "(n + 32 - s) mod 32 = (if s \<le> n then n - s else n + 32 - s)"
    and "(n + s) mod 32 = (if n + s < 32 then n + s else n + s - 32)"
  using assms by (auto simp: mod_if)

lemma shift_or_rotl:
  "0 < s \<Longrightarrow> s < 32 \<Longrightarrow> push_bit s w OR drop_bit (32 - s) w = word_rotl s (w :: u32)"
proof (rule bit_word_eqI)
  fix n assume s: "0 < s" "s < 32" and "n < LENGTH(32)"
  then have n: "n < 32" by simp
  show "bit (push_bit s w OR drop_bit (32 - s) w) n = bit (word_rotl s w) n"
    using s n bit_imp_le_length [of w "32 + n - s"]
    by (cases "s \<le> n") (auto simp: bit_simps add.commute [of 32 n] rotate_index(1) [OF s(2) n])
qed

lemma shift_or_rotr:
  "0 < s \<Longrightarrow> s < 32 \<Longrightarrow> drop_bit s w OR push_bit (32 - s) w = word_rotr s (w :: u32)"
proof (rule bit_word_eqI)
  fix n assume s: "0 < s" "s < 32" and "n < LENGTH(32)"
  then have n: "n < 32" by simp
  show "bit (drop_bit s w OR push_bit (32 - s) w) n = bit (word_rotr s w) n"
    using s n rotate_index(2) [OF s(2) n] bit_imp_le_length [of w "s + n"]
    by (cases "n + s < 32") (auto simp: bit_simps add.commute [of n s])
qed

section \<open>Copying into a buffer\<close>

text \<open>\<^verbatim>\<open>memcpy(buf + off, bs, n)\<close> where the \<open>n\<close> bytes lie inside the buffer.\<close>

definition overwrite :: "'a list \<Rightarrow> nat \<Rightarrow> 'a list \<Rightarrow> 'a list" where
  "overwrite buf off bs = take off buf @ bs @ drop (off + length bs) buf"

lemma length_overwrite [simp, buf_simps]:
  "off + length bs \<le> length buf \<Longrightarrow> length (overwrite buf off bs) = length buf"
  by (simp add: overwrite_def)

lemma nth_overwrite:
  "off + length bs \<le> length buf \<Longrightarrow> i < length buf \<Longrightarrow>
   overwrite buf off bs ! i = (if off \<le> i \<and> i < off + length bs then bs ! (i - off) else buf ! i)"
  by (auto simp: overwrite_def nth_append min_def)

lemma take_overwrite_before [simp, buf_simps]:
  "n \<le> off \<Longrightarrow> off \<le> length buf \<Longrightarrow> take n (overwrite buf off bs) = take n buf"
  by (simp add: overwrite_def min_def)

lemma drop_overwrite_after [simp, buf_simps]:
  "off + length bs \<le> n \<Longrightarrow> n \<le> length buf \<Longrightarrow> drop n (overwrite buf off bs) = drop n buf"
proof -
  assume le: "off + length bs \<le> n" "n \<le> length buf"
  then have "drop n (take off buf) = []" "n - min (length buf) off = n - off" by auto
  with le show ?thesis by (simp add: overwrite_def)
qed

lemma take_drop_overwrite [simp, buf_simps]:
  "off + length bs \<le> length buf \<Longrightarrow> take (length bs) (drop off (overwrite buf off bs)) = bs"
  by (simp add: overwrite_def)

section \<open>Lists of lists\<close>

lemma nth_concat_uniform:
  "(\<And>xs. xs \<in> set xss \<Longrightarrow> length xs = m) \<Longrightarrow> n < m * length xss \<Longrightarrow>
   concat xss ! n = xss ! (n div m) ! (n mod m)"
proof (induction xss arbitrary: n)
  case (Cons xs xss)
  show ?case
  proof (cases "n < m")
    case True
    then show ?thesis using Cons.prems by (simp add: nth_append)
  next
    case False
    then have "0 < m" using Cons.prems by (cases m) auto
    with False have "n div m = Suc ((n - m) div m)" "n mod m = (n - m) mod m"
      by (simp_all add: le_div_geq le_mod_geq)
    then show ?thesis using False Cons by (simp add: nth_append)
  qed
qed simp

end
