(* ===== verification/Xts.thy ===== *)
theory Xts
  imports Base
begin

text \<open>
  The cipher-agnostic XTS mode of \<^verbatim>\<open>serpent/xts_generic.c\<close>: the tweak update
  \<^verbatim>\<open>gf128_mul_by_alpha\<close> and the loop of \<^verbatim>\<open>xts_generic_crypt\<close>. The block functions are
  arguments, as they are function pointers in C. The locale \<open>block_cipher\<close> is the contract a
  cipher has to meet for the mode to be invertible; the theories of the
  ciphers interpret it.
\<close>

section \<open>The code\<close>

text \<open>The byte loop of \<^verbatim>\<open>gf128_mul_by_alpha\<close>: each byte is shifted left by one, the carry of
  the byte before comes in at the bottom. The second component is the last carry.\<close>

fun shift_bytes :: "bytes \<Rightarrow> u8 \<Rightarrow> bytes \<times> u8" where
  "shift_bytes [] carry_in = ([], carry_in)"
| "shift_bytes (b # bs) carry_in =
     (let carry_out = drop_bit 7 b AND 1;
          (bs', c) = shift_bytes bs carry_out
      in ((push_bit 1 b OR carry_in) # bs', c))"

definition gf128_mul_by_alpha :: "bytes \<Rightarrow> bytes" where
  "gf128_mul_by_alpha t =
     (let (t', carry_in) = shift_bytes t 0
      in if carry_in \<noteq> 0 then t'[0 := t' ! 0 XOR 0x87] else t')"

text \<open>The loop of \<^verbatim>\<open>xts_generic_crypt\<close>. Both callers (\<^verbatim>\<open>stageCrypt\<close>) pass one buffer as
  input and output, so a block is read and written in place. Touching bytes outside the buffer
  is the outcome \<open>None\<close>; it happens when \<open>len\<close> is no multiple of 16 and the buffer ends there.\<close>

function xts_loop :: "(bytes \<Rightarrow> bytes) \<Rightarrow> nat \<Rightarrow> nat \<Rightarrow> bytes \<Rightarrow> bytes \<Rightarrow> bytes option" where
  "xts_loop data_block_fn len offset tweak buf =
     (if offset < len then
        if length buf < offset + 16 then None
        else
          let block = xor_bytes (take 16 (drop offset buf)) tweak;
              block = data_block_fn block;
              buf = overwrite buf offset (xor_bytes block tweak)
          in xts_loop data_block_fn len (offset + 16) (gf128_mul_by_alpha tweak) buf
      else Some buf)"
  by pat_completeness auto
termination by (relation "measure (\<lambda>(_, len, offset, _). len - offset)") auto

declare xts_loop.simps [simp del]

definition xts_generic_crypt ::
  "(bytes \<Rightarrow> bytes) \<Rightarrow> (bytes \<Rightarrow> bytes) \<Rightarrow> bytes \<Rightarrow> bytes \<Rightarrow> nat \<Rightarrow> bytes option" where
  "xts_generic_crypt data_block_fn tweak_encrypt_fn data_unit buf len =
     xts_loop data_block_fn len 0 (tweak_encrypt_fn data_unit) buf"

section \<open>The tweak update is multiplication by x in GF(2^128)\<close>

text \<open>A 16-byte tweak as a polynomial over GF(2), byte 0 the lowest, and multiplication by
  \<open>x\<close> modulo \<open>x\<^sup>1\<^sup>2\<^sup>8 + x\<^sup>7 + x\<^sup>2 + x + 1\<close>.\<close>

abbreviation poly128 :: "bytes \<Rightarrow> 128 word" where
  "poly128 \<equiv> le_word"

definition mul_x :: "128 word \<Rightarrow> 128 word" where
  "mul_x p = (if bit p 127 then push_bit 1 p XOR 0x87 else push_bit 1 p)"

lemma shift_step:
  "ucast (push_bit 1 b OR c) OR
     push_bit 8 (take_bit m (push_bit 1 p OR ucast (drop_bit 7 b AND 1))) =
   take_bit (8 + m) (push_bit 1 (ucast b OR push_bit 8 p) OR (ucast (c :: u8) :: 128 word))"
  (is "?l = ?r")
proof (rule bit_word_eqI)
  fix n assume "n < LENGTH(128)"
  then consider "n < 8" | "n = 8" | "9 \<le> n" "n < 128" by fastforce
  then show "bit ?l n = bit ?r n"
    by cases (auto simp: bit_simps bit_byte_ge simp del: push_bit_Suc One_nat_def)
qed

lemma poly128_shift_bytes:
  "poly128 (fst (shift_bytes t c)) = take_bit (8 * length t) (push_bit 1 (poly128 t) OR ucast c)"
proof (induction t arbitrary: c)
  case (Cons b t)
  show ?case
    using shift_step [of b c "8 * length t" "poly128 t"]
    by (simp add: case_prod_beta Let_def Cons.IH)
qed simp

lemma length_shift_bytes [simp]: "length (fst (shift_bytes t c)) = length t"
  by (induction t arbitrary: c) (simp_all add: case_prod_beta Let_def)

lemma snd_shift_bytes: "t \<noteq> [] \<Longrightarrow> snd (shift_bytes t c) = drop_bit 7 (last t) AND 1"
  by (induction t arbitrary: c) (auto simp: case_prod_beta Let_def)

lemma top_bit: "(drop_bit 7 (b :: u8) AND 1 \<noteq> 0) = bit b 7"
  by (simp add: bit_iff_odd_drop_bit and_one_eq odd_iff_mod_2_eq_one)

lemma poly128_xor_first:
  "t \<noteq> [] \<Longrightarrow> poly128 (t[0 := t ! 0 XOR v]) = poly128 t XOR ucast v"
  by (cases t) (auto intro!: bit_word_eqI simp: bit_simps bit_byte_ge)

lemma length_gf128_mul_by_alpha [simp, buf_simps]: "length (gf128_mul_by_alpha t) = length t"
  by (simp add: gf128_mul_by_alpha_def case_prod_beta Let_def)

lemma poly128_gf128_mul_by_alpha:
  assumes "length t = 16"
  shows "poly128 (gf128_mul_by_alpha t) = mul_x (poly128 t)"
proof -
  from assms have ne: "t \<noteq> []" "fst (shift_bytes t 0) \<noteq> []"
    by (auto simp flip: length_greater_0_conv)
  have "last t = t ! 15" using assms ne by (simp add: last_conv_nth)
  then have "snd (shift_bytes t 0) \<noteq> 0 \<longleftrightarrow> bit (poly128 t) 127"
    using assms ne by (simp add: snd_shift_bytes top_bit bit_le_word)
  then show ?thesis
    using ne assms by (simp add: gf128_mul_by_alpha_def mul_x_def case_prod_beta Let_def
        poly128_shift_bytes poly128_xor_first take_bit_word_eq_self)
qed

section \<open>The loop is XTS block by block\<close>

text \<open>The mode as the standard writes it: block \<open>i\<close> is masked before and after the block
  function with the tweak multiplied \<open>i\<close> times by \<open>x\<close>.\<close>

definition xts_block :: "(bytes \<Rightarrow> bytes) \<Rightarrow> bytes \<Rightarrow> bytes \<Rightarrow> bytes" where
  "xts_block f tweak b = xor_bytes (f (xor_bytes b tweak)) tweak"

function xts_blocks :: "(bytes \<Rightarrow> bytes) \<Rightarrow> bytes \<Rightarrow> bytes \<Rightarrow> bytes" where
  "xts_blocks f tweak bs =
     (if length bs < 16 then bs
      else xts_block f tweak (take 16 bs) @ xts_blocks f (gf128_mul_by_alpha tweak) (drop 16 bs))"
  by pat_completeness auto
termination by (relation "measure (\<lambda>(_, _, bs). length bs)") auto

declare xts_blocks.simps [simp del]

lemma length_gf128_power [simp, buf_simps]:
  "length ((gf128_mul_by_alpha ^^ i) t) = length t"
  by (induction i) simp_all

lemma length_xts_block:
  assumes "\<And>b. length b = 16 \<Longrightarrow> length (f b) = 16" "length tweak = 16" "length b = 16"
  shows "length (xts_block f tweak b) = 16"
  using assms by (simp add: xts_block_def)

lemma length_xts_blocks:
  "(\<And>b. length b = 16 \<Longrightarrow> length (f b) = 16) \<Longrightarrow> length tweak = 16 \<Longrightarrow>
   length (xts_blocks f tweak bs) = length bs"
proof (induction f tweak bs rule: xts_blocks.induct)
  case (1 f tweak bs)
  then show ?case
    by (subst xts_blocks.simps) (auto simp: length_xts_block)
qed

lemma xts_loop_step:
  assumes "offset < len" "offset + 16 \<le> length buf"
  shows "xts_loop f len offset tweak buf =
    xts_loop f len (offset + 16) (gf128_mul_by_alpha tweak)
      (overwrite buf offset (xts_block f tweak (take 16 (drop offset buf))))"
  using assms by (subst xts_loop.simps) (simp add: xts_block_def Let_def)

lemma xts_loop_blocks:
  assumes f: "\<And>b. length b = 16 \<Longrightarrow> length (f b) = 16"
  shows "length tweak = 16 \<Longrightarrow> len \<le> length buf \<Longrightarrow> len = offset + 16 * n \<Longrightarrow>
    xts_loop f len offset tweak buf =
      Some (take offset buf @ xts_blocks f tweak (take (16 * n) (drop offset buf)) @ drop len buf)"
proof (induction n arbitrary: offset tweak buf)
  case 0
  then show ?case by (simp add: xts_loop.simps xts_blocks.simps)
next
  case (Suc n)
  let ?c = "xts_block f tweak (take 16 (drop offset buf))"
  let ?buf = "overwrite buf offset ?c"
  have c: "length ?c = 16" using Suc.prems f by (simp add: length_xts_block)
  have len: "length ?buf = length buf" using Suc.prems c by simp
  have pre: "take (offset + 16) ?buf = take offset buf @ ?c"
    using Suc.prems c by (simp add: overwrite_def)
  have post: "drop (offset + 16) ?buf = drop (offset + 16) buf"
    using Suc.prems c by simp
  have rest: "drop len ?buf = drop len buf"
    using Suc.prems c by simp
  have "xts_loop f len offset tweak buf =
      xts_loop f len (offset + 16) (gf128_mul_by_alpha tweak) ?buf"
    using Suc.prems by (simp add: xts_loop_step)
  also have "\<dots> = Some (take (offset + 16) ?buf @
      xts_blocks f (gf128_mul_by_alpha tweak) (take (16 * n) (drop (offset + 16) ?buf)) @ drop len ?buf)"
    using Suc.prems len by (subst Suc.IH) simp_all
  also have "\<dots> = Some (take offset buf @
      xts_blocks f tweak (take (16 * Suc n) (drop offset buf)) @ drop len buf)"
    unfolding pre post rest using Suc.prems
    by (subst (2) xts_blocks.simps) (simp add: drop_take add.commute)
  finally show ?case .
qed

lemma xts_generic_crypt_blocks:
  assumes "\<And>b. length b = 16 \<Longrightarrow> length (f b) = 16" "length (g data_unit) = 16"
    and "len \<le> length buf" "16 dvd len"
  shows "xts_generic_crypt f g data_unit buf len =
    Some (xts_blocks f (g data_unit) (take len buf) @ drop len buf)"
proof -
  from \<open>16 dvd len\<close> obtain n where "len = 16 * n" ..
  with assms show ?thesis
    using xts_loop_blocks [of f "g data_unit" len buf 0 n] by (simp add: xts_generic_crypt_def)
qed

lemma xts_blocks_nth:
  assumes f: "\<And>b. length b = 16 \<Longrightarrow> length (f b) = 16"
  shows "length tweak = 16 \<Longrightarrow> 16 * i + 16 \<le> length bs \<Longrightarrow>
    take 16 (drop (16 * i) (xts_blocks f tweak bs)) =
    xts_block f ((gf128_mul_by_alpha ^^ i) tweak) (take 16 (drop (16 * i) bs))"
proof (induction i arbitrary: tweak bs)
  case 0
  then show ?case using f by (subst xts_blocks.simps) (simp add: length_xts_block)
next
  case (Suc i)
  have "length (xts_block f tweak (take 16 bs)) = 16"
    using Suc.prems f by (simp add: length_xts_block)
  then show ?case
    using Suc.prems Suc.IH [of "gf128_mul_by_alpha tweak" "drop 16 bs"]
    by (subst xts_blocks.simps) (simp add: funpow_swap1 add.commute)
qed

lemma xts_blocks_inverse:
  assumes f: "\<And>b. length b = 16 \<Longrightarrow> length (f b) = 16"
    and inv: "\<And>b. length b = 16 \<Longrightarrow> g (f b) = b"
  shows "length tweak = 16 \<Longrightarrow> xts_blocks g tweak (xts_blocks f tweak bs) = bs"
proof (induction "length bs" arbitrary: bs tweak rule: less_induct)
  case less
  show ?case
  proof (cases "length bs < 16")
    case True
    then show ?thesis by (simp add: xts_blocks.simps)
  next
    case False
    let ?c = "xts_block f tweak (take 16 bs)"
    let ?rest = "xts_blocks f (gf128_mul_by_alpha tweak) (drop 16 bs)"
    have c: "length ?c = 16" using False less.prems f by (simp add: length_xts_block)
    have undo: "xts_block g tweak ?c = take 16 bs"
      using False less.prems f inv by (simp add: xts_block_def)
    have "xts_blocks g tweak (xts_blocks f tweak bs) = xts_blocks g tweak (?c @ ?rest)"
      using False by (subst (2) xts_blocks.simps) simp
    also have "\<dots> = xts_block g tweak ?c @ xts_blocks g (gf128_mul_by_alpha tweak) ?rest"
      using c by (subst xts_blocks.simps) simp
    also have "\<dots> = bs" using undo less.hyps [of "drop 16 bs"] less.prems False by simp
    finally show ?thesis .
  qed
qed

section \<open>The contract of a block cipher\<close>

text \<open>A block function with a left inverse on blocks is a permutation of the finitely many blocks.\<close>

lemma block_inverse_swap:
  fixes f g :: "bytes \<Rightarrow> bytes"
  assumes f: "\<And>b. length b = 16 \<Longrightarrow> length (f b) = 16" and gf: "\<And>b. length b = 16 \<Longrightarrow> g (f b) = b"
    and b: "length b = 16"
  shows "f (g b) = b"
proof -
  let ?B = "{b :: bytes. length b = 16}"
  have "finite ?B" using finite_lists_length_eq [of "UNIV :: u8 set" 16] by simp
  moreover have "f ` ?B \<subseteq> ?B" using f by auto
  moreover have "inj_on f ?B" using gf by (intro inj_on_inverseI [of _ g]) simp
  ultimately have "f ` ?B = ?B" by (intro endo_inj_surj)
  with b have "b \<in> f ` ?B" by simp
  then obtain a where "length a = 16" "b = f a" by auto
  then show ?thesis by (simp add: gf)
qed

text \<open>What \<^verbatim>\<open>xts_generic_crypt\<close> needs of the functions it is handed: 16-byte blocks go to
  16-byte blocks, and decryption under a key undoes encryption under it. \<open>ok\<close> singles out the
  key schedules the cipher's setup function produces.\<close>

locale block_cipher =
  fixes ok :: "'k \<Rightarrow> bool"
    and enc :: "'k \<Rightarrow> bytes \<Rightarrow> bytes"
    and dec :: "'k \<Rightarrow> bytes \<Rightarrow> bytes"
  assumes length_enc: "ok k \<Longrightarrow> length b = 16 \<Longrightarrow> length (enc k b) = 16"
    and length_dec: "ok k \<Longrightarrow> length b = 16 \<Longrightarrow> length (dec k b) = 16"
    and dec_enc: "ok k \<Longrightarrow> length b = 16 \<Longrightarrow> dec k (enc k b) = b"
    and enc_dec: "ok k \<Longrightarrow> length b = 16 \<Longrightarrow> enc k (dec k b) = b"
begin

lemma enc_inj: "ok k \<Longrightarrow> length b = 16 \<Longrightarrow> length c = 16 \<Longrightarrow> enc k b = enc k c \<Longrightarrow> b = c"
  using dec_enc by metis

lemma xts_enc:
  assumes "ok k" "ok kt" "length du = 16" "16 dvd len" "len \<le> length buf"
  shows "xts_generic_crypt (enc k) (enc kt) du buf len =
    Some (xts_blocks (enc k) (enc kt du) (take len buf) @ drop len buf)"
  using assms by (intro xts_generic_crypt_blocks) (auto simp: length_enc)

lemma xts_dec:
  assumes "ok k" "ok kt" "length du = 16" "16 dvd len" "len \<le> length buf"
  shows "xts_generic_crypt (dec k) (enc kt) du buf len =
    Some (xts_blocks (dec k) (enc kt du) (take len buf) @ drop len buf)"
  using assms by (intro xts_generic_crypt_blocks) (auto simp: length_enc length_dec)

lemma length_xts_enc:
  "ok k \<Longrightarrow> ok kt \<Longrightarrow> length du = 16 \<Longrightarrow> length (xts_blocks (enc k) (enc kt du) bs) = length bs"
  by (rule length_xts_blocks) (simp_all add: length_enc)

lemma length_xts_dec:
  "ok k \<Longrightarrow> ok kt \<Longrightarrow> length du = 16 \<Longrightarrow> length (xts_blocks (dec k) (enc kt du) bs) = length bs"
  by (rule length_xts_blocks) (simp_all add: length_dec length_enc)

lemma xts_dec_enc:
  assumes "ok k" "ok kt" "length du = 16" "16 dvd len" "len \<le> length buf"
  shows "Option.bind (xts_generic_crypt (enc k) (enc kt) du buf len)
    (\<lambda>c. xts_generic_crypt (dec k) (enc kt) du c len) = Some buf"
  using assms
  by (simp add: xts_enc xts_dec length_xts_enc xts_blocks_inverse length_enc dec_enc)

lemma xts_enc_dec:
  assumes "ok k" "ok kt" "length du = 16" "16 dvd len" "len \<le> length buf"
  shows "Option.bind (xts_generic_crypt (dec k) (enc kt) du buf len)
    (\<lambda>c. xts_generic_crypt (enc k) (enc kt) du c len) = Some buf"
  using assms
  by (simp add: xts_enc xts_dec length_xts_dec xts_blocks_inverse length_dec length_enc enc_dec)

end

section \<open>Properties\<close>

text \<open>C14. The byte-wise shift of \<^verbatim>\<open>gf128_mul_by_alpha\<close>, with the carry rippling through the 16
  bytes and the constant 0x87 fed back, is multiplication by \<open>x\<close> in GF(2^128) on the
  little-endian reading of the tweak.\<close>

theorem gf128_mul_by_alpha_is_mul_x:
  assumes "length t = 16"
  shows "length (gf128_mul_by_alpha t) = 16 \<and> poly128 (gf128_mul_by_alpha t) = mul_x (poly128 t)"
  using assms by (simp add: poly128_gf128_mul_by_alpha)

theorem gf128_mul_by_alpha_is_mul_x_witness:
  "poly128 (gf128_mul_by_alpha (replicate 15 0 @ [0x80])) = mul_x (poly128 (replicate 15 0 @ [0x80]))"
  using gf128_mul_by_alpha_is_mul_x [of "replicate 15 0 @ [0x80]"] by simp

end
