(* ===== verification/Serpent.thy ===== *)
theory Serpent
  imports Xts
begin

text \<open>
  The Serpent block cipher of \<^verbatim>\<open>serpent/serpent_generic.c\<close> (with the rotations and
  unaligned accessors of \<^verbatim>\<open>serpent_kernel_shim.h\<close> and the entry points of
  \<^verbatim>\<open>serpent_adapter.c\<close>), which the cascade of \<^verbatim>\<open>vc_cascade.cpp\<close> uses.

  The source is a straight-line program over five local variables \<^verbatim>\<open>r0 .. r4\<close>; every
  macro names the variables it works on, in a different permutation at every call. The
  model keeps that shape: the locals are a register file \<open>regs\<close>, a macro is a function of
  its arguments' values, and a call such as \<^verbatim>\<open>S1(r2, r1, r3, r0, r4)\<close> is
  \<open>call5 S1 2 1 3 0 4\<close>. A reference cipher in terms of the published four-bit S-box tables and
  the key recurrence follows, and the lemmas show that the bitsliced straight-line code
  computes it and that decryption inverts encryption.
\<close>

section \<open>The code\<close>

type_synonym regs = "nat \<Rightarrow> u32"
type_synonym expkey = "nat \<Rightarrow> u32"

text \<open>The context is the array of round-key words (\<^verbatim>\<open>struct serpent_ctx\<close>).\<close>

record serpent_ctx =
  expkey :: expkey

definition rol32 :: "u32 \<Rightarrow> nat \<Rightarrow> u32" where
  "rol32 w s = push_bit (s mod 32) w OR drop_bit ((32 - s mod 32) mod 32) w"

definition ror32 :: "u32 \<Rightarrow> nat \<Rightarrow> u32" where
  "ror32 w s = drop_bit (s mod 32) w OR push_bit ((32 - s mod 32) mod 32) w"

definition PHI :: u32 where
  "PHI = 0x9e3779b9"

subsection \<open>Key mixing and the linear transformation\<close>

type_synonym four = "u32 \<times> u32 \<times> u32 \<times> u32"
type_synonym five = "u32 \<times> u32 \<times> u32 \<times> u32 \<times> u32"

text \<open>A macro call passes variables by name: it reads them and assigns them.\<close>

definition call4 :: "(four \<Rightarrow> four) \<Rightarrow> nat \<Rightarrow> nat \<Rightarrow> nat \<Rightarrow> nat \<Rightarrow> regs \<Rightarrow> regs" where
  "call4 m a b c d r =
     (let (x0, x1, x2, x3) = m (r a, r b, r c, r d)
      in r(a := x0, b := x1, c := x2, d := x3))"

definition call5 :: "(five \<Rightarrow> five) \<Rightarrow> nat \<Rightarrow> nat \<Rightarrow> nat \<Rightarrow> nat \<Rightarrow> nat \<Rightarrow> regs \<Rightarrow> regs" where
  "call5 m a b c d e r =
     (let (x0, x1, x2, x3, x4) = m (r a, r b, r c, r d, r e)
      in r(a := x0, b := x1, c := x2, d := x3, e := x4))"

definition K :: "expkey \<Rightarrow> nat \<Rightarrow> four \<Rightarrow> four" where
  "K k i = (\<lambda>(x0, x1, x2, x3).
     (let x3 = x3 XOR k (4 * i + 3); x2 = x2 XOR k (4 * i + 2);
          x1 = x1 XOR k (4 * i + 1); x0 = x0 XOR k (4 * i + 0)
      in (x0, x1, x2, x3)))"

definition LK :: "expkey \<Rightarrow> nat \<Rightarrow> five \<Rightarrow> five" where
  "LK k i = (\<lambda>(x0, x1, x2, x3, x4).
     (let x0 = rol32 x0 13;
          x2 = rol32 x2 3; x1 = x1 XOR x0; x4 = push_bit 3 x0;
          x3 = x3 XOR x2; x1 = x1 XOR x2;
          x1 = rol32 x1 1; x3 = x3 XOR x4;
          x3 = rol32 x3 7; x4 = x1;
          x0 = x0 XOR x1; x4 = push_bit 7 x4; x2 = x2 XOR x3;
          x0 = x0 XOR x3; x2 = x2 XOR x4; x3 = x3 XOR k (4 * i + 3);
          x1 = x1 XOR k (4 * i + 1); x0 = rol32 x0 5; x2 = rol32 x2 22;
          x0 = x0 XOR k (4 * i + 0); x2 = x2 XOR k (4 * i + 2)
      in (x0, x1, x2, x3, x4)))"

definition KL :: "expkey \<Rightarrow> nat \<Rightarrow> five \<Rightarrow> five" where
  "KL k i = (\<lambda>(x0, x1, x2, x3, x4).
     (let x0 = x0 XOR k (4 * i + 0); x1 = x1 XOR k (4 * i + 1); x2 = x2 XOR k (4 * i + 2);
          x3 = x3 XOR k (4 * i + 3); x0 = ror32 x0 5; x2 = ror32 x2 22;
          x4 = x1; x2 = x2 XOR x3; x0 = x0 XOR x3;
          x4 = push_bit 7 x4; x0 = x0 XOR x1; x1 = ror32 x1 1;
          x2 = x2 XOR x4; x3 = ror32 x3 7; x4 = push_bit 3 x0;
          x1 = x1 XOR x0; x3 = x3 XOR x4; x0 = ror32 x0 13;
          x1 = x1 XOR x2; x3 = x3 XOR x2; x2 = ror32 x2 3
      in (x0, x1, x2, x3, x4)))"

subsection \<open>The bitsliced S-boxes\<close>

definition S0 :: "five \<Rightarrow> five" where
  "S0 = (\<lambda>(x0, x1, x2, x3, x4).
     (let x4 = x3; x3 = x3 OR x0; x0 = x0 XOR x4;
          x4 = x4 XOR x2; x4 = NOT x4; x3 = x3 XOR x1;
          x1 = x1 AND x0; x1 = x1 XOR x4; x2 = x2 XOR x0;
          x0 = x0 XOR x3; x4 = x4 OR x0; x0 = x0 XOR x2;
          x2 = x2 AND x1; x3 = x3 XOR x2; x1 = NOT x1;
          x2 = x2 XOR x4; x1 = x1 XOR x2
      in (x0, x1, x2, x3, x4)))"

definition S1 :: "five \<Rightarrow> five" where
  "S1 = (\<lambda>(x0, x1, x2, x3, x4).
     (let x4 = x1; x1 = x1 XOR x0; x0 = x0 XOR x3;
          x3 = NOT x3; x4 = x4 AND x1; x0 = x0 OR x1;
          x3 = x3 XOR x2; x0 = x0 XOR x3; x1 = x1 XOR x3;
          x3 = x3 XOR x4; x1 = x1 OR x4; x4 = x4 XOR x2;
          x2 = x2 AND x0; x2 = x2 XOR x1; x1 = x1 OR x0;
          x0 = NOT x0; x0 = x0 XOR x2; x4 = x4 XOR x1
      in (x0, x1, x2, x3, x4)))"

definition S2 :: "five \<Rightarrow> five" where
  "S2 = (\<lambda>(x0, x1, x2, x3, x4).
     (let x3 = NOT x3; x1 = x1 XOR x0; x4 = x0;
          x0 = x0 AND x2; x0 = x0 XOR x3; x3 = x3 OR x4;
          x2 = x2 XOR x1; x3 = x3 XOR x1; x1 = x1 AND x0;
          x0 = x0 XOR x2; x2 = x2 AND x3; x3 = x3 OR x1;
          x0 = NOT x0; x3 = x3 XOR x0; x4 = x4 XOR x0;
          x0 = x0 XOR x2; x1 = x1 OR x2
      in (x0, x1, x2, x3, x4)))"

definition S3 :: "five \<Rightarrow> five" where
  "S3 = (\<lambda>(x0, x1, x2, x3, x4).
     (let x4 = x1; x1 = x1 XOR x3; x3 = x3 OR x0;
          x4 = x4 AND x0; x0 = x0 XOR x2; x2 = x2 XOR x1;
          x1 = x1 AND x3; x2 = x2 XOR x3; x0 = x0 OR x4;
          x4 = x4 XOR x3; x1 = x1 XOR x0; x0 = x0 AND x3;
          x3 = x3 AND x4; x3 = x3 XOR x2; x4 = x4 OR x1;
          x2 = x2 AND x1; x4 = x4 XOR x3; x0 = x0 XOR x3;
          x3 = x3 XOR x2
      in (x0, x1, x2, x3, x4)))"

definition S4 :: "five \<Rightarrow> five" where
  "S4 = (\<lambda>(x0, x1, x2, x3, x4).
     (let x4 = x3; x3 = x3 AND x0; x0 = x0 XOR x4;
          x3 = x3 XOR x2; x2 = x2 OR x4; x0 = x0 XOR x1;
          x4 = x4 XOR x3; x2 = x2 OR x0; x2 = x2 XOR x1;
          x1 = x1 AND x0; x1 = x1 XOR x4; x4 = x4 AND x2;
          x2 = x2 XOR x3; x4 = x4 XOR x0; x3 = x3 OR x1;
          x1 = NOT x1; x3 = x3 XOR x0
      in (x0, x1, x2, x3, x4)))"

definition S5 :: "five \<Rightarrow> five" where
  "S5 = (\<lambda>(x0, x1, x2, x3, x4).
     (let x4 = x1; x1 = x1 OR x0; x2 = x2 XOR x1;
          x3 = NOT x3; x4 = x4 XOR x0; x0 = x0 XOR x2;
          x1 = x1 AND x4; x4 = x4 OR x3; x4 = x4 XOR x0;
          x0 = x0 AND x3; x1 = x1 XOR x3; x3 = x3 XOR x2;
          x0 = x0 XOR x1; x2 = x2 AND x4; x1 = x1 XOR x2;
          x2 = x2 AND x0; x3 = x3 XOR x2
      in (x0, x1, x2, x3, x4)))"

definition S6 :: "five \<Rightarrow> five" where
  "S6 = (\<lambda>(x0, x1, x2, x3, x4).
     (let x4 = x1; x3 = x3 XOR x0; x1 = x1 XOR x2;
          x2 = x2 XOR x0; x0 = x0 AND x3; x1 = x1 OR x3;
          x4 = NOT x4; x0 = x0 XOR x1; x1 = x1 XOR x2;
          x3 = x3 XOR x4; x4 = x4 XOR x0; x2 = x2 AND x0;
          x4 = x4 XOR x1; x2 = x2 XOR x3; x3 = x3 AND x1;
          x3 = x3 XOR x0; x1 = x1 XOR x2
      in (x0, x1, x2, x3, x4)))"

definition S7 :: "five \<Rightarrow> five" where
  "S7 = (\<lambda>(x0, x1, x2, x3, x4).
     (let x1 = NOT x1; x4 = x1; x0 = NOT x0;
          x1 = x1 AND x2; x1 = x1 XOR x3; x3 = x3 OR x4;
          x4 = x4 XOR x2; x2 = x2 XOR x3; x3 = x3 XOR x0;
          x0 = x0 OR x1; x2 = x2 AND x0; x0 = x0 XOR x4;
          x4 = x4 XOR x3; x3 = x3 AND x0; x4 = x4 XOR x1;
          x2 = x2 XOR x4; x3 = x3 XOR x1; x4 = x4 OR x0;
          x4 = x4 XOR x1
      in (x0, x1, x2, x3, x4)))"

definition SI0 :: "five \<Rightarrow> five" where
  "SI0 = (\<lambda>(x0, x1, x2, x3, x4).
     (let x4 = x3; x1 = x1 XOR x0; x3 = x3 OR x1;
          x4 = x4 XOR x1; x0 = NOT x0; x2 = x2 XOR x3;
          x3 = x3 XOR x0; x0 = x0 AND x1; x0 = x0 XOR x2;
          x2 = x2 AND x3; x3 = x3 XOR x4; x2 = x2 XOR x3;
          x1 = x1 XOR x3; x3 = x3 AND x0; x1 = x1 XOR x0;
          x0 = x0 XOR x2; x4 = x4 XOR x3
      in (x0, x1, x2, x3, x4)))"

definition SI1 :: "five \<Rightarrow> five" where
  "SI1 = (\<lambda>(x0, x1, x2, x3, x4).
     (let x1 = x1 XOR x3; x4 = x0; x0 = x0 XOR x2;
          x2 = NOT x2; x4 = x4 OR x1; x4 = x4 XOR x3;
          x3 = x3 AND x1; x1 = x1 XOR x2; x2 = x2 AND x4;
          x4 = x4 XOR x1; x1 = x1 OR x3; x3 = x3 XOR x0;
          x2 = x2 XOR x0; x0 = x0 OR x4; x2 = x2 XOR x4;
          x1 = x1 XOR x0; x4 = x4 XOR x1
      in (x0, x1, x2, x3, x4)))"

definition SI2 :: "five \<Rightarrow> five" where
  "SI2 = (\<lambda>(x0, x1, x2, x3, x4).
     (let x2 = x2 XOR x1; x4 = x3; x3 = NOT x3;
          x3 = x3 OR x2; x2 = x2 XOR x4; x4 = x4 XOR x0;
          x3 = x3 XOR x1; x1 = x1 OR x2; x2 = x2 XOR x0;
          x1 = x1 XOR x4; x4 = x4 OR x3; x2 = x2 XOR x3;
          x4 = x4 XOR x2; x2 = x2 AND x1; x2 = x2 XOR x3;
          x3 = x3 XOR x4; x4 = x4 XOR x0
      in (x0, x1, x2, x3, x4)))"

definition SI3 :: "five \<Rightarrow> five" where
  "SI3 = (\<lambda>(x0, x1, x2, x3, x4).
     (let x2 = x2 XOR x1; x4 = x1; x1 = x1 AND x2;
          x1 = x1 XOR x0; x0 = x0 OR x4; x4 = x4 XOR x3;
          x0 = x0 XOR x3; x3 = x3 OR x1; x1 = x1 XOR x2;
          x1 = x1 XOR x3; x0 = x0 XOR x2; x2 = x2 XOR x3;
          x3 = x3 AND x1; x1 = x1 XOR x0; x0 = x0 AND x2;
          x4 = x4 XOR x3; x3 = x3 XOR x0; x0 = x0 XOR x1
      in (x0, x1, x2, x3, x4)))"

definition SI4 :: "five \<Rightarrow> five" where
  "SI4 = (\<lambda>(x0, x1, x2, x3, x4).
     (let x2 = x2 XOR x3; x4 = x0; x0 = x0 AND x1;
          x0 = x0 XOR x2; x2 = x2 OR x3; x4 = NOT x4;
          x1 = x1 XOR x0; x0 = x0 XOR x2; x2 = x2 AND x4;
          x2 = x2 XOR x0; x0 = x0 OR x4; x0 = x0 XOR x3;
          x3 = x3 AND x2; x4 = x4 XOR x3; x3 = x3 XOR x1;
          x1 = x1 AND x0; x4 = x4 XOR x1; x0 = x0 XOR x3
      in (x0, x1, x2, x3, x4)))"

definition SI5 :: "five \<Rightarrow> five" where
  "SI5 = (\<lambda>(x0, x1, x2, x3, x4).
     (let x4 = x1; x1 = x1 OR x2; x2 = x2 XOR x4;
          x1 = x1 XOR x3; x3 = x3 AND x4; x2 = x2 XOR x3;
          x3 = x3 OR x0; x0 = NOT x0; x3 = x3 XOR x2;
          x2 = x2 OR x0; x4 = x4 XOR x1; x2 = x2 XOR x4;
          x4 = x4 AND x0; x0 = x0 XOR x1; x1 = x1 XOR x3;
          x0 = x0 AND x2; x2 = x2 XOR x3; x0 = x0 XOR x2;
          x2 = x2 XOR x4; x4 = x4 XOR x3
      in (x0, x1, x2, x3, x4)))"

definition SI6 :: "five \<Rightarrow> five" where
  "SI6 = (\<lambda>(x0, x1, x2, x3, x4).
     (let x0 = x0 XOR x2; x4 = x0; x0 = x0 AND x3;
          x2 = x2 XOR x3; x0 = x0 XOR x2; x3 = x3 XOR x1;
          x2 = x2 OR x4; x2 = x2 XOR x3; x3 = x3 AND x0;
          x0 = NOT x0; x3 = x3 XOR x1; x1 = x1 AND x2;
          x4 = x4 XOR x0; x3 = x3 XOR x4; x4 = x4 XOR x2;
          x0 = x0 XOR x1; x2 = x2 XOR x0
      in (x0, x1, x2, x3, x4)))"

definition SI7 :: "five \<Rightarrow> five" where
  "SI7 = (\<lambda>(x0, x1, x2, x3, x4).
     (let x4 = x3; x3 = x3 AND x0; x0 = x0 XOR x2;
          x2 = x2 OR x4; x4 = x4 XOR x1; x0 = NOT x0;
          x1 = x1 OR x3; x4 = x4 XOR x0; x0 = x0 AND x2;
          x0 = x0 XOR x1; x1 = x1 AND x2; x3 = x3 XOR x2;
          x4 = x4 XOR x3; x2 = x2 AND x3; x3 = x3 OR x0;
          x1 = x1 XOR x4; x3 = x3 XOR x4; x4 = x4 AND x0;
          x4 = x4 XOR x2
      in (x0, x1, x2, x3, x4)))"

subsection \<open>Encryption and decryption of one block\<close>

definition load_block :: "bytes \<Rightarrow> regs \<Rightarrow> regs" where
  "load_block src r =
     r(0 := get_unaligned_le32 src,
       1 := get_unaligned_le32 (drop 4 src),
       2 := get_unaligned_le32 (drop 8 src),
       3 := get_unaligned_le32 (drop 12 src))"

definition encrypt_rounds :: "expkey \<Rightarrow> regs \<Rightarrow> regs" where
  "encrypt_rounds k r =
     (let r = call4 (K k 0) 0 1 2 3 r;
          r = call5 S0 0 1 2 3 4 r; r = call5 (LK k 1) 2 1 3 0 4 r;
          r = call5 S1 2 1 3 0 4 r; r = call5 (LK k 2) 4 3 0 2 1 r;
          r = call5 S2 4 3 0 2 1 r; r = call5 (LK k 3) 1 3 4 2 0 r;
          r = call5 S3 1 3 4 2 0 r; r = call5 (LK k 4) 2 0 3 1 4 r;
          r = call5 S4 2 0 3 1 4 r; r = call5 (LK k 5) 0 3 1 4 2 r;
          r = call5 S5 0 3 1 4 2 r; r = call5 (LK k 6) 2 0 3 4 1 r;
          r = call5 S6 2 0 3 4 1 r; r = call5 (LK k 7) 3 1 0 4 2 r;
          r = call5 S7 3 1 0 4 2 r; r = call5 (LK k 8) 2 0 4 3 1 r;
          r = call5 S0 2 0 4 3 1 r; r = call5 (LK k 9) 4 0 3 2 1 r;
          r = call5 S1 4 0 3 2 1 r; r = call5 (LK k 10) 1 3 2 4 0 r;
          r = call5 S2 1 3 2 4 0 r; r = call5 (LK k 11) 0 3 1 4 2 r;
          r = call5 S3 0 3 1 4 2 r; r = call5 (LK k 12) 4 2 3 0 1 r;
          r = call5 S4 4 2 3 0 1 r; r = call5 (LK k 13) 2 3 0 1 4 r;
          r = call5 S5 2 3 0 1 4 r; r = call5 (LK k 14) 4 2 3 1 0 r;
          r = call5 S6 4 2 3 1 0 r; r = call5 (LK k 15) 3 0 2 1 4 r;
          r = call5 S7 3 0 2 1 4 r; r = call5 (LK k 16) 4 2 1 3 0 r;
          r = call5 S0 4 2 1 3 0 r; r = call5 (LK k 17) 1 2 3 4 0 r;
          r = call5 S1 1 2 3 4 0 r; r = call5 (LK k 18) 0 3 4 1 2 r;
          r = call5 S2 0 3 4 1 2 r; r = call5 (LK k 19) 2 3 0 1 4 r;
          r = call5 S3 2 3 0 1 4 r; r = call5 (LK k 20) 1 4 3 2 0 r;
          r = call5 S4 1 4 3 2 0 r; r = call5 (LK k 21) 4 3 2 0 1 r;
          r = call5 S5 4 3 2 0 1 r; r = call5 (LK k 22) 1 4 3 0 2 r;
          r = call5 S6 1 4 3 0 2 r; r = call5 (LK k 23) 3 2 4 0 1 r;
          r = call5 S7 3 2 4 0 1 r; r = call5 (LK k 24) 1 4 0 3 2 r;
          r = call5 S0 1 4 0 3 2 r; r = call5 (LK k 25) 0 4 3 1 2 r;
          r = call5 S1 0 4 3 1 2 r; r = call5 (LK k 26) 2 3 1 0 4 r;
          r = call5 S2 2 3 1 0 4 r; r = call5 (LK k 27) 4 3 2 0 1 r;
          r = call5 S3 4 3 2 0 1 r; r = call5 (LK k 28) 0 1 3 4 2 r;
          r = call5 S4 0 1 3 4 2 r; r = call5 (LK k 29) 1 3 4 2 0 r;
          r = call5 S5 1 3 4 2 0 r; r = call5 (LK k 30) 0 1 3 2 4 r;
          r = call5 S6 0 1 3 2 4 r; r = call5 (LK k 31) 3 4 1 2 0 r;
          r = call5 S7 3 4 1 2 0 r; r = call4 (K k 32) 0 1 2 3 r
      in r)"

definition decrypt_rounds :: "expkey \<Rightarrow> regs \<Rightarrow> regs" where
  "decrypt_rounds k r =
     (let r = call4 (K k 32) 0 1 2 3 r;
          r = call5 SI7 0 1 2 3 4 r; r = call5 (KL k 31) 1 3 0 4 2 r;
          r = call5 SI6 1 3 0 4 2 r; r = call5 (KL k 30) 0 2 4 1 3 r;
          r = call5 SI5 0 2 4 1 3 r; r = call5 (KL k 29) 2 3 0 4 1 r;
          r = call5 SI4 2 3 0 4 1 r; r = call5 (KL k 28) 2 0 1 4 3 r;
          r = call5 SI3 2 0 1 4 3 r; r = call5 (KL k 27) 1 2 3 4 0 r;
          r = call5 SI2 1 2 3 4 0 r; r = call5 (KL k 26) 2 0 4 3 1 r;
          r = call5 SI1 2 0 4 3 1 r; r = call5 (KL k 25) 1 0 4 3 2 r;
          r = call5 SI0 1 0 4 3 2 r; r = call5 (KL k 24) 4 2 0 1 3 r;
          r = call5 SI7 4 2 0 1 3 r; r = call5 (KL k 23) 2 1 4 3 0 r;
          r = call5 SI6 2 1 4 3 0 r; r = call5 (KL k 22) 4 0 3 2 1 r;
          r = call5 SI5 4 0 3 2 1 r; r = call5 (KL k 21) 0 1 4 3 2 r;
          r = call5 SI4 0 1 4 3 2 r; r = call5 (KL k 20) 0 4 2 3 1 r;
          r = call5 SI3 0 4 2 3 1 r; r = call5 (KL k 19) 2 0 1 3 4 r;
          r = call5 SI2 2 0 1 3 4 r; r = call5 (KL k 18) 0 4 3 1 2 r;
          r = call5 SI1 0 4 3 1 2 r; r = call5 (KL k 17) 2 4 3 1 0 r;
          r = call5 SI0 2 4 3 1 0 r; r = call5 (KL k 16) 3 0 4 2 1 r;
          r = call5 SI7 3 0 4 2 1 r; r = call5 (KL k 15) 0 2 3 1 4 r;
          r = call5 SI6 0 2 3 1 4 r; r = call5 (KL k 14) 3 4 1 0 2 r;
          r = call5 SI5 3 4 1 0 2 r; r = call5 (KL k 13) 4 2 3 1 0 r;
          r = call5 SI4 4 2 3 1 0 r; r = call5 (KL k 12) 4 3 0 1 2 r;
          r = call5 SI3 4 3 0 1 2 r; r = call5 (KL k 11) 0 4 2 1 3 r;
          r = call5 SI2 0 4 2 1 3 r; r = call5 (KL k 10) 4 3 1 2 0 r;
          r = call5 SI1 4 3 1 2 0 r; r = call5 (KL k 9) 0 3 1 2 4 r;
          r = call5 SI0 0 3 1 2 4 r; r = call5 (KL k 8) 1 4 3 0 2 r;
          r = call5 SI7 1 4 3 0 2 r; r = call5 (KL k 7) 4 0 1 2 3 r;
          r = call5 SI6 4 0 1 2 3 r; r = call5 (KL k 6) 1 3 2 4 0 r;
          r = call5 SI5 1 3 2 4 0 r; r = call5 (KL k 5) 3 0 1 2 4 r;
          r = call5 SI4 3 0 1 2 4 r; r = call5 (KL k 4) 3 1 4 2 0 r;
          r = call5 SI3 3 1 4 2 0 r; r = call5 (KL k 3) 4 3 0 2 1 r;
          r = call5 SI2 4 3 0 2 1 r; r = call5 (KL k 2) 3 1 2 0 4 r;
          r = call5 SI1 3 1 2 0 4 r; r = call5 (KL k 1) 4 1 2 0 3 r;
          r = call5 SI0 4 1 2 0 3 r; r = call4 (K k 0) 2 3 1 4 r
      in r)"

text \<open>The locals are not initialised in C; \<open>\<lambda>_. 0\<close> stands for that, and no result depends on
  it.\<close>

definition serpent_encrypt :: "serpent_ctx \<Rightarrow> bytes \<Rightarrow> bytes" where
  "serpent_encrypt ctx src =
     (let k = expkey ctx;
          r = encrypt_rounds k (load_block src (\<lambda>_. 0))
      in put_unaligned_le32 (r 0) @ put_unaligned_le32 (r 1) @
         put_unaligned_le32 (r 2) @ put_unaligned_le32 (r 3))"

definition serpent_decrypt :: "serpent_ctx \<Rightarrow> bytes \<Rightarrow> bytes" where
  "serpent_decrypt ctx src =
     (let k = expkey ctx;
          r = decrypt_rounds k (load_block src (\<lambda>_. 0))
      in put_unaligned_le32 (r 2) @ put_unaligned_le32 (r 3) @
         put_unaligned_le32 (r 1) @ put_unaligned_le32 (r 4))"

subsection \<open>The key schedule\<close>

text \<open>
  The pointer \<^verbatim>\<open>k\<close> into the round-key array moves by 50; \<open>at base off\<close> is the array
  index of \<^verbatim>\<open>k[off]\<close> while \<^verbatim>\<open>k\<close> points at element \<open>base\<close>.
\<close>

definition at :: "nat \<Rightarrow> int \<Rightarrow> nat" where
  "at base off = nat (int base + off)"

type_synonym key_state = "regs \<times> expkey"

text \<open>One \<^verbatim>\<open>keyiter(k[a], rb, rc, rd, i, j)\<close> is the tuple \<open>(a, b, c, d, i, j)\<close>.\<close>

type_synonym key_step = "int \<times> nat \<times> nat \<times> nat \<times> nat \<times> int"

fun keyiter :: "nat \<Rightarrow> key_step \<Rightarrow> key_state \<Rightarrow> key_state" where
  "keyiter base (a, b, c, d, i, j) (r, k) =
     (let r = r(b := r b XOR r d);
          r = r(b := r b XOR r c);
          r = r(b := r b XOR k (at base a));
          r = r(b := r b XOR (PHI XOR of_nat i));
          r = r(b := rol32 (r b) 11)
      in (r, k(at base j := r b)))"

fun storekeys :: "nat \<Rightarrow> nat \<Rightarrow> nat \<Rightarrow> nat \<Rightarrow> nat \<Rightarrow> int \<Rightarrow> key_state \<Rightarrow> key_state" where
  "storekeys base x0 x1 x2 x3 i (r, k) =
     (r, k(at base i := r x0, at base (i + 1) := r x1,
           at base (i + 2) := r x2, at base (i + 3) := r x3))"

fun loadkeys :: "nat \<Rightarrow> nat \<Rightarrow> nat \<Rightarrow> nat \<Rightarrow> nat \<Rightarrow> int \<Rightarrow> key_state \<Rightarrow> key_state" where
  "loadkeys base x0 x1 x2 x3 i (r, k) =
     (r(x0 := k (at base i), x1 := k (at base (i + 1)),
        x2 := k (at base (i + 2)), x3 := k (at base (i + 3))), k)"

definition store_and_load_keys ::
  "nat \<Rightarrow> nat \<Rightarrow> nat \<Rightarrow> nat \<Rightarrow> nat \<Rightarrow> int \<Rightarrow> int \<Rightarrow> key_state \<Rightarrow> key_state" where
  "store_and_load_keys base x0 x1 x2 x3 s l st =
     loadkeys base x0 x1 x2 x3 l (storekeys base x0 x1 x2 x3 s st)"

definition serpent_setkey_sbox :: "key_state \<Rightarrow> key_state" where
  "serpent_setkey_sbox st =
     (let st = apfst (call5 S3 3 4 0 1 2) st; st = store_and_load_keys 100 1 2 4 3 28 24 st;
          st = apfst (call5 S4 1 2 4 3 0) st; st = store_and_load_keys 100 2 4 3 0 24 20 st;
          st = apfst (call5 S5 2 4 3 0 1) st; st = store_and_load_keys 100 1 2 4 0 20 16 st;
          st = apfst (call5 S6 1 2 4 0 3) st; st = store_and_load_keys 100 4 3 2 0 16 12 st;
          st = apfst (call5 S7 4 3 2 0 1) st; st = store_and_load_keys 100 1 2 0 4 12 8 st;
          st = apfst (call5 S0 1 2 0 4 3) st; st = store_and_load_keys 100 0 2 4 1 8 4 st;
          st = apfst (call5 S1 0 2 4 1 3) st; st = store_and_load_keys 100 3 4 1 0 4 0 st;
          st = apfst (call5 S2 3 4 1 0 2) st; st = store_and_load_keys 100 2 4 3 0 0 (-4) st;
          st = apfst (call5 S3 2 4 3 0 1) st; st = store_and_load_keys 100 0 1 4 2 (-4) (-8) st;
          st = apfst (call5 S4 0 1 4 2 3) st; st = store_and_load_keys 100 1 4 2 3 (-8) (-12) st;
          st = apfst (call5 S5 1 4 2 3 0) st; st = store_and_load_keys 100 0 1 4 3 (-12) (-16) st;
          st = apfst (call5 S6 0 1 4 3 2) st; st = store_and_load_keys 100 4 2 1 3 (-16) (-20) st;
          st = apfst (call5 S7 4 2 1 3 0) st; st = store_and_load_keys 100 0 1 3 4 (-20) (-24) st;
          st = apfst (call5 S0 0 1 3 4 2) st; st = store_and_load_keys 100 3 1 4 0 (-24) (-28) st;
          st = apfst (call5 S1 3 1 4 0 2) st; st = store_and_load_keys 50 2 4 0 3 22 18 st;
          st = apfst (call5 S2 2 4 0 3 1) st; st = store_and_load_keys 50 1 4 2 3 18 14 st;
          st = apfst (call5 S3 1 4 2 3 0) st; st = store_and_load_keys 50 3 0 4 1 14 10 st;
          st = apfst (call5 S4 3 0 4 1 2) st; st = store_and_load_keys 50 0 4 1 2 10 6 st;
          st = apfst (call5 S5 0 4 1 2 3) st; st = store_and_load_keys 50 3 0 4 2 6 2 st;
          st = apfst (call5 S6 3 0 4 2 1) st; st = store_and_load_keys 50 4 1 0 2 2 (-2) st;
          st = apfst (call5 S7 4 1 0 2 3) st; st = store_and_load_keys 50 3 0 2 4 (-2) (-6) st;
          st = apfst (call5 S0 3 0 2 4 1) st; st = store_and_load_keys 50 2 0 4 3 (-6) (-10) st;
          st = apfst (call5 S1 2 0 4 3 1) st; st = store_and_load_keys 50 1 4 3 2 (-10) (-14) st;
          st = apfst (call5 S2 1 4 3 2 0) st; st = store_and_load_keys 50 0 4 1 2 (-14) (-18) st;
          st = apfst (call5 S3 0 4 1 2 3) st; st = store_and_load_keys 50 2 3 4 0 (-18) (-22) st;
          st = apfst (call5 S4 2 3 4 0 1) st; st = store_and_load_keys 0 3 4 0 1 28 24 st;
          st = apfst (call5 S5 3 4 0 1 2) st; st = store_and_load_keys 0 2 3 4 1 24 20 st;
          st = apfst (call5 S6 2 3 4 1 0) st; st = store_and_load_keys 0 4 0 3 1 20 16 st;
          st = apfst (call5 S7 4 0 3 1 2) st; st = store_and_load_keys 0 2 3 1 4 16 12 st;
          st = apfst (call5 S0 2 3 1 4 0) st; st = store_and_load_keys 0 1 3 4 2 12 8 st;
          st = apfst (call5 S1 1 3 4 2 0) st; st = store_and_load_keys 0 0 4 2 1 8 4 st;
          st = apfst (call5 S2 0 4 2 1 3) st; st = store_and_load_keys 0 3 4 0 1 4 0 st;
          st = apfst (call5 S3 3 4 0 1 2) st; st = storekeys 0 1 2 4 3 0 st
      in st)"

text \<open>The unrolled calls of \<^verbatim>\<open>keyiter\<close>, in the three stretches between \<^verbatim>\<open>k += 50\<close>.\<close>

definition key_steps_first :: "key_step list" where
  "key_steps_first =
      [(0, 0, 4, 2, 0, 0), (1, 1, 0, 3, 1, 1), (2, 2, 1, 4, 2, 2), (3, 3, 2, 0, 3, 3),
       (4, 4, 3, 1, 4, 4), (5, 0, 4, 2, 5, 5), (6, 1, 0, 3, 6, 6), (7, 2, 1, 4, 7, 7),
       (0, 3, 2, 0, 8, 8), (1, 4, 3, 1, 9, 9), (2, 0, 4, 2, 10, 10), (3, 1, 0, 3, 11, 11),
       (4, 2, 1, 4, 12, 12), (5, 3, 2, 0, 13, 13), (6, 4, 3, 1, 14, 14), (7, 0, 4, 2, 15, 15),
       (8, 1, 0, 3, 16, 16), (9, 2, 1, 4, 17, 17), (10, 3, 2, 0, 18, 18), (11, 4, 3, 1, 19, 19),
       (12, 0, 4, 2, 20, 20), (13, 1, 0, 3, 21, 21), (14, 2, 1, 4, 22, 22), (15, 3, 2, 0, 23, 23),
       (16, 4, 3, 1, 24, 24), (17, 0, 4, 2, 25, 25), (18, 1, 0, 3, 26, 26), (19, 2, 1, 4, 27, 27),
       (20, 3, 2, 0, 28, 28), (21, 4, 3, 1, 29, 29), (22, 0, 4, 2, 30, 30), (23, 1, 0, 3, 31, 31)]"

definition key_steps_second :: "key_step list" where
  "key_steps_second =
      [(-26, 2, 1, 4, 32, -18), (-25, 3, 2, 0, 33, -17), (-24, 4, 3, 1, 34, -16), (-23, 0, 4, 2, 35, -15),
       (-22, 1, 0, 3, 36, -14), (-21, 2, 1, 4, 37, -13), (-20, 3, 2, 0, 38, -12), (-19, 4, 3, 1, 39, -11),
       (-18, 0, 4, 2, 40, -10), (-17, 1, 0, 3, 41, -9), (-16, 2, 1, 4, 42, -8), (-15, 3, 2, 0, 43, -7),
       (-14, 4, 3, 1, 44, -6), (-13, 0, 4, 2, 45, -5), (-12, 1, 0, 3, 46, -4), (-11, 2, 1, 4, 47, -3),
       (-10, 3, 2, 0, 48, -2), (-9, 4, 3, 1, 49, -1), (-8, 0, 4, 2, 50, 0), (-7, 1, 0, 3, 51, 1),
       (-6, 2, 1, 4, 52, 2), (-5, 3, 2, 0, 53, 3), (-4, 4, 3, 1, 54, 4), (-3, 0, 4, 2, 55, 5),
       (-2, 1, 0, 3, 56, 6), (-1, 2, 1, 4, 57, 7), (0, 3, 2, 0, 58, 8), (1, 4, 3, 1, 59, 9),
       (2, 0, 4, 2, 60, 10), (3, 1, 0, 3, 61, 11), (4, 2, 1, 4, 62, 12), (5, 3, 2, 0, 63, 13),
       (6, 4, 3, 1, 64, 14), (7, 0, 4, 2, 65, 15), (8, 1, 0, 3, 66, 16), (9, 2, 1, 4, 67, 17),
       (10, 3, 2, 0, 68, 18), (11, 4, 3, 1, 69, 19), (12, 0, 4, 2, 70, 20), (13, 1, 0, 3, 71, 21),
       (14, 2, 1, 4, 72, 22), (15, 3, 2, 0, 73, 23), (16, 4, 3, 1, 74, 24), (17, 0, 4, 2, 75, 25),
       (18, 1, 0, 3, 76, 26), (19, 2, 1, 4, 77, 27), (20, 3, 2, 0, 78, 28), (21, 4, 3, 1, 79, 29),
       (22, 0, 4, 2, 80, 30), (23, 1, 0, 3, 81, 31)]"

definition key_steps_third :: "key_step list" where
  "key_steps_third =
      [(-26, 2, 1, 4, 82, -18), (-25, 3, 2, 0, 83, -17), (-24, 4, 3, 1, 84, -16), (-23, 0, 4, 2, 85, -15),
       (-22, 1, 0, 3, 86, -14), (-21, 2, 1, 4, 87, -13), (-20, 3, 2, 0, 88, -12), (-19, 4, 3, 1, 89, -11),
       (-18, 0, 4, 2, 90, -10), (-17, 1, 0, 3, 91, -9), (-16, 2, 1, 4, 92, -8), (-15, 3, 2, 0, 93, -7),
       (-14, 4, 3, 1, 94, -6), (-13, 0, 4, 2, 95, -5), (-12, 1, 0, 3, 96, -4), (-11, 2, 1, 4, 97, -3),
       (-10, 3, 2, 0, 98, -2), (-9, 4, 3, 1, 99, -1), (-8, 0, 4, 2, 100, 0), (-7, 1, 0, 3, 101, 1),
       (-6, 2, 1, 4, 102, 2), (-5, 3, 2, 0, 103, 3), (-4, 4, 3, 1, 104, 4), (-3, 0, 4, 2, 105, 5),
       (-2, 1, 0, 3, 106, 6), (-1, 2, 1, 4, 107, 7), (0, 3, 2, 0, 108, 8), (1, 4, 3, 1, 109, 9),
       (2, 0, 4, 2, 110, 10), (3, 1, 0, 3, 111, 11), (4, 2, 1, 4, 112, 12), (5, 3, 2, 0, 113, 13),
       (6, 4, 3, 1, 114, 14), (7, 0, 4, 2, 115, 15), (8, 1, 0, 3, 116, 16), (9, 2, 1, 4, 117, 17),
       (10, 3, 2, 0, 118, 18), (11, 4, 3, 1, 119, 19), (12, 0, 4, 2, 120, 20), (13, 1, 0, 3, 121, 21),
       (14, 2, 1, 4, 122, 22), (15, 3, 2, 0, 123, 23), (16, 4, 3, 1, 124, 24), (17, 0, 4, 2, 125, 25),
       (18, 1, 0, 3, 126, 26), (19, 2, 1, 4, 127, 27), (20, 3, 2, 0, 128, 28), (21, 4, 3, 1, 129, 29),
       (22, 0, 4, 2, 130, 30), (23, 1, 0, 3, 131, 31)]"

text \<open>A key shorter than 32 bytes is padded with a one byte and zeros.\<close>

definition pad_key :: "bytes \<Rightarrow> bytes" where
  "pad_key key =
     (let k8 = key;
          k8 = (if length k8 < 32 then k8 @ [1] else k8)
      in k8 @ replicate (32 - length k8) 0)"

definition load_key :: "bytes \<Rightarrow> expkey \<Rightarrow> expkey" where
  "load_key k8 k = (\<lambda>i. if i < 8 then get_unaligned_le32 (drop (4 * i) k8) else k i)"

definition serpent_setkey :: "serpent_ctx \<Rightarrow> bytes \<Rightarrow> serpent_ctx" where
  "serpent_setkey ctx key =
     (let k = load_key (pad_key key) (expkey ctx);
          r = (\<lambda>_. 0)(0 := k 3, 1 := k 4, 2 := k 5, 3 := k 6, 4 := k 7);
          st = fold (keyiter 0) key_steps_first (r, k);
          st = fold (keyiter 50) key_steps_second st;
          st = fold (keyiter 100) key_steps_third st;
          st = serpent_setkey_sbox st
      in ctx\<lparr>expkey := snd st\<rparr>)"

text \<open>The adapter, as \<^verbatim>\<open>vc_cascade.cpp\<close> calls it.\<close>

definition serpent_set_key_256 :: "bytes \<Rightarrow> serpent_ctx" where
  "serpent_set_key_256 key = serpent_setkey \<lparr>expkey = (\<lambda>_. 0)\<rparr> key"

definition serpent_encrypt_block :: "serpent_ctx \<Rightarrow> bytes \<Rightarrow> bytes" where
  "serpent_encrypt_block key blk = serpent_encrypt key blk"

definition serpent_decrypt_block :: "serpent_ctx \<Rightarrow> bytes \<Rightarrow> bytes" where
  "serpent_decrypt_block key blk = serpent_decrypt key blk"

section \<open>The reference cipher\<close>

text \<open>
  Serpent as its authors publish it: each S-box is a table of sixteen four-bit values,
  applied to the 32 bit positions of four words at once, and a round is key mixing, S-box
  layer and linear transformation.
\<close>

definition nib :: "bool \<Rightarrow> bool \<Rightarrow> bool \<Rightarrow> bool \<Rightarrow> nat" where
  "nib p0 p1 p2 p3 = of_bool p0 + 2 * of_bool p1 + 4 * of_bool p2 + 8 * of_bool p3"

definition gather :: "(nat \<Rightarrow> bool) \<Rightarrow> u32" where
  "gather f = horner_sum of_bool 2 (map f [0..<32])"

definition sbox_layer :: "nat list \<Rightarrow> four \<Rightarrow> four" where
  "sbox_layer T = (\<lambda>(x0, x1, x2, x3).
     let v = (\<lambda>n. T ! nib (bit x0 n) (bit x1 n) (bit x2 n) (bit x3 n))
     in (gather (\<lambda>n. bit (v n) 0), gather (\<lambda>n. bit (v n) 1),
         gather (\<lambda>n. bit (v n) 2), gather (\<lambda>n. bit (v n) 3)))"

definition sbox0 :: "nat list" where
  "sbox0 = [3, 8, 15, 1, 10, 6, 5, 11, 14, 13, 4, 2, 7, 0, 9, 12]"

definition sbox1 :: "nat list" where
  "sbox1 = [15, 12, 2, 7, 9, 0, 5, 10, 1, 11, 14, 8, 6, 13, 3, 4]"

definition sbox2 :: "nat list" where
  "sbox2 = [8, 6, 7, 9, 3, 12, 10, 15, 13, 1, 14, 4, 0, 11, 5, 2]"

definition sbox3 :: "nat list" where
  "sbox3 = [0, 15, 11, 8, 12, 9, 6, 3, 13, 1, 2, 4, 10, 7, 5, 14]"

definition sbox4 :: "nat list" where
  "sbox4 = [1, 15, 8, 3, 12, 0, 11, 6, 2, 5, 4, 10, 9, 14, 7, 13]"

definition sbox5 :: "nat list" where
  "sbox5 = [15, 5, 2, 11, 4, 10, 9, 12, 0, 3, 14, 8, 13, 6, 7, 1]"

definition sbox6 :: "nat list" where
  "sbox6 = [7, 2, 12, 5, 8, 4, 6, 11, 14, 9, 1, 15, 13, 3, 10, 0]"

definition sbox7 :: "nat list" where
  "sbox7 = [1, 13, 15, 0, 14, 8, 2, 11, 7, 4, 12, 10, 9, 3, 5, 6]"

definition inv_sbox0 :: "nat list" where
  "inv_sbox0 = [13, 3, 11, 0, 10, 6, 5, 12, 1, 14, 4, 7, 15, 9, 8, 2]"

definition inv_sbox1 :: "nat list" where
  "inv_sbox1 = [5, 8, 2, 14, 15, 6, 12, 3, 11, 4, 7, 9, 1, 13, 10, 0]"

definition inv_sbox2 :: "nat list" where
  "inv_sbox2 = [12, 9, 15, 4, 11, 14, 1, 2, 0, 3, 6, 13, 5, 8, 10, 7]"

definition inv_sbox3 :: "nat list" where
  "inv_sbox3 = [0, 9, 10, 7, 11, 14, 6, 13, 3, 5, 12, 2, 4, 8, 15, 1]"

definition inv_sbox4 :: "nat list" where
  "inv_sbox4 = [5, 0, 8, 3, 10, 9, 7, 14, 2, 12, 11, 6, 4, 15, 13, 1]"

definition inv_sbox5 :: "nat list" where
  "inv_sbox5 = [8, 15, 2, 9, 4, 1, 13, 14, 11, 6, 5, 3, 7, 12, 10, 0]"

definition inv_sbox6 :: "nat list" where
  "inv_sbox6 = [15, 10, 1, 13, 5, 3, 6, 0, 4, 9, 14, 7, 2, 12, 8, 11]"

definition inv_sbox7 :: "nat list" where
  "inv_sbox7 = [3, 0, 6, 13, 9, 14, 15, 8, 5, 12, 11, 7, 10, 1, 4, 2]"

definition xor_key :: "expkey \<Rightarrow> nat \<Rightarrow> four \<Rightarrow> four" where
  "xor_key k i = (\<lambda>(x0, x1, x2, x3).
     (x0 XOR k (4 * i), x1 XOR k (4 * i + 1), x2 XOR k (4 * i + 2), x3 XOR k (4 * i + 3)))"

definition linear :: "four \<Rightarrow> four" where
  "linear = (\<lambda>(x0, x1, x2, x3).
     let y0 = word_rotl 13 x0; y2 = word_rotl 3 x2;
         y1 = word_rotl 1 (x1 XOR y0 XOR y2);
         y3 = word_rotl 7 (x3 XOR y2 XOR push_bit 3 y0)
     in (word_rotl 5 (y0 XOR y1 XOR y3), y1, word_rotl 22 (y2 XOR y3 XOR push_bit 7 y1), y3))"

definition inv_linear :: "four \<Rightarrow> four" where
  "inv_linear = (\<lambda>(x0, x1, x2, x3).
     let y2 = word_rotr 22 x2 XOR x3 XOR push_bit 7 x1;
         y0 = word_rotr 5 x0 XOR x1 XOR x3;
         z3 = word_rotr 7 x3 XOR push_bit 3 y0 XOR y2;
         z1 = word_rotr 1 x1 XOR y0 XOR y2
     in (word_rotr 13 y0, z1, word_rotr 3 y2, z3))"

definition sbox :: "nat \<Rightarrow> nat list" where
  "sbox i = [sbox0, sbox1, sbox2, sbox3, sbox4, sbox5, sbox6, sbox7] ! (i mod 8)"

definition inv_sbox :: "nat \<Rightarrow> nat list" where
  "inv_sbox i = [inv_sbox0, inv_sbox1, inv_sbox2, inv_sbox3,
                 inv_sbox4, inv_sbox5, inv_sbox6, inv_sbox7] ! (i mod 8)"

fun ref_rounds :: "expkey \<Rightarrow> nat \<Rightarrow> four \<Rightarrow> four" where
  "ref_rounds k 0 q = xor_key k 0 q"
| "ref_rounds k (Suc i) q = xor_key k (Suc i) (linear (sbox_layer (sbox i) (ref_rounds k i q)))"

definition ref_encrypt :: "expkey \<Rightarrow> four \<Rightarrow> four" where
  "ref_encrypt k q = xor_key k 32 (sbox_layer (sbox 31) (ref_rounds k 31 q))"

fun ref_unrounds :: "expkey \<Rightarrow> nat \<Rightarrow> four \<Rightarrow> four" where
  "ref_unrounds k 0 q = xor_key k 0 q"
| "ref_unrounds k (Suc i) q =
     ref_unrounds k i (sbox_layer (inv_sbox i) (inv_linear (xor_key k (Suc i) q)))"

definition ref_decrypt :: "expkey \<Rightarrow> four \<Rightarrow> four" where
  "ref_decrypt k q = ref_unrounds k 31 (sbox_layer (inv_sbox 31) (xor_key k 32 q))"

text \<open>The prekeys by their recurrence, and the subkeys as S-boxed groups of four prekeys.\<close>

fun prekey :: "(nat \<Rightarrow> u32) \<Rightarrow> nat \<Rightarrow> u32" where
  "prekey key n =
     (if n < 8 then key n
      else word_rotl 11 (prekey key (n - 8) XOR prekey key (n - 5) XOR prekey key (n - 3) XOR
                         prekey key (n - 1) XOR PHI XOR of_nat (n - 8)))"

declare prekey.simps [simp del]

definition prekey_quad :: "(nat \<Rightarrow> u32) \<Rightarrow> nat \<Rightarrow> four" where
  "prekey_quad key g =
     (prekey key (4 * g + 8), prekey key (4 * g + 9), prekey key (4 * g + 10), prekey key (4 * g + 11))"

definition ref_subkey :: "(nat \<Rightarrow> u32) \<Rightarrow> nat \<Rightarrow> four" where
  "ref_subkey key g = sbox_layer (sbox (35 - g)) (prekey_quad key g)"

definition key_quad :: "expkey \<Rightarrow> nat \<Rightarrow> four" where
  "key_quad k g = (k (4 * g), k (4 * g + 1), k (4 * g + 2), k (4 * g + 3))"

section \<open>The bitsliced code computes the reference cipher\<close>

text \<open>A \<^emph>\<open>view\<close> is the contents of four registers, in the order in which a macro names them.\<close>

definition view :: "regs \<Rightarrow> nat \<times> nat \<times> nat \<times> nat \<Rightarrow> four" where
  "view r = (\<lambda>(a, b, c, d). (r a, r b, r c, r d))"

definition table_bits :: "nat list \<Rightarrow> bool \<Rightarrow> bool \<Rightarrow> bool \<Rightarrow> bool \<Rightarrow> bool \<times> bool \<times> bool \<times> bool" where
  "table_bits T p0 p1 p2 p3 =
     (let v = T ! nib p0 p1 p2 p3 in (bit v 0, bit v 1, bit v 2, bit v 3))"

lemma bit_gather [simp]: "bit (gather f) n \<longleftrightarrow> n < 32 \<and> f n"
  by (auto simp: gather_def bit_horner_sum_bit_word_iff)

lemma sbox_layerI:
  assumes "\<And>n. n < 32 \<Longrightarrow> (bit y0 n, bit y1 n, bit y2 n, bit y3 n) =
     table_bits T (bit x0 n) (bit x1 n) (bit x2 n) (bit x3 n)"
  shows "(y0, y1, y2, y3) = sbox_layer T (x0, x1, x2, x3)"
  using assms by (auto simp: Let_def table_bits_def sbox_layer_def intro!: bit_word_eqI)

lemma sbox_view:
  assumes "\<And>n. n < 32 \<Longrightarrow>
     (bit (r' w) n, bit (r' x) n, bit (r' y) n, bit (r' z) n) =
     table_bits T (bit (r a) n) (bit (r b) n) (bit (r c) n) (bit (r d) n)"
  shows "view r' (w, x, y, z) = sbox_layer T (view r (a, b, c, d))"
  using sbox_layerI [OF assms] by (simp add: view_def)

lemmas bitslice = call5_def Let_def bit_simps table_bits_def nib_def

lemma S_views:
  assumes "distinct [a, b, c, d, e]"
  shows "view (call5 S0 a b c d e r) (c, b, d, a) = sbox_layer sbox0 (view r (a, b, c, d))"
    and "view (call5 S1 a b c d e r) (e, c, d, a) = sbox_layer sbox1 (view r (a, b, c, d))"
    and "view (call5 S2 a b c d e r) (e, b, a, d) = sbox_layer sbox2 (view r (a, b, c, d))"
    and "view (call5 S3 a b c d e r) (d, e, b, a) = sbox_layer sbox3 (view r (a, b, c, d))"
    and "view (call5 S4 a b c d e r) (b, c, d, e) = sbox_layer sbox4 (view r (a, b, c, d))"
    and "view (call5 S5 a b c d e r) (e, a, b, d) = sbox_layer sbox5 (view r (a, b, c, d))"
    and "view (call5 S6 a b c d e r) (c, e, b, d) = sbox_layer sbox6 (view r (a, b, c, d))"
    and "view (call5 S7 a b c d e r) (e, c, d, a) = sbox_layer sbox7 (view r (a, b, c, d))"
  using assms
  by - (rule sbox_view;
        case_tac "bit (r a) n"; case_tac "bit (r b) n"; case_tac "bit (r c) n"; case_tac "bit (r d) n";
        simp add: bitslice S0_def sbox0_def S1_def sbox1_def S2_def sbox2_def
          S3_def sbox3_def S4_def sbox4_def S5_def sbox5_def
          S6_def sbox6_def S7_def sbox7_def)+

lemma SI_views:
  assumes "distinct [a, b, c, d, e]"
  shows "view (call5 SI0 a b c d e r) (c, e, b, a) = sbox_layer inv_sbox0 (view r (a, b, c, d))"
    and "view (call5 SI1 a b c d e r) (e, b, c, d) = sbox_layer inv_sbox1 (view r (a, b, c, d))"
    and "view (call5 SI2 a b c d e r) (b, e, d, c) = sbox_layer inv_sbox2 (view r (a, b, c, d))"
    and "view (call5 SI3 a b c d e r) (c, a, e, d) = sbox_layer inv_sbox3 (view r (a, b, c, d))"
    and "view (call5 SI4 a b c d e r) (a, c, e, d) = sbox_layer inv_sbox4 (view r (a, b, c, d))"
    and "view (call5 SI5 a b c d e r) (b, e, a, c) = sbox_layer inv_sbox5 (view r (a, b, c, d))"
    and "view (call5 SI6 a b c d e r) (c, e, d, a) = sbox_layer inv_sbox6 (view r (a, b, c, d))"
    and "view (call5 SI7 a b c d e r) (b, d, a, e) = sbox_layer inv_sbox7 (view r (a, b, c, d))"
  using assms
  by - (rule sbox_view;
        case_tac "bit (r a) n"; case_tac "bit (r b) n"; case_tac "bit (r c) n"; case_tac "bit (r d) n";
        simp add: bitslice SI0_def inv_sbox0_def SI1_def inv_sbox1_def SI2_def inv_sbox2_def
          SI3_def inv_sbox3_def SI4_def inv_sbox4_def SI5_def inv_sbox5_def
          SI6_def inv_sbox6_def SI7_def inv_sbox7_def)+

lemma rol32_rotl: "0 < s \<Longrightarrow> s < 32 \<Longrightarrow> rol32 w s = word_rotl s w"
  by (simp add: rol32_def shift_or_rotl)

lemma ror32_rotr: "0 < s \<Longrightarrow> s < 32 \<Longrightarrow> ror32 w s = word_rotr s w"
  by (simp add: ror32_def shift_or_rotr)

lemma K_view:
  "distinct [a, b, c, d] \<Longrightarrow> view (call4 (K k i) a b c d r) (a, b, c, d) = xor_key k i (view r (a, b, c, d))"
  by (simp add: view_def call4_def K_def xor_key_def Let_def)

lemma LK_view:
  "distinct [a, b, c, d, e] \<Longrightarrow>
     view (call5 (LK k i) a b c d e r) (a, b, c, d) = xor_key k i (linear (view r (a, b, c, d)))"
  by (simp add: view_def call5_def LK_def xor_key_def linear_def Let_def rol32_rotl ac_simps)

lemma KL_view:
  "distinct [a, b, c, d, e] \<Longrightarrow>
     view (call5 (KL k i) a b c d e r) (a, b, c, d) = inv_linear (xor_key k i (view r (a, b, c, d)))"
  by (simp add: view_def call5_def KL_def xor_key_def inv_linear_def Let_def ror32_rotr ac_simps)

lemmas round_views = S_views SI_views K_view LK_view KL_view

lemma ref_rounds_numeral:
  "ref_rounds k (numeral n) q =
     xor_key k (numeral n) (linear (sbox_layer (sbox (pred_numeral n)) (ref_rounds k (pred_numeral n) q)))"
  by (simp add: numeral_eq_Suc)

lemma ref_unrounds_numeral:
  "ref_unrounds k (numeral n) q =
     ref_unrounds k (pred_numeral n)
       (sbox_layer (inv_sbox (pred_numeral n)) (inv_linear (xor_key k (numeral n) q)))"
  by (simp add: numeral_eq_Suc)

lemma encrypt_rounds_view:
  "view (encrypt_rounds k r) (0, 1, 2, 3) = ref_encrypt k (view r (0, 1, 2, 3))"
  by (simp add: encrypt_rounds_def ref_encrypt_def Let_def round_views sbox_def ref_rounds_numeral)

lemma decrypt_rounds_view:
  "view (decrypt_rounds k r) (2, 3, 1, 4) = ref_decrypt k (view r (0, 1, 2, 3))"
  by (simp add: decrypt_rounds_def ref_decrypt_def Let_def round_views inv_sbox_def ref_unrounds_numeral)

section \<open>The reference cipher is invertible\<close>

lemma bits_nib:
  "bit (nib p0 p1 p2 p3) 0 = p0 \<and> bit (nib p0 p1 p2 p3) (Suc 0) = p1 \<and>
   bit (nib p0 p1 p2 p3) 2 = p2 \<and> bit (nib p0 p1 p2 p3) 3 = p3"
  by (cases p0; cases p1; cases p2; cases p3; simp add: nib_def bit_iff_odd)

lemma nib_bits: "v < 16 \<Longrightarrow> nib (bit v 0) (bit v (Suc 0)) (bit v 2) (bit v 3) = v"
proof -
  have "\<forall>v\<in>set [0..<16]. nib (bit v 0) (bit v (Suc 0)) (bit v 2) (bit v 3) = v"
    by code_simp
  then show "v < 16 \<Longrightarrow> ?thesis" by simp
qed

lemma nib_less: "nib p0 p1 p2 p3 < 16"
  by (cases p0; cases p1; cases p2; cases p3; simp add: nib_def)

definition inverse_tables :: "nat list \<Rightarrow> nat list \<Rightarrow> bool" where
  "inverse_tables T U \<longleftrightarrow> (\<forall>v\<in>set [0..<16]. T ! v < 16 \<and> U ! (T ! v) = v)"

lemma sbox_layer_inverse:
  assumes "inverse_tables T U"
  shows "sbox_layer U (sbox_layer T q) = q"
proof -
  have T: "T ! nib p0 p1 p2 p3 < 16" "U ! (T ! nib p0 p1 p2 p3) = nib p0 p1 p2 p3" for p0 p1 p2 p3
    using assms nib_less [of p0 p1 p2 p3] by (auto simp: inverse_tables_def)
  obtain x0 x1 x2 x3 where q: "q = (x0, x1, x2, x3)" by (cases q)
  show ?thesis
    by (auto simp: q sbox_layer_def Let_def nib_bits T bits_nib intro!: bit_word_eqI)
qed

lemma inverse_tables_sbox: "inverse_tables (sbox i) (inv_sbox i)" "inverse_tables (inv_sbox i) (sbox i)"
proof -
  have "\<forall>i\<in>set [0..<8]. inverse_tables (sbox i) (inv_sbox i) \<and> inverse_tables (inv_sbox i) (sbox i)"
    by code_simp
  then have "inverse_tables (sbox (i mod 8)) (inv_sbox (i mod 8)) \<and>
      inverse_tables (inv_sbox (i mod 8)) (sbox (i mod 8))" by simp
  then show "inverse_tables (sbox i) (inv_sbox i)" "inverse_tables (inv_sbox i) (sbox i)"
    by (simp_all add: sbox_def inv_sbox_def)
qed

lemmas sbox_cancel [simp] = inverse_tables_sbox [THEN sbox_layer_inverse]

lemma xor_key_cancel [simp]: "xor_key k i (xor_key k i q) = q"
  by (simp add: xor_key_def split: prod.split)

lemma linear_cancel [simp]: "inv_linear (linear q) = q" "linear (inv_linear q) = q"
  by (cases q; simp add: linear_def inv_linear_def Let_def xor.assoc xor.commute xor.left_commute)+

lemma ref_unrounds_rounds [simp]: "ref_unrounds k i (ref_rounds k i q) = q"
  by (induction i) simp_all

lemma ref_rounds_unrounds [simp]: "ref_rounds k i (ref_unrounds k i q) = q"
  by (induction i arbitrary: q) simp_all

lemma ref_cancel [simp]: "ref_decrypt k (ref_encrypt k q) = q" "ref_encrypt k (ref_decrypt k q) = q"
  by (simp_all add: ref_encrypt_def ref_decrypt_def)

definition quad_of_block :: "bytes \<Rightarrow> four" where
  "quad_of_block b =
     (get_unaligned_le32 b, get_unaligned_le32 (drop 4 b),
      get_unaligned_le32 (drop 8 b), get_unaligned_le32 (drop 12 b))"

definition block_of_quad :: "four \<Rightarrow> bytes" where
  "block_of_quad = (\<lambda>(x0, x1, x2, x3).
     put_unaligned_le32 x0 @ put_unaligned_le32 x1 @ put_unaligned_le32 x2 @ put_unaligned_le32 x3)"

lemma quad_block [simp]: "quad_of_block (block_of_quad q) = q"
  by (cases q) (simp add: quad_of_block_def block_of_quad_def)

lemma block_quad: "length b = 16 \<Longrightarrow> block_of_quad (quad_of_block b) = b"
  using block16_words [of b] by (simp add: block_of_quad_def quad_of_block_def)

lemma length_block_of_quad [simp]: "length (block_of_quad q) = 16"
  by (simp add: block_of_quad_def split: prod.split)

lemma view_load_block: "view (load_block src r) (0, 1, 2, 3) = quad_of_block src"
  by (simp add: view_def load_block_def quad_of_block_def)

lemma serpent_encrypt_ref:
  "serpent_encrypt ctx src = block_of_quad (ref_encrypt (expkey ctx) (quad_of_block src))"
  unfolding view_load_block [of src "\<lambda>_. 0", symmetric] encrypt_rounds_view [symmetric]
  by (simp add: serpent_encrypt_def Let_def block_of_quad_def view_def)

lemma serpent_decrypt_ref:
  "serpent_decrypt ctx src = block_of_quad (ref_decrypt (expkey ctx) (quad_of_block src))"
  unfolding view_load_block [of src "\<lambda>_. 0", symmetric] decrypt_rounds_view [symmetric]
  by (simp add: serpent_decrypt_def Let_def block_of_quad_def view_def)

section \<open>The unrolled key schedule computes the recurrence\<close>

definition nth_step :: "nat \<Rightarrow> key_step" where
  "nth_step n = (int (if n < 8 then n else n - 8), n mod 5, (n + 4) mod 5, (n + 2) mod 5, n, int n)"

fun rebase :: "nat \<Rightarrow> key_step \<Rightarrow> key_step" where
  "rebase base (a, b, c, d, i, j) = (int base + a, b, c, d, i, int base + j)"

lemma keyiter_rebase: "keyiter base t st = keyiter 0 (rebase base t) st"
  by (cases t; cases st) (simp add: at_def)

lemma fold_keyiter_rebase: "fold (keyiter base) ts st = fold (keyiter 0) (map (rebase base) ts) st"
  by (induction ts arbitrary: st) (simp_all add: keyiter_rebase [of base])

lemma key_steps_regular:
  "key_steps_first = map nth_step [0..<32]"
  "map (rebase 50) key_steps_second = map nth_step [32..<82]"
  "map (rebase 100) key_steps_third = map nth_step [82..<132]"
  by code_simp+

lemma all_key_steps:
  "fold (keyiter 100) key_steps_third (fold (keyiter 50) key_steps_second (fold (keyiter 0) key_steps_first st))
   = fold (keyiter 0) (map nth_step [0..<132]) st"
proof -
  have "[0..<132] = [0..<32] @ [32..<82] @ [82..<132 :: nat]"
    using upt_add_eq_append [of 0 32 100] upt_add_eq_append [of 32 82 50] by simp
  then show ?thesis
    by (simp only: fold_keyiter_rebase [of 50] fold_keyiter_rebase [of 100]
       key_steps_regular map_append fold_append comp_apply)
qed

text \<open>What holds before call \<open>n\<close> of \<^verbatim>\<open>keyiter\<close>: the registers are the five latest words.\<close>

definition key_inv :: "(nat \<Rightarrow> u32) \<Rightarrow> nat \<Rightarrow> key_state \<Rightarrow> bool" where
  "key_inv key n = (\<lambda>(r, k).
     (\<forall>j<5. r ((n + j) mod 5) = prekey key (n + j + 3)) \<and>
     (\<forall>i<n. k i = prekey key (i + 8)) \<and> (\<forall>i. n \<le> i \<longrightarrow> i < 8 \<longrightarrow> k i = key i))"

lemma mod5_neq: "j < 5 \<Longrightarrow> 0 < j \<Longrightarrow> (n + j) mod 5 \<noteq> (n :: nat) mod 5"
  by presburger

lemma key_inv_step:
  assumes "key_inv key n st"
  shows "key_inv key (Suc n) (keyiter 0 (nth_step n) st)"
proof -
  obtain r k where st: "st = (r, k)" by (cases st)
  have R: "r ((n + j) mod 5) = prekey key (n + j + 3)" if "j < 5" for j
    using assms that by (simp add: key_inv_def st)
  define v where "v = rol32 (r (n mod 5) XOR r ((n + 2) mod 5) XOR r ((n + 4) mod 5) XOR
     k (if n < 8 then n else n - 8) XOR PHI XOR of_nat n) 11"
  have "k (if n < 8 then n else n - 8) = prekey key n"
    using assms by (auto simp: key_inv_def st prekey.simps [of key n])
  then have v: "v = prekey key (n + 8)"
    using R [of 0] R [of 2] R [of 4]
    by (subst prekey.simps) (simp add: v_def rol32_rotl ac_simps)
  have step: "keyiter 0 (nth_step n) st = (r(n mod 5 := v), k(n := v))"
    using mod5_neq [of 2 n] mod5_neq [of 4 n]
    by (simp add: nth_step_def st at_def v_def xor.assoc Let_def)
  have "(r(n mod 5 := v)) ((Suc n + j) mod 5) = prekey key (Suc n + j + 3)" if "j < 5" for j
  proof (cases "j = 4")
    case True
    then have "(Suc n + j) mod 5 = n mod 5" by presburger
    with True show ?thesis by (simp add: v add.commute)
  next
    case False
    with that mod5_neq [of "Suc j" n] R [of "Suc j"] show ?thesis by simp
  qed
  moreover have "(k(n := v)) i = prekey key (i + 8)" if "i < Suc n" for i
    using that assms by (auto simp: key_inv_def st v less_Suc_eq)
  ultimately show ?thesis
    using assms unfolding step by (simp add: key_inv_def st)
qed

lemma key_inv_fold: "key_inv key 0 st \<Longrightarrow> key_inv key n (fold (keyiter 0) (map nth_step [0..<n]) st)"
  by (induction n) (simp_all add: key_inv_step)

text \<open>
  The S-box stage walks the groups of four words downwards. Before the S-box of group \<open>g\<close>
  the four named registers hold its prekeys; after it they hold the subkey.
\<close>

definition group_inv :: "(nat \<Rightarrow> u32) \<Rightarrow> nat \<Rightarrow> expkey \<Rightarrow> bool" where
  "group_inv key g k \<longleftrightarrow>
     (\<forall>i<4 * g. k i = prekey key (i + 8)) \<and> (\<forall>h. g < h \<longrightarrow> h \<le> 32 \<longrightarrow> key_quad k h = ref_subkey key h)"

definition before_sbox :: "(nat \<Rightarrow> u32) \<Rightarrow> nat \<Rightarrow> nat \<times> nat \<times> nat \<times> nat \<Rightarrow> key_state \<Rightarrow> bool" where
  "before_sbox key g p = (\<lambda>(r, k). view r p = prekey_quad key g \<and> group_inv key g k)"

definition after_sbox :: "(nat \<Rightarrow> u32) \<Rightarrow> nat \<Rightarrow> nat \<times> nat \<times> nat \<times> nat \<Rightarrow> key_state \<Rightarrow> bool" where
  "after_sbox key g p = (\<lambda>(r, k). view r p = ref_subkey key g \<and> group_inv key g k)"

lemma sbox_stage:
  assumes "distinct [a, b, c, d, e]" "before_sbox key g (a, b, c, d) st"
  shows "(35 - g) mod 8 = 0 \<Longrightarrow> after_sbox key g (c, b, d, a) (apfst (call5 S0 a b c d e) st)"
    and "(35 - g) mod 8 = 1 \<Longrightarrow> after_sbox key g (e, c, d, a) (apfst (call5 S1 a b c d e) st)"
    and "(35 - g) mod 8 = 2 \<Longrightarrow> after_sbox key g (e, b, a, d) (apfst (call5 S2 a b c d e) st)"
    and "(35 - g) mod 8 = 3 \<Longrightarrow> after_sbox key g (d, e, b, a) (apfst (call5 S3 a b c d e) st)"
    and "(35 - g) mod 8 = 4 \<Longrightarrow> after_sbox key g (b, c, d, e) (apfst (call5 S4 a b c d e) st)"
    and "(35 - g) mod 8 = 5 \<Longrightarrow> after_sbox key g (e, a, b, d) (apfst (call5 S5 a b c d e) st)"
    and "(35 - g) mod 8 = 6 \<Longrightarrow> after_sbox key g (c, e, b, d) (apfst (call5 S6 a b c d e) st)"
    and "(35 - g) mod 8 = 7 \<Longrightarrow> after_sbox key g (e, c, d, a) (apfst (call5 S7 a b c d e) st)"
  using assms(2) S_views [OF assms(1)]
  by (auto simp: before_sbox_def after_sbox_def ref_subkey_def sbox_def)

lemma key_quad_upd:
  "key_quad (k(4 * g := x0, 4 * g + 1 := x1, 4 * g + 2 := x2, 4 * g + 3 := x3)) h =
     (if h = g then (x0, x1, x2, x3) else key_quad k h)"
proof (cases "h = g")
  case False
  then have "4 * h + i \<noteq> 4 * g + j" if "i < 4" "j < 4" for i j using that by presburger
  from this [of 0 0] this [of 0 1] this [of 0 2] this [of 0 3]
    this [of 1 0] this [of 1 1] this [of 1 2] this [of 1 3]
    this [of 2 0] this [of 2 1] this [of 2 2] this [of 2 3]
    this [of 3 0] this [of 3 1] this [of 3 2] this [of 3 3]
  show ?thesis using False by (simp add: key_quad_def)
qed (simp add: key_quad_def)

lemma at_group: "int base + i = 4 * int g \<Longrightarrow>
  at base i = 4 * g \<and> at base (i + 1) = 4 * g + 1 \<and> at base (i + 2) = 4 * g + 2 \<and> at base (i + 3) = 4 * g + 3"
  by (simp add: at_def) linarith

lemma storekeys_group:
  assumes "int base + i = 4 * int g"
  shows "storekeys base x0 x1 x2 x3 i (r, k) =
    (r, k(4 * g := r x0, 4 * g + 1 := r x1, 4 * g + 2 := r x2, 4 * g + 3 := r x3))"
  using at_group [OF assms] by simp

lemma group_inv_store:
  assumes "group_inv key (Suc g) k" "(x0, x1, x2, x3) = ref_subkey key (Suc g)"
  shows "group_inv key g (k(4 * Suc g := x0, 4 * Suc g + 1 := x1, 4 * Suc g + 2 := x2, 4 * Suc g + 3 := x3))"
  using assms key_quad_upd [of k "Suc g" x0 x1 x2 x3] by (auto simp: group_inv_def)

lemma store_load_eq:
  assumes "int base + s = 4 * int (Suc g)" "int base + l = 4 * int g"
  shows "store_and_load_keys base x0 x1 x2 x3 s l (r, k) =
    (let k' = k(4 * Suc g := r x0, 4 * Suc g + 1 := r x1, 4 * Suc g + 2 := r x2, 4 * Suc g + 3 := r x3)
     in (r(x0 := k' (4 * g), x1 := k' (4 * g + 1), x2 := k' (4 * g + 2), x3 := k' (4 * g + 3)), k'))"
  unfolding store_and_load_keys_def storekeys_group [OF assms(1)] loadkeys.simps
  by (simp only: at_group [OF assms(2)] Let_def)

lemma store_load_stage:
  assumes "distinct [x0, x1, x2, x3]" "int base + s = 4 * int (Suc g)" "int base + l = 4 * int g"
    and "after_sbox key (Suc g) (x0, x1, x2, x3) st"
  shows "before_sbox key g (x0, x1, x2, x3) (store_and_load_keys base x0 x1 x2 x3 s l st)"
proof -
  obtain r k where st: "st = (r, k)" by (cases st)
  define k' where "k' = k(4 * Suc g := r x0, 4 * Suc g + 1 := r x1, 4 * Suc g + 2 := r x2, 4 * Suc g + 3 := r x3)"
  have inv: "group_inv key (Suc g) k" using assms(4) by (simp add: after_sbox_def st)
  then have k': "group_inv key g k'"
    unfolding k'_def
    by (rule group_inv_store) (use assms(4) in \<open>simp add: after_sbox_def st view_def\<close>)
  have "k' (4 * g + i) = prekey key (4 * g + i + 8)" if "i < 4" for i
    using inv that by (simp add: k'_def group_inv_def)
  from this [of 0] this [of 1] this [of 2] this [of 3]
  have "before_sbox key g (x0, x1, x2, x3)
      (r(x0 := k' (4 * g), x1 := k' (4 * g + 1), x2 := k' (4 * g + 2), x3 := k' (4 * g + 3)), k')"
    using assms(1) k' by (simp add: before_sbox_def view_def prekey_quad_def add.commute)
  then show ?thesis
    unfolding st store_load_eq [OF assms(2,3)] Let_def k'_def .
qed

lemma final_store:
  assumes "int base + i = 0" "after_sbox key 0 (x0, x1, x2, x3) st" "g \<le> 32"
  shows "key_quad (snd (storekeys base x0 x1 x2 x3 i st)) g = ref_subkey key g"
proof -
  obtain r k where st: "st = (r, k)" by (cases st)
  show ?thesis
    using assms key_quad_upd [of k 0 "r x0" "r x1" "r x2" "r x3" g]
      storekeys_group [of base i 0 x0 x1 x2 x3 r k]
    by (simp add: st after_sbox_def group_inv_def view_def del: storekeys.simps)
qed

lemma setkey_sbox_correct:
  assumes st: "before_sbox key 32 (3, 4, 0, 1) st" and g: "g \<le> 32"
  shows "key_quad (snd (serpent_setkey_sbox st)) g = ref_subkey key g"
  unfolding serpent_setkey_sbox_def Let_def
  by (intro final_store store_load_stage sbox_stage g) (simp_all add: st flip: One_nat_def)

lemma serpent_setkey_ref:
  assumes "g \<le> 32"
  shows "key_quad (expkey (serpent_setkey ctx key)) g =
     ref_subkey (\<lambda>i. get_unaligned_le32 (drop (4 * i) (pad_key key))) g"
proof -
  define k where "k = load_key (pad_key key) (expkey ctx)"
  define K where "K = (\<lambda>i. get_unaligned_le32 (drop (4 * i) (pad_key key)))"
  define r :: regs where "r = (\<lambda>_. 0)(0 := k 3, 1 := k 4, 2 := k 5, 3 := k 6, 4 := k 7)"
  define st where "st = fold (keyiter 0) (map nth_step [0..<132]) (r, k)"
  have pk: "prekey K i = K i" if "i < 8" for i using that by (simp add: prekey.simps)
  have kK: "k i = K i" if "i < 8" for i using that by (simp add: k_def load_key_def K_def)
  have "r ((0 + j) mod 5) = prekey K (0 + j + 3)" if "j < 5" for j
  proof -
    have "j = 0 \<or> j = 1 \<or> j = 2 \<or> j = 3 \<or> j = 4" using that by auto
    then show ?thesis by (elim disjE) (simp_all add: r_def kK pk)
  qed
  then have "key_inv K 0 (r, k)"
    by (auto simp: key_inv_def kK)
  then have inv: "key_inv K 132 st" unfolding st_def by (rule key_inv_fold)
  obtain r' k' where st: "st = (r', k')" by (cases st)
  have "r' ((132 + j) mod 5) = prekey K (132 + j + 3)" if "j < 5" for j
    using inv that by (simp add: key_inv_def st)
  from this [of 1] this [of 2] this [of 3] this [of 4]
  have "before_sbox K 32 (3, 4, 0, 1) st"
    using inv by (simp add: before_sbox_def st view_def prekey_quad_def group_inv_def key_inv_def)
  then have "key_quad (snd (serpent_setkey_sbox st)) g = ref_subkey K g"
    using assms by (rule setkey_sbox_correct)
  moreover have "expkey (serpent_setkey ctx key) = snd (serpent_setkey_sbox st)"
    by (simp add: serpent_setkey_def Let_def all_key_steps st_def r_def k_def)
  ultimately show ?thesis by (simp add: K_def)
qed

lemma serpent_decrypt_encrypt:
  "length b = 16 \<Longrightarrow> serpent_decrypt ctx (serpent_encrypt ctx b) = b"
  by (simp add: serpent_decrypt_ref serpent_encrypt_ref block_quad)

lemma serpent_encrypt_decrypt:
  "length b = 16 \<Longrightarrow> serpent_encrypt ctx (serpent_decrypt ctx b) = b"
  by (simp add: serpent_decrypt_ref serpent_encrypt_ref block_quad)

lemma length_serpent [simp, buf_simps]:
  "length (serpent_encrypt ctx b) = 16" "length (serpent_decrypt ctx b) = 16"
  by (simp_all add: serpent_encrypt_ref serpent_decrypt_ref)

interpretation serpent: block_cipher "\<lambda>_. True" serpent_encrypt_block serpent_decrypt_block
  by unfold_locales
    (simp_all add: serpent_decrypt_block_def serpent_encrypt_block_def
      serpent_decrypt_encrypt serpent_encrypt_decrypt)

section \<open>Properties\<close>

text \<open>C9. The bitsliced straight-line code of \<^verbatim>\<open>__serpent_encrypt\<close> and \<^verbatim>\<open>__serpent_decrypt\<close>,
  with its 32 differently permuted rounds, computes the reference Serpent cipher built from
  the published S-box tables and the linear transformation, for every key schedule and every
  input.\<close>

theorem serpent_code_is_reference:
  "serpent_encrypt ctx b = block_of_quad (ref_encrypt (expkey ctx) (quad_of_block b)) \<and>
   serpent_decrypt ctx b = block_of_quad (ref_decrypt (expkey ctx) (quad_of_block b))"
  by (simp add: serpent_encrypt_ref serpent_decrypt_ref)

text \<open>C12. The key schedule of \<^verbatim>\<open>__serpent_setkey\<close>, 132 unrolled \<^verbatim>\<open>keyiter\<close> calls and 33
  S-box groups, produces in every group of four round-key words the Serpent subkey of the
  padded key: the prekey recurrence followed by the S-box number \<open>3 - g\<close> (mod 8).\<close>

theorem serpent_key_schedule_is_reference:
  assumes "g \<le> 32"
  shows "key_quad (expkey (serpent_setkey ctx key)) g =
     ref_subkey (\<lambda>i. get_unaligned_le32 (drop (4 * i) (pad_key key))) g"
  using assms by (rule serpent_setkey_ref)

theorem serpent_key_schedule_is_reference_witness:
  "key_quad (expkey (serpent_set_key_256 (replicate 32 7))) 32 =
     ref_subkey (\<lambda>i. get_unaligned_le32 (drop (4 * i) (pad_key (replicate 32 7)))) 32"
  unfolding serpent_set_key_256_def by (rule serpent_key_schedule_is_reference) simp

text \<open>C13. Decrypting a 16-byte block under any key schedule undoes encrypting it, and the other
  way round, so each is a permutation of the blocks.\<close>

theorem serpent_block_roundtrip:
  assumes "length b = 16"
  shows "serpent_decrypt_block key (serpent_encrypt_block key b) = b \<and>
         serpent_encrypt_block key (serpent_decrypt_block key b) = b"
  using assms
  by (simp add: serpent_decrypt_block_def serpent_encrypt_block_def
      serpent_decrypt_encrypt serpent_encrypt_decrypt)

theorem serpent_block_roundtrip_witness:
  "serpent_decrypt_block (serpent_set_key_256 (replicate 32 1))
     (serpent_encrypt_block (serpent_set_key_256 (replicate 32 1)) (replicate 16 5)) = replicate 16 5"
  using serpent_block_roundtrip [of "replicate 16 5" "serpent_set_key_256 (replicate 32 1)"] by simp

text \<open>C15. \<^verbatim>\<open>xts_generic_crypt\<close> with Serpent crypts every block \<open>i\<close> of the data unit on its own,
  with the encrypted tweak multiplied \<open>i\<close> times by alpha as the mask before and after, and leaves the
  bytes after \<open>length\<close> alone: the in-place loop is the XTS mode.\<close>

theorem xts_serpent_block:
  assumes "length du = 16" "16 dvd len" "len \<le> length buf" "16 * i + 16 \<le> len"
  shows "\<exists>out. xts_generic_crypt (serpent_encrypt_block k) (serpent_encrypt_block kt) du buf len = Some out \<and>
    take 16 (drop (16 * i) out) =
      xts_block (serpent_encrypt_block k)
        ((gf128_mul_by_alpha ^^ i) (serpent_encrypt_block kt du)) (take 16 (drop (16 * i) buf)) \<and>
    drop len out = drop len buf \<and> length out = length buf"
  using assms
  by (simp add: serpent.xts_enc serpent.length_xts_enc serpent.length_enc drop_take
      xts_blocks_nth [where bs = "take len buf"])

theorem xts_serpent_block_witness:
  "\<exists>out. xts_generic_crypt (serpent_encrypt_block (serpent_set_key_256 (replicate 32 1)))
     (serpent_encrypt_block (serpent_set_key_256 (replicate 32 2))) (replicate 16 0) (replicate 32 3) 32 = Some out \<and>
    length out = 32"
  using xts_serpent_block [of "replicate 16 0" 32 "replicate 32 3" 1] by auto

end
