(* ===== verification/Twofish.thy ===== *)
theory Twofish
  imports Xts
begin

text \<open>
  The Twofish block cipher of \<^verbatim>\<open>libtomcrypt/src/ciphers/twofish/twofish.c\<close>, as the build
  configures it (\<^verbatim>\<open>LTC_TWOFISH_TABLES\<close>, neither \<^verbatim>\<open>LTC_TWOFISH_SMALL\<close> nor
  \<^verbatim>\<open>LTC_TWOFISH_ALL_TABLES\<close>): the byte permutations and the MDS columns are read from the
  tables of \<^verbatim>\<open>twofish_tab.c\<close>. The variant of the same file that computes both from the
  four-bit permutations and by field multiplication is modelled too, and the tables are shown to
  hold what it computes. Further lemmas relate the key-dependent S-boxes to the function h and show
  that decryption inverts encryption.
\<close>

section \<open>The tables\<close>

text \<open>\<^verbatim>\<open>SBOX\<close>: the two byte permutations.\<close>

definition SBOX :: "u8 list list" where
  "SBOX =
    [[0xa9, 0x67, 0xb3, 0xe8, 0x04, 0xfd, 0xa3, 0x76, 0x9a, 0x92, 0x80, 0x78, 0xe4, 0xdd, 0xd1, 0x38,
      0x0d, 0xc6, 0x35, 0x98, 0x18, 0xf7, 0xec, 0x6c, 0x43, 0x75, 0x37, 0x26, 0xfa, 0x13, 0x94, 0x48,
      0xf2, 0xd0, 0x8b, 0x30, 0x84, 0x54, 0xdf, 0x23, 0x19, 0x5b, 0x3d, 0x59, 0xf3, 0xae, 0xa2, 0x82,
      0x63, 0x01, 0x83, 0x2e, 0xd9, 0x51, 0x9b, 0x7c, 0xa6, 0xeb, 0xa5, 0xbe, 0x16, 0x0c, 0xe3, 0x61,
      0xc0, 0x8c, 0x3a, 0xf5, 0x73, 0x2c, 0x25, 0x0b, 0xbb, 0x4e, 0x89, 0x6b, 0x53, 0x6a, 0xb4, 0xf1,
      0xe1, 0xe6, 0xbd, 0x45, 0xe2, 0xf4, 0xb6, 0x66, 0xcc, 0x95, 0x03, 0x56, 0xd4, 0x1c, 0x1e, 0xd7,
      0xfb, 0xc3, 0x8e, 0xb5, 0xe9, 0xcf, 0xbf, 0xba, 0xea, 0x77, 0x39, 0xaf, 0x33, 0xc9, 0x62, 0x71,
      0x81, 0x79, 0x09, 0xad, 0x24, 0xcd, 0xf9, 0xd8, 0xe5, 0xc5, 0xb9, 0x4d, 0x44, 0x08, 0x86, 0xe7,
      0xa1, 0x1d, 0xaa, 0xed, 0x06, 0x70, 0xb2, 0xd2, 0x41, 0x7b, 0xa0, 0x11, 0x31, 0xc2, 0x27, 0x90,
      0x20, 0xf6, 0x60, 0xff, 0x96, 0x5c, 0xb1, 0xab, 0x9e, 0x9c, 0x52, 0x1b, 0x5f, 0x93, 0x0a, 0xef,
      0x91, 0x85, 0x49, 0xee, 0x2d, 0x4f, 0x8f, 0x3b, 0x47, 0x87, 0x6d, 0x46, 0xd6, 0x3e, 0x69, 0x64,
      0x2a, 0xce, 0xcb, 0x2f, 0xfc, 0x97, 0x05, 0x7a, 0xac, 0x7f, 0xd5, 0x1a, 0x4b, 0x0e, 0xa7, 0x5a,
      0x28, 0x14, 0x3f, 0x29, 0x88, 0x3c, 0x4c, 0x02, 0xb8, 0xda, 0xb0, 0x17, 0x55, 0x1f, 0x8a, 0x7d,
      0x57, 0xc7, 0x8d, 0x74, 0xb7, 0xc4, 0x9f, 0x72, 0x7e, 0x15, 0x22, 0x12, 0x58, 0x07, 0x99, 0x34,
      0x6e, 0x50, 0xde, 0x68, 0x65, 0xbc, 0xdb, 0xf8, 0xc8, 0xa8, 0x2b, 0x40, 0xdc, 0xfe, 0x32, 0xa4,
      0xca, 0x10, 0x21, 0xf0, 0xd3, 0x5d, 0x0f, 0x00, 0x6f, 0x9d, 0x36, 0x42, 0x4a, 0x5e, 0xc1, 0xe0],
     [0x75, 0xf3, 0xc6, 0xf4, 0xdb, 0x7b, 0xfb, 0xc8, 0x4a, 0xd3, 0xe6, 0x6b, 0x45, 0x7d, 0xe8, 0x4b,
      0xd6, 0x32, 0xd8, 0xfd, 0x37, 0x71, 0xf1, 0xe1, 0x30, 0x0f, 0xf8, 0x1b, 0x87, 0xfa, 0x06, 0x3f,
      0x5e, 0xba, 0xae, 0x5b, 0x8a, 0x00, 0xbc, 0x9d, 0x6d, 0xc1, 0xb1, 0x0e, 0x80, 0x5d, 0xd2, 0xd5,
      0xa0, 0x84, 0x07, 0x14, 0xb5, 0x90, 0x2c, 0xa3, 0xb2, 0x73, 0x4c, 0x54, 0x92, 0x74, 0x36, 0x51,
      0x38, 0xb0, 0xbd, 0x5a, 0xfc, 0x60, 0x62, 0x96, 0x6c, 0x42, 0xf7, 0x10, 0x7c, 0x28, 0x27, 0x8c,
      0x13, 0x95, 0x9c, 0xc7, 0x24, 0x46, 0x3b, 0x70, 0xca, 0xe3, 0x85, 0xcb, 0x11, 0xd0, 0x93, 0xb8,
      0xa6, 0x83, 0x20, 0xff, 0x9f, 0x77, 0xc3, 0xcc, 0x03, 0x6f, 0x08, 0xbf, 0x40, 0xe7, 0x2b, 0xe2,
      0x79, 0x0c, 0xaa, 0x82, 0x41, 0x3a, 0xea, 0xb9, 0xe4, 0x9a, 0xa4, 0x97, 0x7e, 0xda, 0x7a, 0x17,
      0x66, 0x94, 0xa1, 0x1d, 0x3d, 0xf0, 0xde, 0xb3, 0x0b, 0x72, 0xa7, 0x1c, 0xef, 0xd1, 0x53, 0x3e,
      0x8f, 0x33, 0x26, 0x5f, 0xec, 0x76, 0x2a, 0x49, 0x81, 0x88, 0xee, 0x21, 0xc4, 0x1a, 0xeb, 0xd9,
      0xc5, 0x39, 0x99, 0xcd, 0xad, 0x31, 0x8b, 0x01, 0x18, 0x23, 0xdd, 0x1f, 0x4e, 0x2d, 0xf9, 0x48,
      0x4f, 0xf2, 0x65, 0x8e, 0x78, 0x5c, 0x58, 0x19, 0x8d, 0xe5, 0x98, 0x57, 0x67, 0x7f, 0x05, 0x64,
      0xaf, 0x63, 0xb6, 0xfe, 0xf5, 0xb7, 0x3c, 0xa5, 0xce, 0xe9, 0x68, 0x44, 0xe0, 0x4d, 0x43, 0x69,
      0x29, 0x2e, 0xac, 0x15, 0x59, 0xa8, 0x0a, 0x9e, 0x6e, 0x47, 0xdf, 0x34, 0x35, 0x6a, 0xcf, 0xdc,
      0x22, 0xc9, 0xc0, 0x9b, 0x89, 0xd4, 0xed, 0xab, 0x12, 0xa2, 0x0d, 0x52, 0xbb, 0x02, 0x2f, 0xa9,
      0xd7, 0x61, 0x1e, 0xb4, 0x50, 0x04, 0xf6, 0xc2, 0x16, 0x25, 0x86, 0x56, 0x55, 0x09, 0xbe, 0x91]]"

text \<open>\<^verbatim>\<open>mds_tab\<close>: the columns of the MDS matrix times every byte.\<close>

definition mds_tab :: "u32 list list" where
  "mds_tab =
    [[0x00000000, 0xefef5b01, 0xb7b7b602, 0x5858ed03, 0x07070504, 0xe8e85e05, 0xb0b0b306, 0x5f5fe807,
      0x0e0e0a08, 0xe1e15109, 0xb9b9bc0a, 0x5656e70b, 0x09090f0c, 0xe6e6540d, 0xbebeb90e, 0x5151e20f,
      0x1c1c1410, 0xf3f34f11, 0xababa212, 0x4444f913, 0x1b1b1114, 0xf4f44a15, 0xacaca716, 0x4343fc17,
      0x12121e18, 0xfdfd4519, 0xa5a5a81a, 0x4a4af31b, 0x15151b1c, 0xfafa401d, 0xa2a2ad1e, 0x4d4df61f,
      0x38382820, 0xd7d77321, 0x8f8f9e22, 0x6060c523, 0x3f3f2d24, 0xd0d07625, 0x88889b26, 0x6767c027,
      0x36362228, 0xd9d97929, 0x8181942a, 0x6e6ecf2b, 0x3131272c, 0xdede7c2d, 0x8686912e, 0x6969ca2f,
      0x24243c30, 0xcbcb6731, 0x93938a32, 0x7c7cd133, 0x23233934, 0xcccc6235, 0x94948f36, 0x7b7bd437,
      0x2a2a3638, 0xc5c56d39, 0x9d9d803a, 0x7272db3b, 0x2d2d333c, 0xc2c2683d, 0x9a9a853e, 0x7575de3f,
      0x70705040, 0x9f9f0b41, 0xc7c7e642, 0x2828bd43, 0x77775544, 0x98980e45, 0xc0c0e346, 0x2f2fb847,
      0x7e7e5a48, 0x91910149, 0xc9c9ec4a, 0x2626b74b, 0x79795f4c, 0x9696044d, 0xcecee94e, 0x2121b24f,
      0x6c6c4450, 0x83831f51, 0xdbdbf252, 0x3434a953, 0x6b6b4154, 0x84841a55, 0xdcdcf756, 0x3333ac57,
      0x62624e58, 0x8d8d1559, 0xd5d5f85a, 0x3a3aa35b, 0x65654b5c, 0x8a8a105d, 0xd2d2fd5e, 0x3d3da65f,
      0x48487860, 0xa7a72361, 0xffffce62, 0x10109563, 0x4f4f7d64, 0xa0a02665, 0xf8f8cb66, 0x17179067,
      0x46467268, 0xa9a92969, 0xf1f1c46a, 0x1e1e9f6b, 0x4141776c, 0xaeae2c6d, 0xf6f6c16e, 0x19199a6f,
      0x54546c70, 0xbbbb3771, 0xe3e3da72, 0x0c0c8173, 0x53536974, 0xbcbc3275, 0xe4e4df76, 0x0b0b8477,
      0x5a5a6678, 0xb5b53d79, 0xededd07a, 0x02028b7b, 0x5d5d637c, 0xb2b2387d, 0xeaead57e, 0x05058e7f,
      0xe0e0a080, 0x0f0ffb81, 0x57571682, 0xb8b84d83, 0xe7e7a584, 0x0808fe85, 0x50501386, 0xbfbf4887,
      0xeeeeaa88, 0x0101f189, 0x59591c8a, 0xb6b6478b, 0xe9e9af8c, 0x0606f48d, 0x5e5e198e, 0xb1b1428f,
      0xfcfcb490, 0x1313ef91, 0x4b4b0292, 0xa4a45993, 0xfbfbb194, 0x1414ea95, 0x4c4c0796, 0xa3a35c97,
      0xf2f2be98, 0x1d1de599, 0x4545089a, 0xaaaa539b, 0xf5f5bb9c, 0x1a1ae09d, 0x42420d9e, 0xadad569f,
      0xd8d888a0, 0x3737d3a1, 0x6f6f3ea2, 0x808065a3, 0xdfdf8da4, 0x3030d6a5, 0x68683ba6, 0x878760a7,
      0xd6d682a8, 0x3939d9a9, 0x616134aa, 0x8e8e6fab, 0xd1d187ac, 0x3e3edcad, 0x666631ae, 0x89896aaf,
      0xc4c49cb0, 0x2b2bc7b1, 0x73732ab2, 0x9c9c71b3, 0xc3c399b4, 0x2c2cc2b5, 0x74742fb6, 0x9b9b74b7,
      0xcaca96b8, 0x2525cdb9, 0x7d7d20ba, 0x92927bbb, 0xcdcd93bc, 0x2222c8bd, 0x7a7a25be, 0x95957ebf,
      0x9090f0c0, 0x7f7fabc1, 0x272746c2, 0xc8c81dc3, 0x9797f5c4, 0x7878aec5, 0x202043c6, 0xcfcf18c7,
      0x9e9efac8, 0x7171a1c9, 0x29294cca, 0xc6c617cb, 0x9999ffcc, 0x7676a4cd, 0x2e2e49ce, 0xc1c112cf,
      0x8c8ce4d0, 0x6363bfd1, 0x3b3b52d2, 0xd4d409d3, 0x8b8be1d4, 0x6464bad5, 0x3c3c57d6, 0xd3d30cd7,
      0x8282eed8, 0x6d6db5d9, 0x353558da, 0xdada03db, 0x8585ebdc, 0x6a6ab0dd, 0x32325dde, 0xdddd06df,
      0xa8a8d8e0, 0x474783e1, 0x1f1f6ee2, 0xf0f035e3, 0xafafdde4, 0x404086e5, 0x18186be6, 0xf7f730e7,
      0xa6a6d2e8, 0x494989e9, 0x111164ea, 0xfefe3feb, 0xa1a1d7ec, 0x4e4e8ced, 0x161661ee, 0xf9f93aef,
      0xb4b4ccf0, 0x5b5b97f1, 0x03037af2, 0xecec21f3, 0xb3b3c9f4, 0x5c5c92f5, 0x04047ff6, 0xebeb24f7,
      0xbabac6f8, 0x55559df9, 0x0d0d70fa, 0xe2e22bfb, 0xbdbdc3fc, 0x525298fd, 0x0a0a75fe, 0xe5e52eff],
     [0x00000000, 0x015befef, 0x02b6b7b7, 0x03ed5858, 0x04050707, 0x055ee8e8, 0x06b3b0b0, 0x07e85f5f,
      0x080a0e0e, 0x0951e1e1, 0x0abcb9b9, 0x0be75656, 0x0c0f0909, 0x0d54e6e6, 0x0eb9bebe, 0x0fe25151,
      0x10141c1c, 0x114ff3f3, 0x12a2abab, 0x13f94444, 0x14111b1b, 0x154af4f4, 0x16a7acac, 0x17fc4343,
      0x181e1212, 0x1945fdfd, 0x1aa8a5a5, 0x1bf34a4a, 0x1c1b1515, 0x1d40fafa, 0x1eada2a2, 0x1ff64d4d,
      0x20283838, 0x2173d7d7, 0x229e8f8f, 0x23c56060, 0x242d3f3f, 0x2576d0d0, 0x269b8888, 0x27c06767,
      0x28223636, 0x2979d9d9, 0x2a948181, 0x2bcf6e6e, 0x2c273131, 0x2d7cdede, 0x2e918686, 0x2fca6969,
      0x303c2424, 0x3167cbcb, 0x328a9393, 0x33d17c7c, 0x34392323, 0x3562cccc, 0x368f9494, 0x37d47b7b,
      0x38362a2a, 0x396dc5c5, 0x3a809d9d, 0x3bdb7272, 0x3c332d2d, 0x3d68c2c2, 0x3e859a9a, 0x3fde7575,
      0x40507070, 0x410b9f9f, 0x42e6c7c7, 0x43bd2828, 0x44557777, 0x450e9898, 0x46e3c0c0, 0x47b82f2f,
      0x485a7e7e, 0x49019191, 0x4aecc9c9, 0x4bb72626, 0x4c5f7979, 0x4d049696, 0x4ee9cece, 0x4fb22121,
      0x50446c6c, 0x511f8383, 0x52f2dbdb, 0x53a93434, 0x54416b6b, 0x551a8484, 0x56f7dcdc, 0x57ac3333,
      0x584e6262, 0x59158d8d, 0x5af8d5d5, 0x5ba33a3a, 0x5c4b6565, 0x5d108a8a, 0x5efdd2d2, 0x5fa63d3d,
      0x60784848, 0x6123a7a7, 0x62ceffff, 0x63951010, 0x647d4f4f, 0x6526a0a0, 0x66cbf8f8, 0x67901717,
      0x68724646, 0x6929a9a9, 0x6ac4f1f1, 0x6b9f1e1e, 0x6c774141, 0x6d2caeae, 0x6ec1f6f6, 0x6f9a1919,
      0x706c5454, 0x7137bbbb, 0x72dae3e3, 0x73810c0c, 0x74695353, 0x7532bcbc, 0x76dfe4e4, 0x77840b0b,
      0x78665a5a, 0x793db5b5, 0x7ad0eded, 0x7b8b0202, 0x7c635d5d, 0x7d38b2b2, 0x7ed5eaea, 0x7f8e0505,
      0x80a0e0e0, 0x81fb0f0f, 0x82165757, 0x834db8b8, 0x84a5e7e7, 0x85fe0808, 0x86135050, 0x8748bfbf,
      0x88aaeeee, 0x89f10101, 0x8a1c5959, 0x8b47b6b6, 0x8cafe9e9, 0x8df40606, 0x8e195e5e, 0x8f42b1b1,
      0x90b4fcfc, 0x91ef1313, 0x92024b4b, 0x9359a4a4, 0x94b1fbfb, 0x95ea1414, 0x96074c4c, 0x975ca3a3,
      0x98bef2f2, 0x99e51d1d, 0x9a084545, 0x9b53aaaa, 0x9cbbf5f5, 0x9de01a1a, 0x9e0d4242, 0x9f56adad,
      0xa088d8d8, 0xa1d33737, 0xa23e6f6f, 0xa3658080, 0xa48ddfdf, 0xa5d63030, 0xa63b6868, 0xa7608787,
      0xa882d6d6, 0xa9d93939, 0xaa346161, 0xab6f8e8e, 0xac87d1d1, 0xaddc3e3e, 0xae316666, 0xaf6a8989,
      0xb09cc4c4, 0xb1c72b2b, 0xb22a7373, 0xb3719c9c, 0xb499c3c3, 0xb5c22c2c, 0xb62f7474, 0xb7749b9b,
      0xb896caca, 0xb9cd2525, 0xba207d7d, 0xbb7b9292, 0xbc93cdcd, 0xbdc82222, 0xbe257a7a, 0xbf7e9595,
      0xc0f09090, 0xc1ab7f7f, 0xc2462727, 0xc31dc8c8, 0xc4f59797, 0xc5ae7878, 0xc6432020, 0xc718cfcf,
      0xc8fa9e9e, 0xc9a17171, 0xca4c2929, 0xcb17c6c6, 0xccff9999, 0xcda47676, 0xce492e2e, 0xcf12c1c1,
      0xd0e48c8c, 0xd1bf6363, 0xd2523b3b, 0xd309d4d4, 0xd4e18b8b, 0xd5ba6464, 0xd6573c3c, 0xd70cd3d3,
      0xd8ee8282, 0xd9b56d6d, 0xda583535, 0xdb03dada, 0xdceb8585, 0xddb06a6a, 0xde5d3232, 0xdf06dddd,
      0xe0d8a8a8, 0xe1834747, 0xe26e1f1f, 0xe335f0f0, 0xe4ddafaf, 0xe5864040, 0xe66b1818, 0xe730f7f7,
      0xe8d2a6a6, 0xe9894949, 0xea641111, 0xeb3ffefe, 0xecd7a1a1, 0xed8c4e4e, 0xee611616, 0xef3af9f9,
      0xf0ccb4b4, 0xf1975b5b, 0xf27a0303, 0xf321ecec, 0xf4c9b3b3, 0xf5925c5c, 0xf67f0404, 0xf724ebeb,
      0xf8c6baba, 0xf99d5555, 0xfa700d0d, 0xfb2be2e2, 0xfcc3bdbd, 0xfd985252, 0xfe750a0a, 0xff2ee5e5],
     [0x00000000, 0xef01ef5b, 0xb702b7b6, 0x580358ed, 0x07040705, 0xe805e85e, 0xb006b0b3, 0x5f075fe8,
      0x0e080e0a, 0xe109e151, 0xb90ab9bc, 0x560b56e7, 0x090c090f, 0xe60de654, 0xbe0ebeb9, 0x510f51e2,
      0x1c101c14, 0xf311f34f, 0xab12aba2, 0x441344f9, 0x1b141b11, 0xf415f44a, 0xac16aca7, 0x431743fc,
      0x1218121e, 0xfd19fd45, 0xa51aa5a8, 0x4a1b4af3, 0x151c151b, 0xfa1dfa40, 0xa21ea2ad, 0x4d1f4df6,
      0x38203828, 0xd721d773, 0x8f228f9e, 0x602360c5, 0x3f243f2d, 0xd025d076, 0x8826889b, 0x672767c0,
      0x36283622, 0xd929d979, 0x812a8194, 0x6e2b6ecf, 0x312c3127, 0xde2dde7c, 0x862e8691, 0x692f69ca,
      0x2430243c, 0xcb31cb67, 0x9332938a, 0x7c337cd1, 0x23342339, 0xcc35cc62, 0x9436948f, 0x7b377bd4,
      0x2a382a36, 0xc539c56d, 0x9d3a9d80, 0x723b72db, 0x2d3c2d33, 0xc23dc268, 0x9a3e9a85, 0x753f75de,
      0x70407050, 0x9f419f0b, 0xc742c7e6, 0x284328bd, 0x77447755, 0x9845980e, 0xc046c0e3, 0x2f472fb8,
      0x7e487e5a, 0x91499101, 0xc94ac9ec, 0x264b26b7, 0x794c795f, 0x964d9604, 0xce4ecee9, 0x214f21b2,
      0x6c506c44, 0x8351831f, 0xdb52dbf2, 0x345334a9, 0x6b546b41, 0x8455841a, 0xdc56dcf7, 0x335733ac,
      0x6258624e, 0x8d598d15, 0xd55ad5f8, 0x3a5b3aa3, 0x655c654b, 0x8a5d8a10, 0xd25ed2fd, 0x3d5f3da6,
      0x48604878, 0xa761a723, 0xff62ffce, 0x10631095, 0x4f644f7d, 0xa065a026, 0xf866f8cb, 0x17671790,
      0x46684672, 0xa969a929, 0xf16af1c4, 0x1e6b1e9f, 0x416c4177, 0xae6dae2c, 0xf66ef6c1, 0x196f199a,
      0x5470546c, 0xbb71bb37, 0xe372e3da, 0x0c730c81, 0x53745369, 0xbc75bc32, 0xe476e4df, 0x0b770b84,
      0x5a785a66, 0xb579b53d, 0xed7aedd0, 0x027b028b, 0x5d7c5d63, 0xb27db238, 0xea7eead5, 0x057f058e,
      0xe080e0a0, 0x0f810ffb, 0x57825716, 0xb883b84d, 0xe784e7a5, 0x088508fe, 0x50865013, 0xbf87bf48,
      0xee88eeaa, 0x018901f1, 0x598a591c, 0xb68bb647, 0xe98ce9af, 0x068d06f4, 0x5e8e5e19, 0xb18fb142,
      0xfc90fcb4, 0x139113ef, 0x4b924b02, 0xa493a459, 0xfb94fbb1, 0x149514ea, 0x4c964c07, 0xa397a35c,
      0xf298f2be, 0x1d991de5, 0x459a4508, 0xaa9baa53, 0xf59cf5bb, 0x1a9d1ae0, 0x429e420d, 0xad9fad56,
      0xd8a0d888, 0x37a137d3, 0x6fa26f3e, 0x80a38065, 0xdfa4df8d, 0x30a530d6, 0x68a6683b, 0x87a78760,
      0xd6a8d682, 0x39a939d9, 0x61aa6134, 0x8eab8e6f, 0xd1acd187, 0x3ead3edc, 0x66ae6631, 0x89af896a,
      0xc4b0c49c, 0x2bb12bc7, 0x73b2732a, 0x9cb39c71, 0xc3b4c399, 0x2cb52cc2, 0x74b6742f, 0x9bb79b74,
      0xcab8ca96, 0x25b925cd, 0x7dba7d20, 0x92bb927b, 0xcdbccd93, 0x22bd22c8, 0x7abe7a25, 0x95bf957e,
      0x90c090f0, 0x7fc17fab, 0x27c22746, 0xc8c3c81d, 0x97c497f5, 0x78c578ae, 0x20c62043, 0xcfc7cf18,
      0x9ec89efa, 0x71c971a1, 0x29ca294c, 0xc6cbc617, 0x99cc99ff, 0x76cd76a4, 0x2ece2e49, 0xc1cfc112,
      0x8cd08ce4, 0x63d163bf, 0x3bd23b52, 0xd4d3d409, 0x8bd48be1, 0x64d564ba, 0x3cd63c57, 0xd3d7d30c,
      0x82d882ee, 0x6dd96db5, 0x35da3558, 0xdadbda03, 0x85dc85eb, 0x6add6ab0, 0x32de325d, 0xdddfdd06,
      0xa8e0a8d8, 0x47e14783, 0x1fe21f6e, 0xf0e3f035, 0xafe4afdd, 0x40e54086, 0x18e6186b, 0xf7e7f730,
      0xa6e8a6d2, 0x49e94989, 0x11ea1164, 0xfeebfe3f, 0xa1eca1d7, 0x4eed4e8c, 0x16ee1661, 0xf9eff93a,
      0xb4f0b4cc, 0x5bf15b97, 0x03f2037a, 0xecf3ec21, 0xb3f4b3c9, 0x5cf55c92, 0x04f6047f, 0xebf7eb24,
      0xbaf8bac6, 0x55f9559d, 0x0dfa0d70, 0xe2fbe22b, 0xbdfcbdc3, 0x52fd5298, 0x0afe0a75, 0xe5ffe52e],
     [0x00000000, 0x5bef015b, 0xb6b702b6, 0xed5803ed, 0x05070405, 0x5ee8055e, 0xb3b006b3, 0xe85f07e8,
      0x0a0e080a, 0x51e10951, 0xbcb90abc, 0xe7560be7, 0x0f090c0f, 0x54e60d54, 0xb9be0eb9, 0xe2510fe2,
      0x141c1014, 0x4ff3114f, 0xa2ab12a2, 0xf94413f9, 0x111b1411, 0x4af4154a, 0xa7ac16a7, 0xfc4317fc,
      0x1e12181e, 0x45fd1945, 0xa8a51aa8, 0xf34a1bf3, 0x1b151c1b, 0x40fa1d40, 0xada21ead, 0xf64d1ff6,
      0x28382028, 0x73d72173, 0x9e8f229e, 0xc56023c5, 0x2d3f242d, 0x76d02576, 0x9b88269b, 0xc06727c0,
      0x22362822, 0x79d92979, 0x94812a94, 0xcf6e2bcf, 0x27312c27, 0x7cde2d7c, 0x91862e91, 0xca692fca,
      0x3c24303c, 0x67cb3167, 0x8a93328a, 0xd17c33d1, 0x39233439, 0x62cc3562, 0x8f94368f, 0xd47b37d4,
      0x362a3836, 0x6dc5396d, 0x809d3a80, 0xdb723bdb, 0x332d3c33, 0x68c23d68, 0x859a3e85, 0xde753fde,
      0x50704050, 0x0b9f410b, 0xe6c742e6, 0xbd2843bd, 0x55774455, 0x0e98450e, 0xe3c046e3, 0xb82f47b8,
      0x5a7e485a, 0x01914901, 0xecc94aec, 0xb7264bb7, 0x5f794c5f, 0x04964d04, 0xe9ce4ee9, 0xb2214fb2,
      0x446c5044, 0x1f83511f, 0xf2db52f2, 0xa93453a9, 0x416b5441, 0x1a84551a, 0xf7dc56f7, 0xac3357ac,
      0x4e62584e, 0x158d5915, 0xf8d55af8, 0xa33a5ba3, 0x4b655c4b, 0x108a5d10, 0xfdd25efd, 0xa63d5fa6,
      0x78486078, 0x23a76123, 0xceff62ce, 0x95106395, 0x7d4f647d, 0x26a06526, 0xcbf866cb, 0x90176790,
      0x72466872, 0x29a96929, 0xc4f16ac4, 0x9f1e6b9f, 0x77416c77, 0x2cae6d2c, 0xc1f66ec1, 0x9a196f9a,
      0x6c54706c, 0x37bb7137, 0xdae372da, 0x810c7381, 0x69537469, 0x32bc7532, 0xdfe476df, 0x840b7784,
      0x665a7866, 0x3db5793d, 0xd0ed7ad0, 0x8b027b8b, 0x635d7c63, 0x38b27d38, 0xd5ea7ed5, 0x8e057f8e,
      0xa0e080a0, 0xfb0f81fb, 0x16578216, 0x4db8834d, 0xa5e784a5, 0xfe0885fe, 0x13508613, 0x48bf8748,
      0xaaee88aa, 0xf10189f1, 0x1c598a1c, 0x47b68b47, 0xafe98caf, 0xf4068df4, 0x195e8e19, 0x42b18f42,
      0xb4fc90b4, 0xef1391ef, 0x024b9202, 0x59a49359, 0xb1fb94b1, 0xea1495ea, 0x074c9607, 0x5ca3975c,
      0xbef298be, 0xe51d99e5, 0x08459a08, 0x53aa9b53, 0xbbf59cbb, 0xe01a9de0, 0x0d429e0d, 0x56ad9f56,
      0x88d8a088, 0xd337a1d3, 0x3e6fa23e, 0x6580a365, 0x8ddfa48d, 0xd630a5d6, 0x3b68a63b, 0x6087a760,
      0x82d6a882, 0xd939a9d9, 0x3461aa34, 0x6f8eab6f, 0x87d1ac87, 0xdc3eaddc, 0x3166ae31, 0x6a89af6a,
      0x9cc4b09c, 0xc72bb1c7, 0x2a73b22a, 0x719cb371, 0x99c3b499, 0xc22cb5c2, 0x2f74b62f, 0x749bb774,
      0x96cab896, 0xcd25b9cd, 0x207dba20, 0x7b92bb7b, 0x93cdbc93, 0xc822bdc8, 0x257abe25, 0x7e95bf7e,
      0xf090c0f0, 0xab7fc1ab, 0x4627c246, 0x1dc8c31d, 0xf597c4f5, 0xae78c5ae, 0x4320c643, 0x18cfc718,
      0xfa9ec8fa, 0xa171c9a1, 0x4c29ca4c, 0x17c6cb17, 0xff99ccff, 0xa476cda4, 0x492ece49, 0x12c1cf12,
      0xe48cd0e4, 0xbf63d1bf, 0x523bd252, 0x09d4d309, 0xe18bd4e1, 0xba64d5ba, 0x573cd657, 0x0cd3d70c,
      0xee82d8ee, 0xb56dd9b5, 0x5835da58, 0x03dadb03, 0xeb85dceb, 0xb06addb0, 0x5d32de5d, 0x06dddf06,
      0xd8a8e0d8, 0x8347e183, 0x6e1fe26e, 0x35f0e335, 0xddafe4dd, 0x8640e586, 0x6b18e66b, 0x30f7e730,
      0xd2a6e8d2, 0x8949e989, 0x6411ea64, 0x3ffeeb3f, 0xd7a1ecd7, 0x8c4eed8c, 0x6116ee61, 0x3af9ef3a,
      0xccb4f0cc, 0x975bf197, 0x7a03f27a, 0x21ecf321, 0xc9b3f4c9, 0x925cf592, 0x7f04f67f, 0x24ebf724,
      0xc6baf8c6, 0x9d55f99d, 0x700dfa70, 0x2be2fb2b, 0xc3bdfcc3, 0x9852fd98, 0x750afe75, 0x2ee5ff2e]]"

text \<open>\<^verbatim>\<open>RS\<close>: the matrix of the Reed-Solomon code.\<close>

definition RS :: "u8 list list" where
  "RS =
    [[0x01, 0xa4, 0x55, 0x87, 0x5a, 0x58, 0xdb, 0x9e],
     [0xa4, 0x56, 0x82, 0xf3, 0x1e, 0xc6, 0x68, 0xe5],
     [0x02, 0xa1, 0xfc, 0xc1, 0x47, 0xae, 0x3d, 0x19],
     [0xa4, 0x55, 0x87, 0x5a, 0x58, 0xdb, 0x9e, 0x03]]"

section \<open>The code\<close>

definition MDS_POLY :: u32 where "MDS_POLY = 0x169"
definition RS_POLY :: u32 where "RS_POLY = 0x14D"

text \<open>\<^verbatim>\<open>ROLc\<close>, \<^verbatim>\<open>RORc\<close> and \<^verbatim>\<open>byte\<close> of \<^verbatim>\<open>tomcrypt_macros.h\<close>.\<close>

definition ROLc :: "u32 \<Rightarrow> nat \<Rightarrow> u32" where
  "ROLc x y = push_bit (y mod 32) x OR drop_bit ((32 - y mod 32) mod 32) x"

definition RORc :: "u32 \<Rightarrow> nat \<Rightarrow> u32" where
  "RORc x y = drop_bit (y mod 32) x OR push_bit ((32 - y mod 32) mod 32) x"

definition byte :: "u32 \<Rightarrow> nat \<Rightarrow> u8" where
  "byte x n = ucast (drop_bit (8 * n) x)"

definition sbox :: "nat \<Rightarrow> u32 \<Rightarrow> u32" where
  "sbox i x = ucast (SBOX ! i ! unat (x AND 255))"

definition mds_column_mult :: "u32 \<Rightarrow> nat \<Rightarrow> u32" where
  "mds_column_mult x i = mds_tab ! i ! unat x"

text \<open>One step of the unrolled multiplier: \<^verbatim>\<open>result ^= B[a&1]; a >>= 1; B[1] = P[B[1]>>7] ^ (B[1] << 1)\<close>,
  with \<^verbatim>\<open>B[0] = P[0] = 0\<close>. An index of \<^verbatim>\<open>P\<close> beyond 1 would be outside the array; the lemma
  \<open>gf_step_index\<close> shows that bytes and the two polynomials never reach one.\<close>

definition gf_double :: "u32 \<Rightarrow> u32 \<Rightarrow> u32" where
  "gf_double p b1 = (if drop_bit 7 b1 = 0 then 0 else p) XOR push_bit 1 b1"

definition gf_step :: "u32 \<Rightarrow> u32 \<times> u32 \<times> u32 \<Rightarrow> u32 \<times> u32 \<times> u32" where
  "gf_step p = (\<lambda>(result, a, b1).
     (result XOR (if a AND 1 = 0 then 0 else b1), drop_bit 1 a, gf_double p b1))"

definition gf_mult :: "u32 \<Rightarrow> u32 \<Rightarrow> u32 \<Rightarrow> u32" where
  "gf_mult a b p =
     (let s = (0, a, b);
          s = gf_step p s; s = gf_step p s; s = gf_step p s; s = gf_step p s;
          s = gf_step p s; s = gf_step p s; s = gf_step p s;
          (result, a, b1) = s
      in result XOR (if a AND 1 = 0 then 0 else b1))"

definition mds_mult :: "bytes \<Rightarrow> bytes" where
  "mds_mult inp =
     put_unaligned_le32 (fold (\<lambda>x tmp. tmp XOR mds_column_mult (ucast (inp ! x)) x) [0..<4] 0)"

definition rs_mult :: "bytes \<Rightarrow> bytes" where
  "rs_mult inp =
     map (\<lambda>x. fold (\<lambda>y out. out XOR ucast (gf_mult (ucast (inp ! y)) (ucast (RS ! x ! y)) RS_POLY)) [0..<8] 0)
       [0..<4]"

text \<open>The switch of \<^verbatim>\<open>h_func\<close> falls through from \<^verbatim>\<open>case 4\<close> to \<^verbatim>\<open>case 2\<close>; \<open>M\<close> is the key as
  bytes.\<close>

definition h_func :: "bytes \<Rightarrow> bytes \<Rightarrow> nat \<Rightarrow> nat \<Rightarrow> bytes" where
  "h_func inp M k offset =
     (let m = (\<lambda>w j. ucast (M ! (4 * (w + offset) + j)) :: u32);
          c = (\<lambda>x. ucast (x :: u32) :: u8);
          y = take 4 inp;
          y = (if k = 4 then
                 [c (sbox 1 (ucast (y ! 0)) XOR m 6 0), c (sbox 0 (ucast (y ! 1)) XOR m 6 1),
                  c (sbox 0 (ucast (y ! 2)) XOR m 6 2), c (sbox 1 (ucast (y ! 3)) XOR m 6 3)]
               else y);
          y = (if k = 4 \<or> k = 3 then
                 [c (sbox 1 (ucast (y ! 0)) XOR m 4 0), c (sbox 1 (ucast (y ! 1)) XOR m 4 1),
                  c (sbox 0 (ucast (y ! 2)) XOR m 4 2), c (sbox 0 (ucast (y ! 3)) XOR m 4 3)]
               else y);
          y = (if k = 4 \<or> k = 3 \<or> k = 2 then
                 [c (sbox 1 (sbox 0 (sbox 0 (ucast (y ! 0)) XOR m 2 0) XOR m 0 0)),
                  c (sbox 0 (sbox 0 (sbox 1 (ucast (y ! 1)) XOR m 2 1) XOR m 0 1)),
                  c (sbox 1 (sbox 1 (sbox 0 (ucast (y ! 2)) XOR m 2 2) XOR m 0 2)),
                  c (sbox 0 (sbox 1 (sbox 1 (ucast (y ! 3)) XOR m 2 3) XOR m 0 3))]
               else y)
      in mds_mult y)"

text \<open>\<^verbatim>\<open>struct twofish_key\<close>.\<close>

record twofish_key =
  S :: "u32 list list"
  K :: "u32 list"

definition g_func :: "u32 \<Rightarrow> twofish_key \<Rightarrow> u32" where
  "g_func x skey = S skey ! 0 ! unat (byte x 0) XOR S skey ! 1 ! unat (byte x 1)
     XOR S skey ! 2 ! unat (byte x 2) XOR S skey ! 3 ! unat (byte x 3)"

definition g1_func :: "u32 \<Rightarrow> twofish_key \<Rightarrow> u32" where
  "g1_func x skey = S skey ! 1 ! unat (byte x 0) XOR S skey ! 2 ! unat (byte x 1)
     XOR S skey ! 3 ! unat (byte x 2) XOR S skey ! 0 ! unat (byte x 3)"

text \<open>The pair of subkeys made in turn \<open>x\<close> of the subkey loop of \<^verbatim>\<open>twofish_setup\<close>.\<close>

definition subkeys :: "bytes \<Rightarrow> nat \<Rightarrow> nat \<Rightarrow> u32 list" where
  "subkeys M k x =
     (let A = get_unaligned_le32 (h_func (replicate 4 (of_nat (x + x))) M k 0);
          B = get_unaligned_le32 (h_func (replicate 4 (of_nat (x + x + 1))) M k 1);
          B = ROLc B 8
      in [A + B, ROLc (B + B + A) 9])"

text \<open>Row \<open>x\<close> of the four key-dependent S-boxes; \<open>s\<close> is the local array \<^verbatim>\<open>S[16]\<close> of RS words.\<close>

definition keyed_sboxes :: "bytes \<Rightarrow> nat \<Rightarrow> nat \<Rightarrow> u32 list" where
  "keyed_sboxes s k x =
     (let q = (\<lambda>j. ucast (s ! j) :: u32);
          tmpx0 = ucast (ucast (sbox 0 (of_nat x)) :: u8);
          tmpx1 = ucast (ucast (sbox 1 (of_nat x)) :: u8)
      in if k = 2 then
           [mds_column_mult (sbox 1 (sbox 0 (tmpx0 XOR q 0) XOR q 4)) 0,
            mds_column_mult (sbox 0 (sbox 0 (tmpx1 XOR q 1) XOR q 5)) 1,
            mds_column_mult (sbox 1 (sbox 1 (tmpx0 XOR q 2) XOR q 6)) 2,
            mds_column_mult (sbox 0 (sbox 1 (tmpx1 XOR q 3) XOR q 7)) 3]
         else if k = 3 then
           [mds_column_mult (sbox 1 (sbox 0 (sbox 0 (tmpx1 XOR q 0) XOR q 4) XOR q 8)) 0,
            mds_column_mult (sbox 0 (sbox 0 (sbox 1 (tmpx1 XOR q 1) XOR q 5) XOR q 9)) 1,
            mds_column_mult (sbox 1 (sbox 1 (sbox 0 (tmpx0 XOR q 2) XOR q 6) XOR q 10)) 2,
            mds_column_mult (sbox 0 (sbox 1 (sbox 1 (tmpx0 XOR q 3) XOR q 7) XOR q 11)) 3]
         else
           [mds_column_mult (sbox 1 (sbox 0 (sbox 0 (sbox 1 (tmpx1 XOR q 0) XOR q 4) XOR q 8) XOR q 12)) 0,
            mds_column_mult (sbox 0 (sbox 0 (sbox 1 (sbox 1 (tmpx0 XOR q 1) XOR q 5) XOR q 9) XOR q 13)) 1,
            mds_column_mult (sbox 1 (sbox 1 (sbox 0 (sbox 0 (tmpx0 XOR q 2) XOR q 6) XOR q 10) XOR q 14)) 2,
            mds_column_mult (sbox 0 (sbox 1 (sbox 1 (sbox 0 (tmpx1 XOR q 3) XOR q 7) XOR q 11) XOR q 15)) 3])"

datatype crypt_error = CRYPT_INVALID_ROUNDS | CRYPT_INVALID_KEYSIZE

text \<open>The RS words of the key, in the order of the local array \<^verbatim>\<open>S\<close>.\<close>

definition rs_words :: "bytes \<Rightarrow> nat \<Rightarrow> bytes" where
  "rs_words M k = concat (map (\<lambda>x. rs_mult (drop (x * 8) M)) [0..<k])"

definition twofish_setup :: "bytes \<Rightarrow> int \<Rightarrow> int \<Rightarrow> crypt_error + twofish_key" where
  "twofish_setup key keylen num_rounds =
     (if num_rounds \<noteq> 16 \<and> num_rounds \<noteq> 0 then Inl CRYPT_INVALID_ROUNDS
      else if keylen \<noteq> 16 \<and> keylen \<noteq> 24 \<and> keylen \<noteq> 32 then Inl CRYPT_INVALID_KEYSIZE
      else
        let k = nat (keylen div 8);
            M = take (nat keylen) key;
            s = rs_words M k
        in Inr \<lparr>S = map (\<lambda>i. map (\<lambda>x. keyed_sboxes s k x ! i) [0..<256]) [0..<4],
                K = concat (map (subkeys M k) [0..<20])\<rparr>)"

text \<open>One turn of the encryption loop works on the subkeys \<^verbatim>\<open>k[0..3]\<close>; the pointer \<^verbatim>\<open>k\<close> is an
  index into \<^verbatim>\<open>K\<close>.\<close>

type_synonym quad = "u32 \<times> u32 \<times> u32 \<times> u32"

definition enc_round :: "twofish_key \<Rightarrow> nat \<Rightarrow> quad \<Rightarrow> quad" where
  "enc_round skey k = (\<lambda>(a, b, c, d).
     let t2 = g1_func b skey; t1 = g_func a skey + t2;
         c = RORc (c XOR (t1 + K skey ! k)) 1;
         d = ROLc d 1 XOR (t2 + t1 + K skey ! (k + 1));
         t2 = g1_func d skey; t1 = g_func c skey + t2;
         a = RORc (a XOR (t1 + K skey ! (k + 2))) 1;
         b = ROLc b 1 XOR (t2 + t1 + K skey ! (k + 3))
     in (a, b, c, d))"

definition dec_round :: "twofish_key \<Rightarrow> nat \<Rightarrow> quad \<Rightarrow> quad" where
  "dec_round skey k = (\<lambda>(a, b, c, d).
     let t2 = g1_func d skey; t1 = g_func c skey + t2;
         a = ROLc a 1 XOR (t1 + K skey ! (k + 2));
         b = RORc (b XOR (t2 + t1 + K skey ! (k + 3))) 1;
         t2 = g1_func b skey; t1 = g_func a skey + t2;
         c = ROLc c 1 XOR (t1 + K skey ! k);
         d = RORc (d XOR (t2 + t1 + K skey ! (k + 1))) 1
     in (a, b, c, d))"

fun enc_loop :: "twofish_key \<Rightarrow> nat \<Rightarrow> nat \<Rightarrow> quad \<Rightarrow> quad" where
  "enc_loop skey 0 k q = q"
| "enc_loop skey (Suc r) k q = enc_loop skey r (k + 4) (enc_round skey k q)"

fun dec_loop :: "twofish_key \<Rightarrow> nat \<Rightarrow> nat \<Rightarrow> quad \<Rightarrow> quad" where
  "dec_loop skey 0 k q = q"
| "dec_loop skey (Suc r) k q = dec_loop skey r (k - 4) (dec_round skey k q)"

definition load_quad :: "bytes \<Rightarrow> quad" where
  "load_quad b = (get_unaligned_le32 b, get_unaligned_le32 (drop 4 b),
     get_unaligned_le32 (drop 8 b), get_unaligned_le32 (drop 12 b))"

definition store_quad :: "quad \<Rightarrow> bytes" where
  "store_quad = (\<lambda>(a, b, c, d). put_unaligned_le32 a @ put_unaligned_le32 b
     @ put_unaligned_le32 c @ put_unaligned_le32 d)"

definition twofish_ecb_encrypt :: "twofish_key \<Rightarrow> bytes \<Rightarrow> bytes" where
  "twofish_ecb_encrypt skey pt =
     (let (a, b, c, d) = load_quad pt;
          a = a XOR K skey ! 0; b = b XOR K skey ! 1;
          c = c XOR K skey ! 2; d = d XOR K skey ! 3;
          (a, b, c, d) = enc_loop skey 8 8 (a, b, c, d);
          ta = c XOR K skey ! 4; tb = d XOR K skey ! 5;
          tc = a XOR K skey ! 6; td = b XOR K skey ! 7
      in store_quad (ta, tb, tc, td))"

definition twofish_ecb_decrypt :: "twofish_key \<Rightarrow> bytes \<Rightarrow> bytes" where
  "twofish_ecb_decrypt skey ct =
     (let (ta, tb, tc, td) = load_quad ct;
          a = tc XOR K skey ! 6; b = td XOR K skey ! 7;
          c = ta XOR K skey ! 4; d = tb XOR K skey ! 5;
          (a, b, c, d) = dec_loop skey 8 36 (a, b, c, d);
          a = a XOR K skey ! 0; b = b XOR K skey ! 1;
          c = c XOR K skey ! 2; d = d XOR K skey ! 3
      in store_quad (a, b, c, d))"

text \<open>\<^verbatim>\<open>twofish_keysize\<close>: the largest supported key size not above the one asked for.\<close>

definition twofish_keysize :: "int \<Rightarrow> crypt_error + int" where
  "twofish_keysize keysize =
     (if keysize < 16 then Inl CRYPT_INVALID_KEYSIZE
      else if keysize < 24 then Inr 16
      else if keysize < 32 then Inr 24
      else Inr 32)"

subsection \<open>The variant without tables\<close>

definition qbox :: "u8 list list list" where
  "qbox =
    [[[0x8, 0x1, 0x7, 0xd, 0x6, 0xf, 0x3, 0x2, 0x0, 0xb, 0x5, 0x9, 0xe, 0xc, 0xa, 0x4],
      [0xe, 0xc, 0xb, 0x8, 0x1, 0x2, 0x3, 0x5, 0xf, 0x4, 0xa, 0x6, 0x7, 0x0, 0x9, 0xd],
      [0xb, 0xa, 0x5, 0xe, 0x6, 0xd, 0x9, 0x0, 0xc, 0x8, 0xf, 0x3, 0x2, 0x4, 0x7, 0x1],
      [0xd, 0x7, 0xf, 0x4, 0x1, 0x2, 0x6, 0xe, 0x9, 0xb, 0x3, 0x0, 0x8, 0x5, 0xc, 0xa]],
     [[0x2, 0x8, 0xb, 0xd, 0xf, 0x7, 0x6, 0xe, 0x3, 0x1, 0x9, 0x4, 0x0, 0xa, 0xc, 0x5],
      [0x1, 0xe, 0x2, 0xb, 0x4, 0xc, 0x3, 0x7, 0x6, 0xd, 0xa, 0x5, 0xf, 0x9, 0x0, 0x8],
      [0x4, 0xc, 0x7, 0x5, 0x1, 0x6, 0x9, 0xa, 0x0, 0xe, 0xd, 0x8, 0x2, 0xb, 0x3, 0xf],
      [0xb, 0x9, 0x5, 0x1, 0xc, 0x3, 0xd, 0xe, 0x6, 0x4, 0x7, 0xf, 0x2, 0x0, 0x8, 0xa]]]"

text \<open>The body of \<^verbatim>\<open>sbox\<close> after the split of \<^verbatim>\<open>x\<close> into two nibbles; \<open>q\<close> is \<^verbatim>\<open>qbox[i]\<close>.\<close>

definition q_permute :: "u8 list list \<Rightarrow> u8 \<Rightarrow> u8 \<Rightarrow> u8" where
  "q_permute q a0 b0 =
     (let a1 = a0 XOR b0;
          b1 = (a0 XOR (push_bit 3 b0 OR drop_bit 1 b0) XOR push_bit 3 a0) AND 15;
          a2 = q ! 0 ! unat a1; b2 = q ! 1 ! unat b1;
          a3 = a2 XOR b2;
          b3 = (a2 XOR (push_bit 3 b2 OR drop_bit 1 b2) XOR push_bit 3 a2) AND 15;
          a4 = q ! 2 ! unat a3; b4 = q ! 3 ! unat b3
      in push_bit 4 b4 + a4)"

definition sbox_computed :: "nat \<Rightarrow> u32 \<Rightarrow> u32" where
  "sbox_computed i x =
     ucast (q_permute (qbox ! i) (ucast (drop_bit 4 x AND 15)) (ucast (x AND 15)))"

definition mds_column_mult_computed :: "u8 \<Rightarrow> nat \<Rightarrow> u32" where
  "mds_column_mult_computed inp col =
     (let x01 = ucast inp;
          x5B = gf_mult (ucast inp) 0x5B MDS_POLY;
          xEF = gf_mult (ucast inp) 0xEF MDS_POLY
      in if col = 0 then x01 OR push_bit 8 x5B OR push_bit 16 xEF OR push_bit 24 xEF
         else if col = 1 then xEF OR push_bit 8 xEF OR push_bit 16 x5B OR push_bit 24 x01
         else if col = 2 then x5B OR push_bit 8 xEF OR push_bit 16 x01 OR push_bit 24 xEF
         else if col = 3 then x5B OR push_bit 8 x01 OR push_bit 16 xEF OR push_bit 24 x5B
         else 0)"

section \<open>The tables hold what the other variant computes\<close>

lemma SBOX_permute:
  "i < 2 \<Longrightarrow> SBOX ! i =
     (\<lambda>q. concat (map (\<lambda>a. map (\<lambda>b. q_permute q a b) (map of_nat [0..<16])) (map of_nat [0..<16]))) (qbox ! i)"
proof -
  have "SBOX ! 0 =
     (\<lambda>q. concat (map (\<lambda>a. map (\<lambda>b. q_permute q a b) (map of_nat [0..<16])) (map of_nat [0..<16]))) (qbox ! 0)"
    by code_simp
  moreover have "SBOX ! 1 =
     (\<lambda>q. concat (map (\<lambda>a. map (\<lambda>b. q_permute q a b) (map of_nat [0..<16])) (map of_nat [0..<16]))) (qbox ! 1)"
    by code_simp
  ultimately show "i < 2 \<Longrightarrow> ?thesis" by (auto simp: less_2_cases_iff simp del: map_map)
qed

lemma unat_masks:
  "unat (x AND 255) = unat x mod 256" "unat (x AND 15) = unat x mod 16"
  "unat (drop_bit 4 x) = unat x div 16" for x :: u32
proof -
  have eq: "x AND 255 = take_bit 8 x" "x AND 15 = take_bit 4 x"
    by (simp_all add: take_bit_eq_mask mask_eq_exp_minus_1)
  show "unat (x AND 255) = unat x mod 256" "unat (x AND 15) = unat x mod 16"
    unfolding eq by (simp_all add: unsigned_take_bit_eq take_bit_eq_mod [of _ "unat x"])
  show "unat (drop_bit 4 x) = unat x div 16"
    using unsigned_less [of x, where 'a = nat]
    by (simp add: unsigned_drop_bit_eq drop_bit_eq_div [of _ "unat x"] take_bit_nat_eq_self)
qed

lemma sbox_eq_computed: "i < 2 \<Longrightarrow> sbox i x = sbox_computed i x"
proof -
  assume i: "i < 2"
  let ?n = "unat (x AND 255)"
  have n: "?n < 256" by (simp add: unat_masks)
  have split: "?n div 16 = unat (drop_bit 4 x AND 15)" "?n mod 16 = unat (x AND 15)"
    using mod_mult2_eq [of "unat x" 16 16] by (simp_all add: unat_masks mod_mod_cancel)
  have "SBOX ! i ! ?n = q_permute (qbox ! i) (of_nat (?n div 16)) (of_nat (?n mod 16))"
    using n unfolding SBOX_permute [OF i]
    by (subst nth_concat_uniform [where m = 16]) (auto simp: less_mult_imp_div_less)
  then show ?thesis by (simp add: sbox_def sbox_computed_def split)
qed

definition lin_rel :: "u32 \<times> u32 \<times> u32 \<Rightarrow> u32 \<times> u32 \<times> u32 \<Rightarrow> u32 \<times> u32 \<times> u32 \<Rightarrow> bool" where
  "lin_rel = (\<lambda>(r, a, b) (r', a', b') (r'', a'', b'').
     r'' = r XOR r' \<and> a'' = a XOR a' \<and> b = b'' \<and> b' = b'')"

lemma odd_xor: "((a XOR a') AND 1 = 0) = ((a AND 1 = 0) = (a' AND 1 = 0))" for a a' :: u32
  by (simp add: and_one_eq mod_2_eq_odd even_xor_iff)

lemma gf_step_lin: "lin_rel s s' s'' \<Longrightarrow> lin_rel (gf_step p s) (gf_step p s') (gf_step p s'')"
  by (auto simp: lin_rel_def gf_step_def odd_xor drop_bit_xor xor.assoc xor.commute xor.left_commute
      split: prod.splits)

lemma gf_mult_xor: "gf_mult (a XOR a') b p = gf_mult a b p XOR gf_mult a' b p"
proof -
  let ?g = "gf_step p"
  let ?s = "\<lambda>a. ?g (?g (?g (?g (?g (?g (?g (0, a, b)))))))"
  have "lin_rel (?s a) (?s a') (?s (a XOR a'))"
    by (intro gf_step_lin) (simp add: lin_rel_def)
  then show ?thesis
    by (auto simp: gf_mult_def Let_def lin_rel_def odd_xor xor.assoc xor.commute xor.left_commute split: prod.splits)
qed

definition is_byte :: "u32 \<Rightarrow> bool" where
  "is_byte v \<longleftrightarrow> (\<forall>n \<ge> 8. \<not> bit v n)"

lemma is_byteD: "is_byte v \<Longrightarrow> 8 \<le> n \<Longrightarrow> bit v n = False"
  by (simp add: is_byte_def)

lemma is_byte_ucast [simp]: "is_byte (ucast (b :: u8))"
  by (simp add: is_byte_def bit_simps bit_byte_ge)

lemma is_byte_0 [simp]: "is_byte 0"
  by (simp add: is_byte_def)

lemma is_byte_xor: "is_byte v \<Longrightarrow> is_byte w \<Longrightarrow> is_byte (v XOR w)"
  by (simp add: is_byte_def bit_simps)

lemma gf_step_index:
  assumes "is_byte b"
  shows "drop_bit 7 b = (if bit b 7 then 1 else 0)"
proof (rule bit_word_eqI)
  fix n assume "n < LENGTH(32)"
  show "bit (drop_bit 7 b) n = bit (if bit b 7 then 1 else 0 :: u32) n"
    using assms by (cases n) (auto simp: is_byte_def bit_simps bit_1_iff)
qed

lemma gf_step_byte:
  assumes "is_byte b" "bit p 8" "\<forall>n > 8. \<not> bit p n"
  shows "is_byte (gf_double p b)"
proof -
  have "\<not> bit (gf_double p b) n" if "8 \<le> n" for n
    using assms that
    by (cases "n = 8") (auto simp: gf_double_def gf_step_index is_byte_def bit_simps simp del: push_bit_Suc One_nat_def)
  then show ?thesis by (simp add: is_byte_def)
qed

lemma polys: "bit MDS_POLY 8" "\<forall>n > 8. \<not> bit MDS_POLY n" "bit RS_POLY 8" "\<forall>n > 8. \<not> bit RS_POLY n"
proof -
  have "take_bit 9 MDS_POLY = MDS_POLY" "take_bit 9 RS_POLY = RS_POLY"
    by (simp_all add: MDS_POLY_def RS_POLY_def)
  then have "bit MDS_POLY n \<Longrightarrow> n < 9" "bit RS_POLY n \<Longrightarrow> n < 9" for n
    by (metis bit_take_bit_iff)+
  then show "\<forall>n > 8. \<not> bit MDS_POLY n" "\<forall>n > 8. \<not> bit RS_POLY n" by fastforce+
  show "bit MDS_POLY 8" "bit RS_POLY 8"
    by (simp_all add: MDS_POLY_def RS_POLY_def)
qed

definition byte_state :: "u32 \<times> u32 \<times> u32 \<Rightarrow> bool" where
  "byte_state = (\<lambda>(r, a, b). is_byte r \<and> is_byte b)"

lemma gf_step_byte_state:
  assumes "bit p 8" "\<forall>n > 8. \<not> bit p n"
  shows "byte_state s \<Longrightarrow> byte_state (gf_step p s)"
  by (cases s) (simp add: byte_state_def gf_step_def is_byte_xor gf_step_byte [OF _ assms])

lemma gf_mult_byte:
  assumes "bit p 8" "\<forall>n > 8. \<not> bit p n" "is_byte b"
  shows "is_byte (gf_mult a b p)"
proof -
  let ?g = "gf_step p"
  have "byte_state (?g (?g (?g (?g (?g (?g (?g (0, a, b))))))))"
    by (intro gf_step_byte_state [OF assms(1,2)]) (simp add: byte_state_def assms)
  then show ?thesis
    by (simp add: gf_mult_def Let_def byte_state_def case_prod_beta is_byte_xor)
qed

definition pack :: "u32 \<Rightarrow> u32 \<Rightarrow> u32 \<Rightarrow> u32 \<Rightarrow> u32" where
  "pack a b c d = a OR push_bit 8 b OR push_bit 16 c OR push_bit 24 d"

lemma pack_xor:
  assumes "is_byte a" "is_byte b" "is_byte c" "is_byte d" "is_byte a'" "is_byte b'" "is_byte c'" "is_byte d'"
  shows "pack (a XOR a') (b XOR b') (c XOR c') (d XOR d') = pack a b c d XOR pack a' b' c' d'"
proof (rule bit_word_eqI)
  fix n assume "n < LENGTH(32)"
  then consider "n < 8" | "8 \<le> n" "n < 16" | "16 \<le> n" "n < 24" | "24 \<le> n" "n < 32"
    by fastforce
  then show "bit (pack (a XOR a') (b XOR b') (c XOR c') (d XOR d')) n = bit (pack a b c d XOR pack a' b' c' d') n"
    by cases (simp_all add: pack_def bit_simps assms [THEN is_byteD])
qed

lemma mds_column_mult_computed_xor:
  "mds_column_mult_computed (a XOR b) c = mds_column_mult_computed a c XOR mds_column_mult_computed b c"
proof -
  have "is_byte (gf_mult (ucast x) 0x5B MDS_POLY)" "is_byte (gf_mult (ucast x) 0xEF MDS_POLY)" for x :: u8
    using gf_mult_byte [OF polys(1,2) is_byte_ucast, of "ucast x" "0x5B"]
      gf_mult_byte [OF polys(1,2) is_byte_ucast, of "ucast x" "0xEF"] by simp_all
  then show ?thesis
    unfolding mds_column_mult_computed_def Let_def pack_def [symmetric]
    by (simp add: gf_mult_xor unsigned_xor_eq pack_xor)
qed

definition xor_span :: "u32 list \<Rightarrow> u32 list" where
  "xor_span cs = foldl (\<lambda>t c. t @ map (\<lambda>v. v XOR c) t) [0] cs"

lemma add_exp_xor: "n < 2 ^ k \<Longrightarrow> of_nat n + 2 ^ k = of_nat n XOR (2 ^ k :: u8)"
proof -
  assume "n < 2 ^ k"
  then have "n AND 2 ^ k = 0"
    by (simp add: and_exp_eq_0_iff_not_bit bit_iff_odd)
  then have "of_nat (n + 2 ^ k) = (of_nat (n XOR 2 ^ k) :: u8)"
    by (simp only: disjunctive_add_eq_xor)
  then show ?thesis by (simp add: of_nat_xor_eq)
qed

lemma xor_span_additive:
  fixes f :: "u8 \<Rightarrow> u32"
  assumes f: "\<And>a b. f (a XOR b) = f a XOR f b"
  shows "map (\<lambda>n. f (of_nat n)) [0..<2 ^ k] = xor_span (map (\<lambda>i. f (2 ^ i)) [0..<k])"
proof (induction k)
  case 0
  have "f 0 = 0" using f [of 0 0] by simp
  then show ?case by (simp add: xor_span_def)
next
  case (Suc k)
  have "map (\<lambda>n. f (of_nat n)) [0..<2 ^ Suc k] =
      map (\<lambda>n. f (of_nat n)) [0..<2 ^ k] @ map (\<lambda>n. f (of_nat n + 2 ^ k)) [0..<2 ^ k]"
    by (simp add: mult_2 upt_add_eq_append map_add_upt [symmetric] comp_def)
  also have "map (\<lambda>n. f (of_nat n + 2 ^ k)) [0..<2 ^ k] =
      map (\<lambda>v. v XOR f (2 ^ k)) (map (\<lambda>n. f (of_nat n)) [0..<2 ^ k])"
    unfolding map_map by (rule map_cong) (simp_all add: add_exp_xor f)
  finally show ?case using Suc by (simp add: xor_span_def)
qed

lemma mds_tab_spans:
  "mds_tab ! 0 = xor_span (map (\<lambda>i. mds_tab ! 0 ! (2 ^ i)) [0..<8])"
  "mds_tab ! 1 = xor_span (map (\<lambda>i. mds_tab ! 1 ! (2 ^ i)) [0..<8])"
  "mds_tab ! 2 = xor_span (map (\<lambda>i. mds_tab ! 2 ! (2 ^ i)) [0..<8])"
  "mds_tab ! 3 = xor_span (map (\<lambda>i. mds_tab ! 3 ! (2 ^ i)) [0..<8])"
  by (simp_all add: mds_tab_def xor_span_def upt_rec)

lemma mds_tab_basis:
  "map (\<lambda>i. mds_tab ! 0 ! (2 ^ i)) [0..<8] = map (\<lambda>i. mds_column_mult_computed (2 ^ i) 0) [0..<8]"
  "map (\<lambda>i. mds_tab ! 1 ! (2 ^ i)) [0..<8] = map (\<lambda>i. mds_column_mult_computed (2 ^ i) 1) [0..<8]"
  "map (\<lambda>i. mds_tab ! 2 ! (2 ^ i)) [0..<8] = map (\<lambda>i. mds_column_mult_computed (2 ^ i) 2) [0..<8]"
  "map (\<lambda>i. mds_tab ! 3 ! (2 ^ i)) [0..<8] = map (\<lambda>i. mds_column_mult_computed (2 ^ i) 3) [0..<8]"
  by code_simp+

lemma mds_tab_computed:
  assumes "mds_tab ! c = xor_span (map (\<lambda>i. mds_tab ! c ! (2 ^ i)) [0..<8])"
    and "map (\<lambda>i. mds_tab ! c ! (2 ^ i)) [0..<8] = map (\<lambda>i. mds_column_mult_computed (2 ^ i) c) [0..<8]"
  shows "mds_column_mult (ucast b) c = mds_column_mult_computed b c"
proof -
  have "mds_tab ! c = map (\<lambda>n. mds_column_mult_computed (of_nat n) c) [0..<2 ^ 8]"
    using assms(1) unfolding assms(2)
    by (subst xor_span_additive) (simp_all add: mds_column_mult_computed_xor)
  moreover have "unat b < 256" using unsigned_less [of b] by simp
  ultimately show ?thesis by (simp add: mds_column_mult_def unsigned_ucast_eq take_bit_nat_eq_self)
qed

lemma mds_column_mult_eq_computed:
  assumes "c < 4"
  shows "mds_column_mult (ucast b) c = mds_column_mult_computed b c"
proof -
  from assms consider "c = 0" | "c = 1" | "c = 2" | "c = 3" by linarith
  then show ?thesis
    by cases (simp_all only: mds_tab_computed [OF mds_tab_spans(1) mds_tab_basis(1)]
       mds_tab_computed [OF mds_tab_spans(2) mds_tab_basis(2)]
       mds_tab_computed [OF mds_tab_spans(3) mds_tab_basis(3)]
       mds_tab_computed [OF mds_tab_spans(4) mds_tab_basis(4)])
qed

section \<open>The key-dependent S-boxes are the function h over the RS words\<close>

text \<open>Twofish defines g as h keyed with the RS words in reverse order. \<open>rs_key\<close> lays the words
  out as \<^verbatim>\<open>h_func\<close> reads them with offset 0: word \<open>w\<close> at bytes \<open>8 w .. 8 w + 3\<close>.\<close>

definition rs_key :: "bytes \<Rightarrow> nat \<Rightarrow> bytes" where
  "rs_key s k = concat (map (\<lambda>w. take 4 (drop (4 * (k - 1 - w)) s) @ replicate 4 0) [0..<k])"

lemma ucast_xor_byte: "ucast (ucast (a :: u8) XOR ucast b :: u32) = a XOR (b :: u8)"
  by (auto intro!: bit_word_eqI simp: bit_simps)

lemma ucast_ucast_byte: "ucast (ucast (a :: u8) :: u32) = a"
  by (auto intro!: bit_word_eqI simp: bit_simps)

lemma xor_ucast: "ucast (a :: u8) XOR ucast b = (ucast (a XOR b) :: u32)"
  by (simp add: unsigned_xor_eq)

definition q :: "nat \<Rightarrow> u8 \<Rightarrow> u8" where
  "q i b = SBOX ! i ! unat b"

lemma sbox_ucast: "sbox i (ucast (b :: u8)) = ucast (q i b)"
proof -
  have mask: "(255 :: u32) = mask 8" by (simp add: mask_eq_exp_minus_1)
  have "ucast b AND (255 :: u32) = ucast b"
    unfolding mask by (rule bit_word_eqI) (auto simp: bit_simps bit_byte_ge not_le [symmetric]
        simp del: mask_numeral)
  then show ?thesis
    using unsigned_less [of b, where 'a = nat]
    by (simp add: sbox_def q_def unsigned_ucast_eq take_bit_nat_eq_self)
qed

lemmas byte_level = sbox_ucast xor_ucast ucast_ucast_byte ucast_xor_byte

lemma nth_rs_key:
  assumes "w < k" "j < 4" "length s = 4 * k"
  shows "rs_key s k ! (8 * w + j) = s ! (4 * (k - 1 - w) + j)"
proof -
  have "4 * (k - 1 - w) + 4 \<le> 4 * k" using assms by simp
  then have "rs_key s k ! (8 * w + j) =
      (take 4 (drop (4 * (k - 1 - w)) s) @ replicate 4 0) ! j"
    unfolding rs_key_def using assms
    by (subst nth_concat_uniform [where m = 8]) (auto simp: min_def)
  then show ?thesis using assms by (simp add: nth_append)
qed

lemma keyed_sboxes_h:
  assumes "k \<in> {2, 3, 4}" "length s = 4 * k"
  shows "get_unaligned_le32 (h_func (map (byte x) [0..<4]) (rs_key s k) k 0) =
    keyed_sboxes s k (unat (byte x 0)) ! 0 XOR keyed_sboxes s k (unat (byte x 1)) ! 1 XOR
    keyed_sboxes s k (unat (byte x 2)) ! 2 XOR keyed_sboxes s k (unat (byte x 3)) ! 3"
proof -
  note m = nth_rs_key [of 0 k 0 s] nth_rs_key [of 0 k 1 s] nth_rs_key [of 0 k 2 s] nth_rs_key [of 0 k 3 s]
    nth_rs_key [of 1 k 0 s] nth_rs_key [of 1 k 1 s] nth_rs_key [of 1 k 2 s] nth_rs_key [of 1 k 3 s]
    nth_rs_key [of 2 k 0 s] nth_rs_key [of 2 k 1 s] nth_rs_key [of 2 k 2 s] nth_rs_key [of 2 k 3 s]
    nth_rs_key [of 3 k 0 s] nth_rs_key [of 3 k 1 s] nth_rs_key [of 3 k 2 s] nth_rs_key [of 3 k 3 s]
  from assms(1) show ?thesis
    using m assms(2)
    by (auto simp: h_func_def keyed_sboxes_def mds_mult_def Let_def byte_level upt_rec xor.assoc
        numeral_2_eq_2 numeral_3_eq_3)
qed

section \<open>Decryption inverts encryption\<close>

lemma ROLc_rotl: "0 < y \<Longrightarrow> y < 32 \<Longrightarrow> ROLc x y = word_rotl y x"
  by (simp add: ROLc_def shift_or_rotl)

lemma RORc_rotr: "0 < y \<Longrightarrow> y < 32 \<Longrightarrow> RORc x y = word_rotr y x"
  by (simp add: RORc_def shift_or_rotr)

lemma rot_cancel: "ROLc (RORc x 1) 1 = x" "RORc (ROLc x 1) 1 = x"
  by (simp_all add: ROLc_rotl RORc_rotr)

lemma dec_enc_round: "dec_round skey k (enc_round skey k st) = st"
  by (cases st) (simp add: dec_round_def enc_round_def Let_def rot_cancel [simplified])

lemma enc_dec_round: "enc_round skey k (dec_round skey k st) = st"
  by (cases st) (simp add: dec_round_def enc_round_def Let_def rot_cancel [simplified])

lemma enc_loop_Suc: "enc_loop skey (Suc r) k st = enc_round skey (k + 4 * r) (enc_loop skey r k st)"
proof (induction r arbitrary: k st)
  case (Suc r)
  have "enc_loop skey (Suc (Suc r)) k st = enc_loop skey (Suc r) (k + 4) (enc_round skey k st)"
    by (rule enc_loop.simps)
  also have "\<dots> = enc_round skey (k + 4 * Suc r) (enc_loop skey (Suc r) k st)"
    by (subst Suc.IH) (simp add: add.assoc)
  finally show ?case .
qed simp

lemma loop_index: "k + 4 + 4 * r = k + 4 * Suc r" "k + 4 * Suc r - 4 = k + 4 * r" for k r :: nat
  by simp_all

lemma dec_enc_loop:
  "dec_loop skey r (k + 4 * r) (enc_loop skey r (k + 4) st) = st"
proof (induction r arbitrary: st)
  case (Suc r)
  then show ?case by (simp only: enc_loop_Suc dec_loop.simps loop_index dec_enc_round)
qed simp

lemma enc_dec_loop:
  "enc_loop skey r (k + 4) (dec_loop skey r (k + 4 * r) st) = st"
proof (induction r arbitrary: st)
  case (Suc r)
  then show ?case by (simp only: enc_loop_Suc dec_loop.simps loop_index enc_dec_round)
qed simp

lemma length_store_quad [simp, buf_simps]: "length (store_quad x) = 16"
  by (cases x) (simp add: store_quad_def)

lemma load_store_quad [simp]: "load_quad (store_quad x) = x"
  by (cases x) (simp add: store_quad_def load_quad_def)

lemma store_load_quad: "length b = 16 \<Longrightarrow> store_quad (load_quad b) = b"
  using block16_words [of b] by (simp add: store_quad_def load_quad_def)

lemma length_twofish [simp, buf_simps]:
  "length (twofish_ecb_encrypt skey b) = 16" "length (twofish_ecb_decrypt skey b) = 16"
  by (simp_all add: twofish_ecb_encrypt_def twofish_ecb_decrypt_def Let_def case_prod_beta)

lemma twofish_decrypt_encrypt:
  assumes "length b = 16"
  shows "twofish_ecb_decrypt skey (twofish_ecb_encrypt skey b) = b"
  using dec_enc_loop [of skey 8 4] store_load_quad [OF assms]
  by (simp add: twofish_ecb_encrypt_def twofish_ecb_decrypt_def Let_def case_prod_beta)

lemma twofish_encrypt_decrypt:
  assumes "length b = 16"
  shows "twofish_ecb_encrypt skey (twofish_ecb_decrypt skey b) = b"
  using enc_dec_loop [of skey 8 4] store_load_quad [OF assms]
  by (simp add: twofish_ecb_encrypt_def twofish_ecb_decrypt_def Let_def case_prod_beta)

interpretation twofish: block_cipher "\<lambda>_. True" twofish_ecb_encrypt twofish_ecb_decrypt
  by unfold_locales (simp_all add: twofish_decrypt_encrypt twofish_encrypt_decrypt)

section \<open>The round function over a key schedule\<close>

lemma byte_ROLc_8:
  "byte (ROLc x 8) 0 = byte x 3" "byte (ROLc x 8) 1 = byte x 0"
  "byte (ROLc x 8) 2 = byte x 1" "byte (ROLc x 8) 3 = byte x 2"
  by (auto intro!: bit_word_eqI simp: byte_def ROLc_def bit_simps)

lemma g1_func_rotated: "g1_func x skey = g_func (ROLc x 8) skey"
  by (simp add: g1_func_def g_func_def byte_ROLc_8 byte_ROLc_8 [simplified] ac_simps)

lemma length_rs_words [simp]: "length (rs_words M k) = 4 * k"
  by (simp add: rs_words_def rs_mult_def length_concat comp_def sum_list_triv)

lemma twofish_setup_S:
  assumes "twofish_setup key keylen num_rounds = Inr skey" "i < 4" "x < 256"
  shows "S skey ! i ! x =
    keyed_sboxes (rs_words (take (nat keylen) key) (nat (keylen div 8))) (nat (keylen div 8)) x ! i"
  using assms by (auto simp: twofish_setup_def Let_def split: if_splits)

lemma twofish_setup_lengths:
  assumes "twofish_setup key keylen num_rounds = Inr skey"
  shows "length (K skey) = 40" "length (S skey) = 4" "keylen \<in> {16, 24, 32}"
  using assms
  by (auto simp: twofish_setup_def Let_def length_concat comp_def subkeys_def sum_list_triv split: if_splits)

lemma g_func_h:
  assumes "twofish_setup key keylen num_rounds = Inr skey"
  defines "k \<equiv> nat (keylen div 8)"
  shows "g_func x skey = get_unaligned_le32
    (h_func (map (byte x) [0..<4]) (rs_key (rs_words (take (nat keylen) key) k) k) k 0)"
proof -
  have "k \<in> {2, 3, 4}" using twofish_setup_lengths(3) [OF assms(1)] by (auto simp: k_def)
  moreover have "unat (byte x i) < 256" for i
    using unsigned_less [of "byte x i", where 'a = nat] by simp
  ultimately show ?thesis
    by (simp add: g_func_def keyed_sboxes_h twofish_setup_S [OF assms(1)] flip: k_def)
qed

section \<open>Properties\<close>

text \<open>C16. The precomputed tables of \<^verbatim>\<open>twofish_tab.c\<close> are right: every entry of \<^verbatim>\<open>SBOX\<close> is the
  byte permutation that the table-free variant of \<^verbatim>\<open>sbox\<close> computes from the four-bit permutations,
  and every entry of \<^verbatim>\<open>mds_tab\<close> is the MDS column that the table-free \<^verbatim>\<open>mds_column_mult\<close>
  computes by multiplication modulo the MDS polynomial.\<close>

theorem twofish_tables_correct:
  assumes "i < 2" "c < 4"
  shows "sbox i x = sbox_computed i x \<and> mds_column_mult (ucast b) c = mds_column_mult_computed b c"
  using assms by (simp add: sbox_eq_computed mds_column_mult_eq_computed)

theorem twofish_tables_correct_witness:
  "sbox 1 77 = sbox_computed 1 77 \<and> mds_column_mult (ucast (200 :: u8)) 3 = mds_column_mult_computed 200 3"
  by (rule twofish_tables_correct) simp_all

text \<open>C17. After a successful \<^verbatim>\<open>twofish_setup\<close>, for every key size, the four lookups of
  \<^verbatim>\<open>g_func\<close> in the key-dependent S-boxes give the function h keyed with the Reed-Solomon words of the
  key in reverse order, and \<^verbatim>\<open>g1_func\<close> is the same function of the argument rotated by 8 bits.\<close>

theorem twofish_g_is_keyed_h:
  assumes "twofish_setup key keylen num_rounds = Inr skey"
  shows "g_func x skey = get_unaligned_le32
      (h_func (map (byte x) [0..<4])
        (rs_key (rs_words (take (nat keylen) key) (nat (keylen div 8))) (nat (keylen div 8)))
        (nat (keylen div 8)) 0) \<and>
    g1_func x skey = g_func (ROLc x 8) skey"
  using g_func_h [OF assms] by (simp add: g1_func_rotated)

theorem twofish_g_is_keyed_h_witness:
  "g1_func 5 (projr (twofish_setup (replicate 32 9) 32 0)) =
     g_func (ROLc 5 8) (projr (twofish_setup (replicate 32 9) 32 0))"
proof -
  have "twofish_setup (replicate 32 9) 32 0 = Inr (projr (twofish_setup (replicate 32 9) 32 0))"
    by (simp add: twofish_setup_def Let_def)
  from twofish_g_is_keyed_h [OF this, of 5] show ?thesis by simp
qed

text \<open>C18. \<^verbatim>\<open>twofish_ecb_decrypt\<close> undoes \<^verbatim>\<open>twofish_ecb_encrypt\<close> on every 16-byte block and every
  key schedule, and the other way round.\<close>

theorem twofish_block_roundtrip:
  assumes "length b = 16"
  shows "twofish_ecb_decrypt skey (twofish_ecb_encrypt skey b) = b \<and>
         twofish_ecb_encrypt skey (twofish_ecb_decrypt skey b) = b"
  using assms by (simp add: twofish_decrypt_encrypt twofish_encrypt_decrypt)

theorem twofish_block_roundtrip_witness:
  "twofish_ecb_decrypt \<lparr>S = replicate 4 (replicate 256 3), K = replicate 40 7\<rparr>
     (twofish_ecb_encrypt \<lparr>S = replicate 4 (replicate 256 3), K = replicate 40 7\<rparr> (replicate 16 1)) =
   replicate 16 1"
  using twofish_block_roundtrip [of "replicate 16 1"] by simp

end

