(* ===== verification/Aes.thy ===== *)
theory Aes
  imports Xts
begin

text \<open>
  AES as mbedtls implements it in software (\<^verbatim>\<open>mbedtls/library/aes.c\<close>, without the x86-only
  AESNI and Padlock paths, as on every Android ABI but x86): the tables generated at run time
  by \<^verbatim>\<open>aes_gen_tables\<close> (the configuration has no \<^verbatim>\<open>MBEDTLS_AES_ROM_TABLES\<close>), both key
  schedules, the table-driven rounds, and the modes the application uses: ECB, CBC and XTS.
  The lemmas relate the table-driven rounds to the textbook steps (SubBytes, ShiftRows,
  MixColumns), show that the key schedule for decryption makes the equivalent inverse cipher
  invert encryption, and that each mode is invertible.
\<close>

section \<open>Table generation\<close>

text \<open>\<^verbatim>\<open>XTIME\<close> under \<^verbatim>\<open>MBEDTLS_BYTE_0\<close>: doubling in GF(2^8).\<close>

definition XTIME :: "u8 \<Rightarrow> u8" where
  "XTIME x = push_bit 1 x XOR (if x AND 0x80 \<noteq> 0 then 0x1B else 0)"

text \<open>The loop that fills \<^verbatim>\<open>pow\<close> (\<^verbatim>\<open>x = x ^ XTIME(x)\<close> each turn) and the one that fills \<^verbatim>\<open>log\<close>;
  the entry \<^verbatim>\<open>log[0]\<close> is never written and never read.\<close>

primrec pow_loop :: "nat \<Rightarrow> u8 \<Rightarrow> u8 list" where
  "pow_loop 0 x = []"
| "pow_loop (Suc n) x = x # pow_loop n (x XOR XTIME x)"

definition pow_tab :: "u8 list" where
  "pow_tab = pow_loop 256 1"

definition log_tab :: "nat list" where
  "log_tab = fold (\<lambda>(i, x) l. l[unat x := i]) (enumerate 0 pow_tab) (replicate 256 0)"

primrec rcon_loop :: "nat \<Rightarrow> u8 \<Rightarrow> u32 list" where
  "rcon_loop 0 x = []"
| "rcon_loop (Suc n) x = ucast x # rcon_loop n (XTIME x)"

definition round_constants :: "u32 list" where
  "round_constants = rcon_loop 10 1"

text \<open>The affine map of the S-box: four rotations by one bit, each added in.\<close>

definition rotl1 :: "u8 \<Rightarrow> u8" where
  "rotl1 y = push_bit 1 y OR drop_bit 7 y"

definition sbox_affine :: "u8 \<Rightarrow> u8" where
  "sbox_affine x =
     (let y = x; y = rotl1 y;
          x = x XOR y; y = rotl1 y;
          x = x XOR y; y = rotl1 y;
          x = x XOR y; y = rotl1 y
      in x XOR (y XOR 0x63))"

definition sbox_tables :: "bytes \<times> bytes" where
  "sbox_tables =
     fold (\<lambda>i (fsb, rsb). let x = sbox_affine (pow_tab ! (255 - log_tab ! i))
                           in (fsb[i := x], rsb[unat x := of_nat i]))
       [1..<256] ((replicate 256 0)[0 := 0x63], (replicate 256 0)[0x63 := 0])"

definition FSb :: bytes where "FSb = fst sbox_tables"
definition RSb :: bytes where "RSb = snd sbox_tables"

definition MUL :: "u8 \<Rightarrow> u8 \<Rightarrow> u8" where
  "MUL x y = (if x \<noteq> 0 \<and> y \<noteq> 0 then pow_tab ! ((log_tab ! unat x + log_tab ! unat y) mod 255) else 0)"

definition ROTL8 :: "u32 \<Rightarrow> u32" where
  "ROTL8 x = push_bit 8 x OR drop_bit 24 x"

definition FT0_entry :: "u8 \<Rightarrow> u32" where
  "FT0_entry x =
     (let y = XTIME x; z = y XOR x
      in ucast y XOR push_bit 8 (ucast x) XOR push_bit 16 (ucast x) XOR push_bit 24 (ucast z))"

definition RT0_entry :: "u8 \<Rightarrow> u32" where
  "RT0_entry x =
     ucast (MUL 0x0E x) XOR push_bit 8 (ucast (MUL 0x09 x)) XOR push_bit 16 (ucast (MUL 0x0D x))
       XOR push_bit 24 (ucast (MUL 0x0B x))"

definition FT0 :: "u32 list" where "FT0 = map (\<lambda>i. FT0_entry (FSb ! i)) [0..<256]"
definition FT1 :: "u32 list" where "FT1 = map ROTL8 FT0"
definition FT2 :: "u32 list" where "FT2 = map ROTL8 FT1"
definition FT3 :: "u32 list" where "FT3 = map ROTL8 FT2"

definition RT0 :: "u32 list" where "RT0 = map (\<lambda>i. RT0_entry (RSb ! i)) [0..<256]"
definition RT1 :: "u32 list" where "RT1 = map ROTL8 RT0"
definition RT2 :: "u32 list" where "RT2 = map ROTL8 RT1"
definition RT3 :: "u32 list" where "RT3 = map ROTL8 RT2"

section \<open>Key schedules\<close>

text \<open>\<^verbatim>\<open>mbedtls_aes_context\<close>; \<^verbatim>\<open>rk\<close> points at \<^verbatim>\<open>buf\<close> (\<^verbatim>\<open>mbedtls_aes_rk_offset\<close> returns 0 where
  no alignment is needed), so the array is the round keys.\<close>

type_synonym rkeys = "nat \<Rightarrow> u32"

record mbedtls_aes_context =
  nr :: nat
  rk :: rkeys

datatype aes_error =
  MBEDTLS_ERR_AES_INVALID_KEY_LENGTH
| MBEDTLS_ERR_AES_INVALID_INPUT_LENGTH

definition MBEDTLS_BYTE :: "nat \<Rightarrow> u32 \<Rightarrow> u8" where
  "MBEDTLS_BYTE n x = ucast (drop_bit (8 * n) x)"

text \<open>Four S-box lookups put side by side, as the key schedule and the last round write them.\<close>

definition sub_bytes4 :: "bytes \<Rightarrow> u8 \<Rightarrow> u8 \<Rightarrow> u8 \<Rightarrow> u8 \<Rightarrow> u32" where
  "sub_bytes4 sb b0 b1 b2 b3 =
     ucast (sb ! unat b0) XOR push_bit 8 (ucast (sb ! unat b1))
       XOR push_bit 16 (ucast (sb ! unat b2)) XOR push_bit 24 (ucast (sb ! unat b3))"

definition rot_sub :: "u32 \<Rightarrow> u32" where
  "rot_sub w = sub_bytes4 FSb (MBEDTLS_BYTE 1 w) (MBEDTLS_BYTE 2 w) (MBEDTLS_BYTE 3 w) (MBEDTLS_BYTE 0 w)"

definition sub_word :: "u32 \<Rightarrow> u32" where
  "sub_word w = sub_bytes4 FSb (MBEDTLS_BYTE 0 w) (MBEDTLS_BYTE 1 w) (MBEDTLS_BYTE 2 w) (MBEDTLS_BYTE 3 w)"

text \<open>The body of the expansion loop for each key size; \<open>p\<close> is the position of the moving pointer
  \<^verbatim>\<open>RK\<close> and \<open>i\<close> the loop counter.\<close>

definition expand_128 :: "nat \<Rightarrow> rkeys \<Rightarrow> rkeys" where
  "expand_128 i RK =
     (let p = 4 * i;
          RK = RK(p + 4 := RK p XOR round_constants ! i XOR rot_sub (RK (p + 3)));
          RK = RK(p + 5 := RK (p + 1) XOR RK (p + 4));
          RK = RK(p + 6 := RK (p + 2) XOR RK (p + 5))
      in RK(p + 7 := RK (p + 3) XOR RK (p + 6)))"

definition expand_192 :: "nat \<Rightarrow> rkeys \<Rightarrow> rkeys" where
  "expand_192 i RK =
     (let p = 6 * i;
          RK = RK(p + 6 := RK p XOR round_constants ! i XOR rot_sub (RK (p + 5)));
          RK = RK(p + 7 := RK (p + 1) XOR RK (p + 6));
          RK = RK(p + 8 := RK (p + 2) XOR RK (p + 7));
          RK = RK(p + 9 := RK (p + 3) XOR RK (p + 8));
          RK = RK(p + 10 := RK (p + 4) XOR RK (p + 9))
      in RK(p + 11 := RK (p + 5) XOR RK (p + 10)))"

definition expand_256 :: "nat \<Rightarrow> rkeys \<Rightarrow> rkeys" where
  "expand_256 i RK =
     (let p = 8 * i;
          RK = RK(p + 8 := RK p XOR round_constants ! i XOR rot_sub (RK (p + 7)));
          RK = RK(p + 9 := RK (p + 1) XOR RK (p + 8));
          RK = RK(p + 10 := RK (p + 2) XOR RK (p + 9));
          RK = RK(p + 11 := RK (p + 3) XOR RK (p + 10));
          RK = RK(p + 12 := RK (p + 4) XOR sub_word (RK (p + 11)));
          RK = RK(p + 13 := RK (p + 5) XOR RK (p + 12));
          RK = RK(p + 14 := RK (p + 6) XOR RK (p + 13))
      in RK(p + 15 := RK (p + 7) XOR RK (p + 14)))"

definition load_key_words :: "bytes \<Rightarrow> nat \<Rightarrow> rkeys \<Rightarrow> rkeys" where
  "load_key_words key n RK =
     fold (\<lambda>i RK. RK(i := get_unaligned_le32 (drop (4 * i) key))) [0..<n] RK"

definition mbedtls_aes_setkey_enc :: "bytes \<Rightarrow> nat \<Rightarrow> aes_error + mbedtls_aes_context" where
  "mbedtls_aes_setkey_enc key keybits =
     (let RK = load_key_words key (keybits div 32) (\<lambda>_. 0)
      in if keybits = 128 then Inr \<lparr>nr = 10, rk = fold expand_128 [0..<10] RK\<rparr>
         else if keybits = 192 then Inr \<lparr>nr = 12, rk = fold expand_192 [0..<8] RK\<rparr>
         else if keybits = 256 then Inr \<lparr>nr = 14, rk = fold expand_256 [0..<7] RK\<rparr>
         else Inl MBEDTLS_ERR_AES_INVALID_KEY_LENGTH)"

text \<open>The table lookups \<^verbatim>\<open>AES_RT0(FSb[..]) ^ AES_RT1(..) ^ ..\<close> of the decryption schedule.\<close>

definition inv_mix_word :: "u32 \<Rightarrow> u32" where
  "inv_mix_word w =
     RT0 ! unat (FSb ! unat (MBEDTLS_BYTE 0 w)) XOR RT1 ! unat (FSb ! unat (MBEDTLS_BYTE 1 w))
     XOR RT2 ! unat (FSb ! unat (MBEDTLS_BYTE 2 w)) XOR RT3 ! unat (FSb ! unat (MBEDTLS_BYTE 3 w))"

text \<open>\<^verbatim>\<open>for (i = nr - 1, SK -= 8; i > 0; i--, SK -= 8) for (j = 0; j < 4; j++, SK++) *RK++ = ..\<close>: the
  pointers \<^verbatim>\<open>RK\<close> and \<^verbatim>\<open>SK\<close> are the positions \<open>p\<close> and \<open>s\<close>, \<open>sk\<close> is the encryption
  schedule. The result carries both positions on.\<close>

fun dec_schedule :: "nat \<Rightarrow> rkeys \<Rightarrow> nat \<Rightarrow> nat \<Rightarrow> rkeys \<Rightarrow> rkeys \<times> nat \<times> nat" where
  "dec_schedule 0 sk p s RK = (RK, p, s)"
| "dec_schedule (Suc i) sk p s RK =
     dec_schedule i sk (p + 4) (s + 4 - 8)
       (fold (\<lambda>j RK. RK(p + j := inv_mix_word (sk (s + j)))) [0..<4] RK)"

definition copy4 :: "rkeys \<Rightarrow> nat \<Rightarrow> nat \<Rightarrow> rkeys \<Rightarrow> rkeys" where
  "copy4 sk p s RK = RK(p := sk s, p + 1 := sk (s + 1), p + 2 := sk (s + 2), p + 3 := sk (s + 3))"

definition mbedtls_aes_setkey_dec :: "bytes \<Rightarrow> nat \<Rightarrow> aes_error + mbedtls_aes_context" where
  "mbedtls_aes_setkey_dec key keybits =
     (case mbedtls_aes_setkey_enc key keybits of
        Inl e \<Rightarrow> Inl e
      | Inr cty \<Rightarrow>
          let RK = copy4 (rk cty) 0 (nr cty * 4) (\<lambda>_. 0);
              (RK, p, s) = dec_schedule (nr cty - 1) (rk cty) 4 (nr cty * 4 + 4 - 8) RK
          in Inr \<lparr>nr = nr cty, rk = copy4 (rk cty) p s RK\<rparr>)"

section \<open>The block functions\<close>

type_synonym aes_state = "u32 \<times> u32 \<times> u32 \<times> u32"

definition AES_FROUND :: "rkeys \<Rightarrow> nat \<Rightarrow> aes_state \<Rightarrow> aes_state" where
  "AES_FROUND RK p = (\<lambda>(y0, y1, y2, y3).
     let ft = (\<lambda>a b c d. FT0 ! unat (MBEDTLS_BYTE 0 a) XOR FT1 ! unat (MBEDTLS_BYTE 1 b)
                 XOR FT2 ! unat (MBEDTLS_BYTE 2 c) XOR FT3 ! unat (MBEDTLS_BYTE 3 d))
     in (RK p XOR ft y0 y1 y2 y3, RK (p + 1) XOR ft y1 y2 y3 y0,
         RK (p + 2) XOR ft y2 y3 y0 y1, RK (p + 3) XOR ft y3 y0 y1 y2))"

definition AES_RROUND :: "rkeys \<Rightarrow> nat \<Rightarrow> aes_state \<Rightarrow> aes_state" where
  "AES_RROUND RK p = (\<lambda>(y0, y1, y2, y3).
     let rt = (\<lambda>a b c d. RT0 ! unat (MBEDTLS_BYTE 0 a) XOR RT1 ! unat (MBEDTLS_BYTE 1 b)
                 XOR RT2 ! unat (MBEDTLS_BYTE 2 c) XOR RT3 ! unat (MBEDTLS_BYTE 3 d))
     in (RK p XOR rt y0 y3 y2 y1, RK (p + 1) XOR rt y1 y0 y3 y2,
         RK (p + 2) XOR rt y2 y1 y0 y3, RK (p + 3) XOR rt y3 y2 y1 y0))"

text \<open>The loop that runs two rounds a turn, for the forward and the reverse rounds.\<close>

fun round_pairs :: "(nat \<Rightarrow> aes_state \<Rightarrow> aes_state) \<Rightarrow> nat \<Rightarrow> nat \<Rightarrow> aes_state \<Rightarrow> aes_state \<times> nat" where
  "round_pairs rnd 0 p x = (x, p)"
| "round_pairs rnd (Suc i) p x = round_pairs rnd i (p + 8) (rnd (p + 4) (rnd p x))"

definition load_state :: "bytes \<Rightarrow> aes_state" where
  "load_state b = (get_unaligned_le32 b, get_unaligned_le32 (drop 4 b),
     get_unaligned_le32 (drop 8 b), get_unaligned_le32 (drop 12 b))"

definition store_state :: "aes_state \<Rightarrow> bytes" where
  "store_state = (\<lambda>(a, b, c, d). put_unaligned_le32 a @ put_unaligned_le32 b
     @ put_unaligned_le32 c @ put_unaligned_le32 d)"

definition add_round_key :: "rkeys \<Rightarrow> nat \<Rightarrow> aes_state \<Rightarrow> aes_state" where
  "add_round_key RK p = (\<lambda>(a, b, c, d). (a XOR RK p, b XOR RK (p + 1), c XOR RK (p + 2), d XOR RK (p + 3)))"

definition mbedtls_internal_aes_encrypt :: "mbedtls_aes_context \<Rightarrow> bytes \<Rightarrow> bytes" where
  "mbedtls_internal_aes_encrypt ctx input =
     (let RK = rk ctx;
          x = add_round_key RK 0 (load_state input);
          (x, p) = round_pairs (AES_FROUND RK) (nr ctx div 2 - 1) 4 x;
          (y0, y1, y2, y3) = AES_FROUND RK p x;
          p = p + 4;
          s = (\<lambda>a b c d. sub_bytes4 FSb (MBEDTLS_BYTE 0 a) (MBEDTLS_BYTE 1 b) (MBEDTLS_BYTE 2 c) (MBEDTLS_BYTE 3 d))
      in store_state (RK p XOR s y0 y1 y2 y3, RK (p + 1) XOR s y1 y2 y3 y0,
           RK (p + 2) XOR s y2 y3 y0 y1, RK (p + 3) XOR s y3 y0 y1 y2))"

definition mbedtls_internal_aes_decrypt :: "mbedtls_aes_context \<Rightarrow> bytes \<Rightarrow> bytes" where
  "mbedtls_internal_aes_decrypt ctx input =
     (let RK = rk ctx;
          x = add_round_key RK 0 (load_state input);
          (x, p) = round_pairs (AES_RROUND RK) (nr ctx div 2 - 1) 4 x;
          (y0, y1, y2, y3) = AES_RROUND RK p x;
          p = p + 4;
          s = (\<lambda>a b c d. sub_bytes4 RSb (MBEDTLS_BYTE 0 a) (MBEDTLS_BYTE 1 b) (MBEDTLS_BYTE 2 c) (MBEDTLS_BYTE 3 d))
      in store_state (RK p XOR s y0 y3 y2 y1, RK (p + 1) XOR s y1 y0 y3 y2,
           RK (p + 2) XOR s y2 y1 y0 y3, RK (p + 3) XOR s y3 y2 y1 y0))"

datatype aes_mode = MBEDTLS_AES_ENCRYPT | MBEDTLS_AES_DECRYPT

fun mbedtls_aes_crypt_ecb :: "mbedtls_aes_context \<Rightarrow> aes_mode \<Rightarrow> bytes \<Rightarrow> bytes" where
  "mbedtls_aes_crypt_ecb ctx MBEDTLS_AES_ENCRYPT input = mbedtls_internal_aes_encrypt ctx input"
| "mbedtls_aes_crypt_ecb ctx MBEDTLS_AES_DECRYPT input = mbedtls_internal_aes_decrypt ctx input"

section \<open>The field GF(2^8)\<close>

lemma bits8: "(x :: u8) = y \<longleftrightarrow> (\<forall>n \<in> {0, 1, 2, 3, 4, 5, 6, 7}. bit x n = bit y n)"
proof
  assume eq: "\<forall>n \<in> {0, 1, 2, 3, 4, 5, 6, 7}. bit x n = bit y n"
  show "x = y"
  proof (rule bit_word_eqI)
    fix n assume "n < LENGTH(8)"
    then have "n \<in> {0, 1, 2, 3, 4, 5, 6, 7}" by auto
    with eq show "bit x n = bit y n" by blast
  qed
qed simp

lemma bit7: "(x AND 0x80 \<noteq> 0) = bit (x :: u8) 7"
proof -
  have "(0x80 :: u8) = 2 ^ 7" by simp
  then show ?thesis by (simp only: and_exp_eq_0_iff_not_bit) simp
qed

lemma XTIME_alt: "XTIME x = push_bit 1 x XOR (if bit x 7 then 0x1B else 0)"
  unfolding XTIME_def bit7 ..

lemma bit_XTIME:
  "bit (XTIME x) 0 = bit x 7" "bit (XTIME x) (Suc 0) = (bit x 0 \<noteq> bit x 7)"
  "bit (XTIME x) 2 = bit x (Suc 0)" "bit (XTIME x) 3 = (bit x 2 \<noteq> bit x 7)"
  "bit (XTIME x) 4 = (bit x 3 \<noteq> bit x 7)" "bit (XTIME x) 5 = bit x 4"
  "bit (XTIME x) 6 = bit x 5" "bit (XTIME x) 7 = bit x 6"
  by (simp_all add: XTIME_alt bit_xor_iff bit_push_bit_iff del: push_bit_Suc)

lemma XTIME_xor: "XTIME (a XOR b) = XTIME a XOR XTIME b"
  by (auto simp: XTIME_def bit7 bit_simps xor.assoc xor.left_commute xor.commute push_bit_xor)

lemma XTIME_0 [simp]: "XTIME 0 = 0"
  by (simp add: XTIME_def)

definition gen :: "u8 \<Rightarrow> u8" where
  "gen x = x XOR XTIME x"

lemma gen_0 [simp]: "gen 0 = 0"
  by (simp add: gen_def)

lemma gen_xor: "gen (a XOR b) = gen a XOR gen b"
  by (simp add: gen_def XTIME_xor xor.assoc xor.left_commute xor.commute)

lemma gen_XTIME: "XTIME (gen x) = gen (XTIME x)"
  by (simp add: gen_def XTIME_xor)

lemma gen_eq_0: "gen x = 0 \<longleftrightarrow> x = 0"
proof
  assume "gen x = 0"
  then have "XTIME x = x" using xor_cancel_left [of x "XTIME x"] by (simp add: gen_def)
  then show "x = 0"
    by (auto simp: bits8 bit_XTIME)
qed simp

lemma gen_inj: "gen x = gen y \<longleftrightarrow> x = y"
proof
  assume "gen x = gen y"
  then have "gen (x XOR y) = 0" by (simp add: gen_xor)
  then show "x = y" using xor_cancel_left [of x y] by (simp add: gen_eq_0)
qed simp

definition pw :: "nat \<Rightarrow> u8" where
  "pw n = (gen ^^ n) 1"

lemma pw_0 [simp]: "pw 0 = 1" and pw_Suc: "pw (Suc n) = gen (pw n)"
  by (simp_all add: pw_def)

lemma pw_add: "pw (m + n) = (gen ^^ m) (pw n)"
  by (simp add: pw_def funpow_add)

lemma gen_funpow_inj: "(gen ^^ n) x = (gen ^^ n) y \<longleftrightarrow> x = y"
  by (induction n) (simp_all add: gen_inj)

lemma pw_nonzero: "pw n \<noteq> 0"
  by (induction n) (simp_all add: pw_Suc gen_eq_0)

lemma pow_loop_funpow: "pow_loop n x = map (\<lambda>i. (gen ^^ i) x) [0..<n]"
proof (induction n arbitrary: x)
  case (Suc n)
  have "map (\<lambda>i. (gen ^^ i) x) [0..<Suc n] = x # map (\<lambda>i. (gen ^^ Suc i) x) [0..<n]"
    by (simp add: upt_conv_Cons map_Suc_upt [symmetric] comp_def del: upt_Suc funpow.simps(2))
  then show ?case using Suc by (simp add: funpow_swap1 flip: gen_def)
qed simp

lemma nth_pow_tab: "i < 256 \<Longrightarrow> pow_tab ! i = pw i"
  by (simp add: pow_tab_def pow_loop_funpow pw_def)

text \<open>The order of the generator is 255: its powers at the maximal proper divisors differ from 1.\<close>

lemma gen_funpow_15: "(gen ^^ 15) x = gen (gen (gen (gen (gen (gen (gen (gen (gen (gen (gen (gen (gen (gen (gen (x)))))))))))))))"
  by (simp add: eval_nat_numeral)

lemma gen_funpow_17: "(gen ^^ 17) x = gen (gen ((gen ^^ 15) x))"
  by (simp add: eval_nat_numeral)

lemma pw_step: "pw (n + 17) = (gen ^^ 17) (pw n)"
  by (simp add: pw_add [symmetric] add.commute)

lemma pw_multiples_17:
  "pw 17 = 0xE1"
  "pw 34 = 0x5C"
  "pw 51 = 0x0C"
  "pw 68 = 0xE0"
  "pw 85 = 0xBD"
  "pw 102 = 0x50"
  "pw 119 = 0xEC"
  "pw 136 = 0x5D"
  "pw 153 = 0xED"
  "pw 170 = 0xBC"
  "pw 187 = 0xB1"
  "pw 204 = 0xB0"
  "pw 221 = 0x51"
  "pw 238 = 0x0D"
  "pw 255 = 0x01"
proof -
  show p1: "pw 17 = 0xE1"
    using pw_step [of 0] by (simp add: gen_funpow_17 gen_funpow_15 gen_def XTIME_def)
  show p2: "pw 34 = 0x5C"
    using pw_step [of 17] by (simp add: p1 gen_funpow_17 gen_funpow_15 gen_def XTIME_def)
  show p3: "pw 51 = 0x0C"
    using pw_step [of 34] by (simp add: p2 gen_funpow_17 gen_funpow_15 gen_def XTIME_def)
  show p4: "pw 68 = 0xE0"
    using pw_step [of 51] by (simp add: p3 gen_funpow_17 gen_funpow_15 gen_def XTIME_def)
  show p5: "pw 85 = 0xBD"
    using pw_step [of 68] by (simp add: p4 gen_funpow_17 gen_funpow_15 gen_def XTIME_def)
  show p6: "pw 102 = 0x50"
    using pw_step [of 85] by (simp add: p5 gen_funpow_17 gen_funpow_15 gen_def XTIME_def)
  show p7: "pw 119 = 0xEC"
    using pw_step [of 102] by (simp add: p6 gen_funpow_17 gen_funpow_15 gen_def XTIME_def)
  show p8: "pw 136 = 0x5D"
    using pw_step [of 119] by (simp add: p7 gen_funpow_17 gen_funpow_15 gen_def XTIME_def)
  show p9: "pw 153 = 0xED"
    using pw_step [of 136] by (simp add: p8 gen_funpow_17 gen_funpow_15 gen_def XTIME_def)
  show p10: "pw 170 = 0xBC"
    using pw_step [of 153] by (simp add: p9 gen_funpow_17 gen_funpow_15 gen_def XTIME_def)
  show p11: "pw 187 = 0xB1"
    using pw_step [of 170] by (simp add: p10 gen_funpow_17 gen_funpow_15 gen_def XTIME_def)
  show p12: "pw 204 = 0xB0"
    using pw_step [of 187] by (simp add: p11 gen_funpow_17 gen_funpow_15 gen_def XTIME_def)
  show p13: "pw 221 = 0x51"
    using pw_step [of 204] by (simp add: p12 gen_funpow_17 gen_funpow_15 gen_def XTIME_def)
  show p14: "pw 238 = 0x0D"
    using pw_step [of 221] by (simp add: p13 gen_funpow_17 gen_funpow_15 gen_def XTIME_def)
  show p15: "pw 255 = 0x01"
    using pw_step [of 238] by (simp add: p14 gen_funpow_17 gen_funpow_15 gen_def XTIME_def)
qed

lemma pw_15: "pw 15 = 0x35"
  by (simp add: pw_def gen_funpow_15 gen_def XTIME_def)

lemma pw_255: "pw 255 = 1"
  by (rule pw_multiples_17)

lemma pw_mod: "pw n = 1 \<Longrightarrow> pw (m + n) = pw m"
  using pw_add [of m n] by (simp add: pw_def)

lemma pw_mult: "pw n = 1 \<Longrightarrow> pw (k * n) = 1"
proof (induction k)
  case (Suc k)
  then show ?case using pw_mod [of n "k * n"] by (simp add: add.commute)
qed simp

lemma pw_gcd: "pw m = 1 \<Longrightarrow> pw n = 1 \<Longrightarrow> 0 < m \<Longrightarrow> pw (gcd m n) = 1"
proof -
  assume m: "pw m = 1" and n: "pw n = 1" and "0 < m"
  then obtain x y where xy: "m * x = n * y + gcd m n" using bezout_nat [of m n] by auto
  have "pw (m * x) = 1" "pw (n * y) = 1"
    using pw_mult [OF m, of x] pw_mult [OF n, of y] by (simp_all add: mult.commute)
  then show ?thesis using pw_mod [of "n * y" "gcd m n"] xy by (simp add: add.commute)
qed

lemma proper_divisors_255:
  assumes "g dvd 255" "g < 255"
  shows "g dvd 15 \<or> g dvd 51 \<or> g dvd (85 :: nat)"
proof -
  obtain k where k: "255 = g * k" using assms by (elim dvdE)
  have "g * 2 \<noteq> 255" by presburger
  then have "k \<noteq> 0 \<and> k \<noteq> 1 \<and> k \<noteq> 2" using k assms(2) by (intro conjI notI) simp_all
  then have "3 \<le> k" by linarith
  then have "g * 3 \<le> 255" using k mult_le_mono2 [of 3 k g] by simp
  moreover have "g \<noteq> 0" using k by (intro notI) simp
  ultimately have "g = 1 \<or> g \<in> {2..<86}" by (simp only: atLeastLessThan_iff) linarith
  then have "g \<in> set (1 # [2..<86])" by (simp only: set_simps set_upt insert_iff)
  moreover have "\<forall>g \<in> set (1 # [2..<86]). g dvd 255 \<longrightarrow> g dvd 15 \<or> g dvd 51 \<or> g dvd (85 :: nat)"
    by (simp del: set_upt)
  ultimately show ?thesis using assms by blast
qed

lemma pw_eq_1: "pw d = 1 \<Longrightarrow> d < 255 \<Longrightarrow> d = 0"
proof (rule ccontr)
  assume d: "pw d = 1" "d < 255" and "d \<noteq> 0"
  let ?g = "gcd d 255"
  have g: "pw ?g = 1" using d \<open>d \<noteq> 0\<close> by (intro pw_gcd) (simp_all add: pw_255)
  have "?g \<le> d" using \<open>d \<noteq> 0\<close> by (intro gcd_le1_nat)
  then have "?g dvd 15 \<or> ?g dvd 51 \<or> ?g dvd 85" using d by (intro proper_divisors_255) auto
  moreover have "pw n = 1" if "?g dvd n" for n
    using pw_mult [OF g] that by (auto simp: dvd_def mult.commute)
  ultimately have "pw 15 = 1 \<or> pw 51 = 1 \<or> pw 85 = 1" by blast
  then show False by (simp add: pw_15 pw_multiples_17)
qed

lemma pw_inj: "pw i = pw j \<Longrightarrow> i < 255 \<Longrightarrow> j < 255 \<Longrightarrow> i = j"
proof (induction i j rule: linorder_wlog)
  case (le i j)
  then have "(gen ^^ i) (pw (j - i)) = (gen ^^ i) 1" using pw_add [of i "j - i"] by (simp add: pw_def)
  then have "pw (j - i) = 1" by (simp only: gen_funpow_inj)
  moreover have "j - i < 255" using le by simp
  ultimately show ?case using le pw_eq_1 [of "j - i"] by simp
qed (simp add: eq_commute)

lemma pw_surj:
  assumes "x \<noteq> 0"
  obtains i where "0 < i" "i \<le> 255" "pw i = x"
proof -
  have "inj_on pw {..<255}" by (auto intro: inj_onI pw_inj)
  then have "card (pw ` {..<255}) = 255" by (simp add: card_image)
  moreover have "card (UNIV - {0 :: u8}) = 255" by (simp add: card_Diff_singleton card_word)
  ultimately have "pw ` {..<255} = UNIV - {0}"
    by (intro card_subset_eq) (auto simp: pw_nonzero)
  with assms have "x \<in> pw ` {..<255}" by simp
  then obtain i where i: "i < 255" "pw i = x" by auto
  show ?thesis
  proof (cases "i = 0")
    case True
    with i have "pw 255 = x" by (simp add: pw_255)
    then show ?thesis by (intro that [of 255]) simp_all
  next
    case False
    with i show ?thesis by (intro that [of i]) simp_all
  qed
qed

lemma nth_fold_update:
  assumes "i < length xs" "\<And>j. i < j \<Longrightarrow> j < length xs \<Longrightarrow> f (xs ! j) \<noteq> f (xs ! i)" "f (xs ! i) < length l"
  shows "fold (\<lambda>(i, x) l. l[f x := i]) (enumerate 0 xs) l ! f (xs ! i) = i"
  using assms
proof (induction xs rule: rev_induct)
  case (snoc x xs)
  have len: "length (fold (\<lambda>(i, x) l. l[f x := i]) ys l) = length l" for ys :: "(nat \<times> _) list"
    by (induction ys arbitrary: l) auto
  show ?case
  proof (cases "i = length xs")
    case True
    then show ?thesis using snoc.prems by (simp add: enumerate_append_eq len)
  next
    case False
    then have i: "i < length xs" using snoc.prems by simp
    then have "f x \<noteq> f (xs ! i)" using snoc.prems(2) [of "length xs"] by (simp add: nth_append)
    moreover have "f (xs ! j) \<noteq> f (xs ! i)" if "i < j" "j < length xs" for j
      using snoc.prems(2) [of j] that i by (simp add: nth_append)
    ultimately show ?thesis using snoc.IH i snoc.prems(3)
      by (simp add: enumerate_append_eq nth_append)
  qed
qed simp

lemma length_pow_tab [simp]: "length pow_tab = 256"
  by (simp add: pow_tab_def pow_loop_funpow)

lemma log_pw:
  assumes "0 < i" "i \<le> 255"
  shows "log_tab ! unat (pw i) = i"
proof -
  have "unat (pow_tab ! j) \<noteq> unat (pow_tab ! i)" if "i < j" "j < 256" for j
  proof -
    have "pw j \<noteq> pw i"
    proof (cases "j = 255")
      case True
      then show ?thesis using that assms pw_eq_1 [of i] pw_255 by auto
    next
      case False
      then show ?thesis using that pw_inj [of i j] by auto
    qed
    then show ?thesis using that assms by (auto simp: nth_pow_tab dest: unsigned_word_eqI)
  qed
  moreover have "unat (pow_tab ! i) < 256"
    using unsigned_less [of "pow_tab ! i", where 'a = nat] by simp
  ultimately show ?thesis
    using nth_fold_update [of i pow_tab unat "replicate 256 0"] assms
    by (simp add: log_tab_def nth_pow_tab)
qed

lemma pw_log: "x \<noteq> 0 \<Longrightarrow> pw (log_tab ! unat x) = x"
  and log_range: "x \<noteq> 0 \<Longrightarrow> 0 < log_tab ! unat x \<and> log_tab ! unat x \<le> 255"
  using pw_surj log_pw by metis+

lemma pw_mod_255: "pw (n mod 255) = pw n"
proof -
  have "pw ((n div 255) * 255) = 1" by (rule pw_mult) (rule pw_255)
  from pw_mod [OF this, of "n mod 255"] show ?thesis by simp
qed

lemma MUL_pw: "x \<noteq> 0 \<Longrightarrow> y \<noteq> 0 \<Longrightarrow> MUL x y = pw (log_tab ! unat x + log_tab ! unat y)"
  by (simp add: MUL_def nth_pow_tab pw_mod_255 mod_less_divisor [THEN less_trans])

lemma MUL_operator:
  assumes "c \<noteq> 0" "T 0 = 0" "T 1 = c" "\<And>x. T (gen x) = gen (T x)"
  shows "MUL c x = T x"
proof (cases "x = 0")
  case True
  then show ?thesis using assms by (simp add: MUL_def)
next
  case False
  have "T ((gen ^^ n) y) = (gen ^^ n) (T y)" for n y
    by (induction n) (simp_all add: assms)
  then have "T (pw n) = (gen ^^ n) c" for n using assms(3) by (simp add: pw_def)
  moreover have "(gen ^^ n) c = pw (n + log_tab ! unat c)" for n
    by (simp add: pw_add pw_log assms(1))
  ultimately show ?thesis
    using pw_log [OF False] MUL_pw [OF assms(1) False] by (metis add.commute)
qed

lemma MUL_0E: "MUL 0x0E x = XTIME (XTIME (XTIME x)) XOR XTIME (XTIME x) XOR XTIME x"
  by (rule MUL_operator) (simp_all add: gen_XTIME gen_xor, simp add: XTIME_def)

lemma MUL_0B: "MUL 0x0B x = XTIME (XTIME (XTIME x)) XOR XTIME x XOR x"
  by (rule MUL_operator) (simp_all add: gen_XTIME gen_xor, simp add: XTIME_def)

lemma MUL_0D: "MUL 0x0D x = XTIME (XTIME (XTIME x)) XOR XTIME (XTIME x) XOR x"
  by (rule MUL_operator) (simp_all add: gen_XTIME gen_xor, simp add: XTIME_def)

lemma MUL_09: "MUL 0x09 x = XTIME (XTIME (XTIME x)) XOR x"
  by (rule MUL_operator) (simp_all add: gen_XTIME gen_xor, simp add: XTIME_def)

section \<open>The S-boxes\<close>

text \<open>Inversion in the field (0 to 0), as the table loop computes it.\<close>

definition field_inverse :: "u8 \<Rightarrow> u8" where
  "field_inverse x = (if x = 0 then 0 else pw (255 - log_tab ! unat x))"

lemma field_inverse_0: "field_inverse x = 0 \<longleftrightarrow> x = 0"
  by (simp add: field_inverse_def pw_nonzero)

lemma field_inverse_correct: "x \<noteq> 0 \<Longrightarrow> MUL x (field_inverse x) = 1"
proof -
  assume x: "x \<noteq> 0"
  let ?l = "log_tab ! unat x"
  have inv: "field_inverse x = pw (255 - ?l)" using x by (simp add: field_inverse_def)
  have "MUL x (field_inverse x) = (gen ^^ ?l) (pw (log_tab ! unat (pw (255 - ?l))))"
    using x MUL_pw [of x "field_inverse x"] by (simp add: inv pw_nonzero pw_add)
  also have "\<dots> = pw (?l + (255 - ?l))" by (simp add: pw_log pw_nonzero pw_add)
  also have "\<dots> = 1" using log_range [OF x] by (simp add: pw_255)
  finally show ?thesis .
qed

lemma field_inverse_inj: "field_inverse x = field_inverse y \<Longrightarrow> x = y"
proof (cases "x = 0 \<or> y = 0")
  case True
  assume "field_inverse x = field_inverse y"
  with True show ?thesis using field_inverse_0 by metis
next
  case False
  assume "field_inverse x = field_inverse y"
  with False have "255 - log_tab ! unat x = 255 - log_tab ! unat y"
    using log_range [of x] log_range [of y] by (intro pw_inj) (auto simp: field_inverse_def)
  then have "log_tab ! unat x = log_tab ! unat y" using False log_range [of x] log_range [of y] by arith
  then show ?thesis using False pw_log by metis
qed

lemma bit_rotl1:
  "bit (rotl1 y) 0 = bit y 7" "bit (rotl1 y) (Suc 0) = bit y 0" "bit (rotl1 y) 2 = bit y (Suc 0)"
  "bit (rotl1 y) 3 = bit y 2" "bit (rotl1 y) 4 = bit y 3" "bit (rotl1 y) 5 = bit y 4"
  "bit (rotl1 y) 6 = bit y 5" "bit (rotl1 y) 7 = bit y 6"
  by (simp_all add: rotl1_def bit_or_iff bit_push_bit_iff bit_drop_bit_eq bit_byte_ge del: push_bit_Suc)

lemma sbox_affine_inj: "sbox_affine x = sbox_affine y \<Longrightarrow> x = y"
  by (simp add: sbox_affine_def Let_def bits8 bit_rotl1 bit_xor_iff) argo

definition sub_byte :: "u8 \<Rightarrow> u8" where
  "sub_byte b = sbox_affine (field_inverse b)"

lemma sub_byte_inj: "sub_byte x = sub_byte y \<Longrightarrow> x = y"
  unfolding sub_byte_def by (rule field_inverse_inj, rule sbox_affine_inj)

lemma sub_byte_0: "sub_byte 0 = 0x63"
  by (simp add: sub_byte_def field_inverse_def sbox_affine_def rotl1_def Let_def)

lemma byte_less: "unat (b :: u8) < 256"
  using unsigned_less [of b, where 'a = nat] by simp

lemma of_nat_byte: "n < 256 \<Longrightarrow> unat (of_nat n :: u8) = n"
  by (simp add: unsigned_of_nat take_bit_nat_eq_self)

lemma sbox_table_entry:
  "0 < n \<Longrightarrow> n < 256 \<Longrightarrow> sbox_affine (pow_tab ! (255 - log_tab ! n)) = sub_byte (of_nat n)"
proof -
  assume n: "0 < n" "n < 256"
  then have "unat (of_nat n :: u8) = n" by (simp add: of_nat_byte)
  with n show ?thesis
    by (auto simp: sub_byte_def field_inverse_def nth_pow_tab simp del: unsigned_of_nat)
qed

definition sbox_fill :: "nat \<Rightarrow> bytes \<times> bytes" where
  "sbox_fill n = fold (\<lambda>i (fsb, rsb). let x = sbox_affine (pow_tab ! (255 - log_tab ! i))
                                  in (fsb[i := x], rsb[unat x := of_nat i]))
       [1..<n] ((replicate 256 0)[0 := 0x63], (replicate 256 0)[0x63 := 0])"

lemma sbox_fill_inv:
  "0 < n \<Longrightarrow> n \<le> 256 \<Longrightarrow>
   length (fst (sbox_fill n)) = 256 \<and> length (snd (sbox_fill n)) = 256 \<and>
   (\<forall>i < n. fst (sbox_fill n) ! i = sub_byte (of_nat i) \<and>
            snd (sbox_fill n) ! unat (sub_byte (of_nat i)) = of_nat i)"
proof (induction n)
  case (Suc n)
  show ?case
  proof (cases "n = 0")
    case True
    then show ?thesis by (simp add: sbox_fill_def sub_byte_0)
  next
    case False
    let ?x = "sub_byte (of_nat n)"
    have step: "sbox_fill (Suc n) = ((fst (sbox_fill n))[n := ?x], (snd (sbox_fill n))[unat ?x := of_nat n])"
      using False Suc.prems by (simp add: sbox_fill_def sbox_table_entry case_prod_beta Let_def)
    have "unat ?x \<noteq> unat (sub_byte (of_nat i))" if "i < n" for i
    proof
      assume "unat ?x = unat (sub_byte (of_nat i))"
      then have "(of_nat n :: u8) = of_nat i" by (rule sub_byte_inj [OF unsigned_word_eqI])
      then have "unat (of_nat n :: u8) = unat (of_nat i :: u8)" by (rule arg_cong)
      with that Suc.prems show False by (simp add: of_nat_byte del: unsigned_of_nat)
    qed
    then show ?thesis
      using Suc.IH Suc.prems False byte_less [of ?x] unfolding step
      by (auto simp: less_Suc_eq nth_list_update)
  qed
qed simp

lemma sbox_tables_fill: "sbox_tables = sbox_fill 256"
  unfolding sbox_tables_def sbox_fill_def ..

lemma length_FSb [simp]: "length FSb = 256" and length_RSb [simp]: "length RSb = 256"
  using sbox_fill_inv [of 256] by (simp_all add: FSb_def RSb_def sbox_tables_fill)

lemma FSb_sub_byte: "FSb ! unat b = sub_byte b"
  using sbox_fill_inv [of 256] byte_less [of b] by (simp add: FSb_def sbox_tables_fill)

lemma RSb_FSb: "RSb ! unat (FSb ! unat b) = b"
proof -
  have "\<forall>i < 256. snd (sbox_fill 256) ! unat (sub_byte (of_nat i)) = of_nat i"
    using sbox_fill_inv [of 256] by simp
  then have "snd (sbox_fill 256) ! unat (sub_byte (of_nat (unat b))) = of_nat (unat b)"
    using byte_less [of b] by blast
  then show ?thesis by (simp add: FSb_sub_byte) (simp add: RSb_def sbox_tables_fill)
qed

lemma FSb_RSb: "FSb ! unat (RSb ! unat b) = b"
proof -
  have "inj sub_byte" by (auto intro: injI sub_byte_inj)
  then have "surj sub_byte" by (intro finite_UNIV_inj_surj) simp_all
  then obtain a where "b = sub_byte a" by (elim surjE)
  then show ?thesis using RSb_FSb [of a] by (simp add: FSb_sub_byte)
qed

section \<open>Mixing columns\<close>

text \<open>A column is a word made of four bytes.\<close>

definition quad_word :: "u8 \<Rightarrow> u8 \<Rightarrow> u8 \<Rightarrow> u8 \<Rightarrow> u32" where
  "quad_word a b c d = ucast a XOR push_bit 8 (ucast b) XOR push_bit 16 (ucast c) XOR push_bit 24 (ucast d)"

lemma bit_quad_word:
  "bit (quad_word a b c d) n =
    (if n < 8 then bit a n else if n < 16 then bit b (n - 8)
     else if n < 24 then bit c (n - 16) else bit d (n - 24))"
proof -
  consider "n < 8" | "8 \<le> n" "n < 16" | "16 \<le> n" "n < 24" | "24 \<le> n" "n < 32" | "32 \<le> n"
    by linarith
  then show ?thesis
    by cases (auto simp: quad_word_def bit_xor_iff bit_push_bit_iff bit_unsigned_iff bit_byte_ge)
qed

lemma bit_BYTE: "bit (MBEDTLS_BYTE k w) n \<longleftrightarrow> n < 8 \<and> bit w (8 * k + n)"
  by (simp add: MBEDTLS_BYTE_def bit_unsigned_iff bit_drop_bit_eq)

lemma BYTE_quad_word [simp]:
  "MBEDTLS_BYTE 0 (quad_word a b c d) = a" "MBEDTLS_BYTE (Suc 0) (quad_word a b c d) = b"
  "MBEDTLS_BYTE 2 (quad_word a b c d) = c" "MBEDTLS_BYTE 3 (quad_word a b c d) = d"
  by (auto intro!: bit_word_eqI simp: bit_BYTE bit_quad_word)

lemma quad_word_BYTE:
  "quad_word (MBEDTLS_BYTE 0 w) (MBEDTLS_BYTE (Suc 0) w) (MBEDTLS_BYTE 2 w) (MBEDTLS_BYTE 3 w) = w"
  by (rule bit_word_eqI) (auto simp: bit_BYTE bit_quad_word)

lemma quad_word_cases: obtains a b c d where "w = quad_word a b c d"
  using quad_word_BYTE [of w, symmetric] by (rule that)

lemma quad_word_xor:
  "quad_word a b c d XOR quad_word a' b' c' d' =
   quad_word (a XOR a') (b XOR b') (c XOR c') (d XOR d')"
  by (simp add: quad_word_def unsigned_xor_eq push_bit_xor xor.assoc xor.left_commute xor.commute)

lemma ROTL8_quad_word: "ROTL8 (quad_word a b c d) = quad_word d a b c"
proof (rule bit_word_eqI)
  fix n assume "n < LENGTH(32)"
  then show "bit (ROTL8 (quad_word a b c d)) n = bit (quad_word d a b c) n"
    by (cases "n < 8") (auto simp: ROTL8_def bit_or_iff bit_push_bit_iff bit_drop_bit_eq bit_quad_word bit_byte_ge)
qed

lemmas column = quad_word_xor ROTL8_quad_word BYTE_quad_word

text \<open>\<open>mix f\<close> adds the rotated images of the four bytes of a column.\<close>

definition mix :: "(u8 \<Rightarrow> u32) \<Rightarrow> u32 \<Rightarrow> u32" where
  "mix f w = f (MBEDTLS_BYTE 0 w) XOR ROTL8 (f (MBEDTLS_BYTE 1 w))
     XOR ROTL8 (ROTL8 (f (MBEDTLS_BYTE 2 w))) XOR ROTL8 (ROTL8 (ROTL8 (f (MBEDTLS_BYTE 3 w))))"

definition mix_column :: "u32 \<Rightarrow> u32" where "mix_column = mix FT0_entry"
definition inv_mix_column :: "u32 \<Rightarrow> u32" where "inv_mix_column = mix RT0_entry"

lemma FT0_entry_quad: "FT0_entry x = quad_word (XTIME x) x x (XTIME x XOR x)"
  by (simp add: FT0_entry_def quad_word_def Let_def)

lemma RT0_entry_quad: "RT0_entry x = quad_word (MUL 0x0E x) (MUL 0x09 x) (MUL 0x0D x) (MUL 0x0B x)"
  by (simp add: RT0_entry_def quad_word_def)

lemmas MULs = MUL_0E MUL_0B MUL_0D MUL_09

lemma mix_ROTL8: "mix f (ROTL8 w) = ROTL8 (mix f w)"
proof -
  obtain a b c d where w: "w = quad_word a b c d" by (rule quad_word_cases)
  obtain p q r s where f: "f a = p" "f b = q" "f c = r" "f d = s" by blast
  show ?thesis
    by (rule quad_word_cases [of p]; rule quad_word_cases [of q];
        rule quad_word_cases [of r]; rule quad_word_cases [of s])
      (simp add: w mix_def column f xor.assoc xor.left_commute xor.commute)
qed

lemma ROTL8_xor: "ROTL8 (v XOR w) = ROTL8 v XOR ROTL8 w"
  by (rule quad_word_cases [of v]; rule quad_word_cases [of w]) (simp add: column)

lemma BYTE_xor: "MBEDTLS_BYTE n (v XOR w) = MBEDTLS_BYTE n v XOR MBEDTLS_BYTE n w"
  by (auto intro!: bit_word_eqI simp: MBEDTLS_BYTE_def bit_simps)

lemma mix_xor:
  assumes "\<And>a b. f (a XOR b) = f a XOR f b"
  shows "mix f (v XOR w) = mix f v XOR mix f w"
  by (simp add: mix_def BYTE_xor assms ROTL8_xor xor.assoc xor.left_commute xor.commute)

text \<open>Two mixes cancel when the inner one is undone on a single byte.\<close>

lemma mix_mix:
  assumes "\<And>a b. g (a XOR b) = g a XOR g b" "\<And>b. mix g (f b) = quad_word b 0 0 0"
  shows "mix g (mix f w) = w"
proof -
  obtain a b c d where w: "w = quad_word a b c d" by (rule quad_word_cases)
  show ?thesis
    unfolding mix_def [of f] w by (simp add: mix_xor [of g, OF assms(1)] mix_ROTL8 assms(2) column)
qed

lemma FT0_entry_xor: "FT0_entry (a XOR b) = FT0_entry a XOR FT0_entry b"
  by (simp add: FT0_entry_quad column XTIME_xor xor.assoc xor.left_commute xor.commute)

lemma RT0_entry_xor: "RT0_entry (a XOR b) = RT0_entry a XOR RT0_entry b"
  by (simp add: RT0_entry_quad column MULs XTIME_xor xor.assoc xor.left_commute xor.commute)

lemma inv_mix_mix [simp]: "inv_mix_column (mix_column w) = w"
  unfolding mix_column_def inv_mix_column_def
proof (rule mix_mix [of RT0_entry FT0_entry, OF RT0_entry_xor])
  show "mix RT0_entry (FT0_entry b) = quad_word b 0 0 0" for b
    by (simp add: mix_def FT0_entry_quad RT0_entry_quad column MULs XTIME_xor
        xor.assoc xor.left_commute xor.commute)
qed

lemma inv_mix_xor: "inv_mix_column (v XOR w) = inv_mix_column v XOR inv_mix_column w"
  unfolding inv_mix_column_def by (rule mix_xor [of RT0_entry, OF RT0_entry_xor])

section \<open>The rounds in textbook form\<close>

definition map_state :: "(u32 \<Rightarrow> u32) \<Rightarrow> aes_state \<Rightarrow> aes_state" where
  "map_state f = (\<lambda>(a, b, c, d). (f a, f b, f c, f d))"

definition sub_shift :: "aes_state \<Rightarrow> aes_state" where
  "sub_shift = (\<lambda>(y0, y1, y2, y3).
     let s = (\<lambda>a b c d. sub_bytes4 FSb (MBEDTLS_BYTE 0 a) (MBEDTLS_BYTE 1 b) (MBEDTLS_BYTE 2 c) (MBEDTLS_BYTE 3 d))
     in (s y0 y1 y2 y3, s y1 y2 y3 y0, s y2 y3 y0 y1, s y3 y0 y1 y2))"

definition inv_sub_shift :: "aes_state \<Rightarrow> aes_state" where
  "inv_sub_shift = (\<lambda>(y0, y1, y2, y3).
     let s = (\<lambda>a b c d. sub_bytes4 RSb (MBEDTLS_BYTE 0 a) (MBEDTLS_BYTE 1 b) (MBEDTLS_BYTE 2 c) (MBEDTLS_BYTE 3 d))
     in (s y0 y3 y2 y1, s y1 y0 y3 y2, s y2 y1 y0 y3, s y3 y2 y1 y0))"

lemma sub_bytes4_quad:
  "sub_bytes4 sb b0 b1 b2 b3 = quad_word (sb ! unat b0) (sb ! unat b1) (sb ! unat b2) (sb ! unat b3)"
  by (simp add: sub_bytes4_def quad_word_def)

lemma quad_word_BYTE': "quad_word (MBEDTLS_BYTE 0 w) (MBEDTLS_BYTE 1 w) (MBEDTLS_BYTE 2 w) (MBEDTLS_BYTE 3 w) = w"
  using quad_word_BYTE [of w] by simp

lemma inv_sub_shift_sub_shift [simp]: "inv_sub_shift (sub_shift y) = y"
  by (cases y) (simp add: inv_sub_shift_def sub_shift_def Let_def sub_bytes4_quad RSb_FSb quad_word_BYTE)

lemma FT_nth:
  "FT0 ! unat (b :: u8) = FT0_entry (FSb ! unat b)" "FT1 ! unat (b :: u8) = ROTL8 (FT0_entry (FSb ! unat b))"
  "FT2 ! unat (b :: u8) = ROTL8 (ROTL8 (FT0_entry (FSb ! unat b)))"
  "FT3 ! unat (b :: u8) = ROTL8 (ROTL8 (ROTL8 (FT0_entry (FSb ! unat b))))"
  using byte_less [of b] by (simp_all add: FT0_def FT1_def FT2_def FT3_def)

lemma RT_nth:
  "RT0 ! unat (b :: u8) = RT0_entry (RSb ! unat b)" "RT1 ! unat (b :: u8) = ROTL8 (RT0_entry (RSb ! unat b))"
  "RT2 ! unat (b :: u8) = ROTL8 (ROTL8 (RT0_entry (RSb ! unat b)))"
  "RT3 ! unat (b :: u8) = ROTL8 (ROTL8 (ROTL8 (RT0_entry (RSb ! unat b))))"
  using byte_less [of b] by (simp_all add: RT0_def RT1_def RT2_def RT3_def)

lemma AES_FROUND_textbook:
  "AES_FROUND RK p y = add_round_key RK p (map_state mix_column (sub_shift y))"
  by (cases y) (simp add: AES_FROUND_def add_round_key_def map_state_def sub_shift_def Let_def FT_nth
      mix_column_def mix_def sub_bytes4_quad xor.assoc xor.left_commute xor.commute)

lemma AES_RROUND_textbook:
  "AES_RROUND RK p y = add_round_key RK p (map_state inv_mix_column (inv_sub_shift y))"
  by (cases y) (simp add: AES_RROUND_def add_round_key_def map_state_def inv_sub_shift_def Let_def RT_nth
      inv_mix_column_def mix_def sub_bytes4_quad xor.assoc xor.left_commute xor.commute)

lemma inv_mix_word_column: "inv_mix_word w = inv_mix_column w"
  by (simp add: inv_mix_word_def inv_mix_column_def mix_def RT_nth RSb_FSb)

text \<open>\<open>n\<close> rounds one after the other, the round keys of the next round four words further.\<close>

fun rounds :: "(nat \<Rightarrow> aes_state \<Rightarrow> aes_state) \<Rightarrow> nat \<Rightarrow> nat \<Rightarrow> aes_state \<Rightarrow> aes_state" where
  "rounds rnd 0 p x = x"
| "rounds rnd (Suc n) p x = rnd (p + 4 * n) (rounds rnd n p x)"

lemma rounds_Suc_front: "rounds rnd (Suc n) p x = rounds rnd n (p + 4) (rnd p x)"
proof (induction n)
  case (Suc n)
  have "rounds rnd (Suc (Suc n)) p x = rnd (p + 4 * Suc n) (rounds rnd n (p + 4) (rnd p x))"
    by (simp only: Suc.IH rounds.simps(2) [of _ "Suc n"])
  then show ?case by (simp add: add.assoc)
qed simp

lemma round_pairs_rounds: "round_pairs rnd i p x = (rounds rnd (2 * i) p x, p + 8 * i)"
proof (induction i arbitrary: p x)
  case (Suc i)
  have "rounds rnd (Suc (Suc (2 * i))) p x = rounds rnd (2 * i) (p + 8) (rnd (p + 4) (rnd p x))"
    by (simp only: rounds_Suc_front) (simp add: add.assoc)
  then show ?case using Suc by simp
qed simp

lemma even_rounds:
  assumes "even n" "2 \<le> n"
  obtains i where "n = 2 * Suc i"
proof -
  from assms obtain k where "n = 2 * k" "k \<noteq> 0" by (auto elim!: evenE)
  then show ?thesis by (intro that [of "k - 1"]) simp
qed

lemma last_round_position: "2 * Suc i div 2 - 1 = i" "2 * Suc i - 1 = Suc (2 * i)"
    "4 + 8 * i + 4 = 4 * (2 * Suc i)" "4 + 4 * (2 * i) = 4 + 8 * i" for i :: nat
  by simp_all

lemma internal_aes_encrypt_rounds:
  assumes "even (nr ctx)" "2 \<le> nr ctx"
  shows "mbedtls_internal_aes_encrypt ctx b = store_state (add_round_key (rk ctx) (4 * nr ctx)
    (sub_shift (rounds (AES_FROUND (rk ctx)) (nr ctx - 1) 4 (add_round_key (rk ctx) 0 (load_state b)))))"
proof -
  obtain i where i: "nr ctx = 2 * Suc i" using assms by (rule even_rounds)
  show ?thesis
    unfolding mbedtls_internal_aes_encrypt_def Let_def i round_pairs_rounds last_round_position rounds.simps
      prod.case
    by (cases "AES_FROUND (rk ctx) (4 + 8 * i) (rounds (AES_FROUND (rk ctx)) (2 * i) 4 (add_round_key (rk ctx) 0 (load_state b)))")
      (simp only: prod.case sub_shift_def add_round_key_def [of _ "4 * (2 * Suc i)"] Let_def xor.commute)
qed

lemma internal_aes_decrypt_rounds:
  assumes "even (nr ctx)" "2 \<le> nr ctx"
  shows "mbedtls_internal_aes_decrypt ctx b = store_state (add_round_key (rk ctx) (4 * nr ctx)
    (inv_sub_shift (rounds (AES_RROUND (rk ctx)) (nr ctx - 1) 4 (add_round_key (rk ctx) 0 (load_state b)))))"
proof -
  obtain i where i: "nr ctx = 2 * Suc i" using assms by (rule even_rounds)
  show ?thesis
    unfolding mbedtls_internal_aes_decrypt_def Let_def i round_pairs_rounds last_round_position rounds.simps
      prod.case
    by (cases "AES_RROUND (rk ctx) (4 + 8 * i) (rounds (AES_RROUND (rk ctx)) (2 * i) 4 (add_round_key (rk ctx) 0 (load_state b)))")
      (simp only: prod.case inv_sub_shift_def add_round_key_def [of _ "4 * (2 * Suc i)"] Let_def xor.commute)
qed

section \<open>The decryption key schedule\<close>

text \<open>What the equivalent inverse cipher needs of the key schedule for decryption: the round keys
  in reverse order, all but the first and the last one mixed.\<close>

definition inverse_schedule :: "nat \<Rightarrow> rkeys \<Rightarrow> rkeys \<Rightarrow> bool" where
  "inverse_schedule n ek dk \<longleftrightarrow>
     (\<forall>j < 4. dk j = ek (4 * n + j)) \<and>
     (\<forall>i j. 0 < i \<longrightarrow> i < n \<longrightarrow> j < 4 \<longrightarrow> dk (4 * i + j) = inv_mix_column (ek (4 * (n - i) + j))) \<and>
     (\<forall>j < 4. dk (4 * n + j) = ek j)"

lemma fold_upd4:
  "fold (\<lambda>j RK. RK(p + j := f j)) [0..<4] RK = RK(p := f 0, p + 1 := f 1, p + 2 := f 2, p + 3 := (f 3 :: u32))"
  by (simp add: upt_rec numeral_2_eq_2 numeral_3_eq_3)

lemma less_4: "j < 4 \<longleftrightarrow> j = 0 \<or> j = 1 \<or> j = 2 \<or> j = (3 :: nat)"
  by linarith

lemma dec_schedule_result:
  "\<exists>RK'. dec_schedule i sk p (4 * i) RK = (RK', p + 4 * i, 0) \<and> (\<forall>q < p. RK' q = RK q) \<and>
     (\<forall>t < i. \<forall>j < 4. RK' (p + 4 * t + j) = inv_mix_word (sk (4 * (i - t) + j)))"
proof (induction i arbitrary: p RK)
  case (Suc i)
  let ?f = "\<lambda>j. inv_mix_word (sk (4 * Suc i + j))"
  let ?RK = "fold (\<lambda>j RK. RK(p + j := ?f j)) [0..<4] RK"
  obtain RK' where RK': "dec_schedule i sk (p + 4) (4 * i) ?RK = (RK', p + 4 + 4 * i, 0)"
    and low: "\<forall>q < p + 4. RK' q = ?RK q"
    and high: "\<forall>t < i. \<forall>j < 4. RK' (p + 4 + 4 * t + j) = inv_mix_word (sk (4 * (i - t) + j))"
    using Suc.IH [of "p + 4" ?RK] by auto
  have "dec_schedule (Suc i) sk p (4 * Suc i) RK = (RK', p + 4 * Suc i, 0)"
    using RK' by (simp add: add.assoc)
  moreover have "RK' q = RK q" if "q < p" for q
    using low that by (simp add: fold_upd4)
  moreover have "RK' (p + 4 * t + j) = inv_mix_word (sk (4 * (Suc i - t) + j))" if "t < Suc i" "j < 4" for t j
  proof (cases t)
    case 0
    then show ?thesis using low that by (auto simp: fold_upd4 less_4)
  next
    case (Suc u)
    then show ?thesis using high that by (auto simp: add.assoc add.left_commute)
  qed
  ultimately show ?case by blast
qed simp

lemma copy4_apply: "copy4 sk p s RK q = (if p \<le> q \<and> q < p + 4 then sk (s + (q - p)) else RK q)"
proof -
  consider "q < p" | "q = p" | "q = p + 1" | "q = p + 2" | "q = p + 3" | "p + 4 \<le> q" by linarith
  then show ?thesis by cases (simp_all add: copy4_def)
qed

lemma setkey_enc_nr:
  "mbedtls_aes_setkey_enc key keybits = Inr e \<Longrightarrow> even (nr e) \<and> 2 \<le> nr e"
  by (auto simp: mbedtls_aes_setkey_enc_def Let_def split: if_splits)

lemma setkey_dec_schedule:
  assumes "mbedtls_aes_setkey_enc key keybits = Inr e" "mbedtls_aes_setkey_dec key keybits = Inr d"
  shows "nr d = nr e \<and> inverse_schedule (nr e) (rk e) (rk d)"
proof -
  obtain n where n: "nr e = Suc n" using setkey_enc_nr [OF assms(1)] by (cases "nr e") auto
  let ?RK = "copy4 (rk e) 0 (nr e * 4) (\<lambda>_. 0)"
  obtain RK' where RK': "dec_schedule n (rk e) 4 (4 * n) ?RK = (RK', 4 + 4 * n, 0)"
    and low: "\<forall>q < 4. RK' q = ?RK q"
    and high: "\<forall>t < n. \<forall>j < 4. RK' (4 + 4 * t + j) = inv_mix_word (rk e (4 * (n - t) + j))"
    using dec_schedule_result [of n "rk e" 4 ?RK] by auto
  have d: "d = \<lparr>nr = Suc n, rk = copy4 (rk e) (4 + 4 * n) 0 RK'\<rparr>"
    using assms RK' by (simp add: mbedtls_aes_setkey_dec_def Let_def n mult.commute)
  have "rk d (4 * i + j) = inv_mix_column (rk e (4 * (Suc n - i) + j))" if "0 < i" "i < Suc n" "j < 4" for i j
  proof -
    from \<open>0 < i\<close> obtain t where t: "i = Suc t" by (cases i) auto
    then have "rk d (4 * i + j) = RK' (4 + 4 * t + j)" using that by (simp add: d copy4_apply)
    then show ?thesis using high that t by (simp add: inv_mix_word_column)
  qed
  then show ?thesis
    using low by (simp add: inverse_schedule_def d n) (simp add: copy4_apply n mult.commute [of n 4])
qed

section \<open>Decryption inverts encryption\<close>

lemma add_round_key_cancel:
  assumes "\<forall>j < 4. dk (q + j) = f (ek (p + j))" "\<And>v w. f (v XOR w) = f v XOR f w"
  shows "add_round_key dk q (map_state f (add_round_key ek p z)) = map_state f z"
proof -
  have "dk q = f (ek p)" "dk (q + 1) = f (ek (p + 1))" "dk (q + 2) = f (ek (p + 2))" "dk (q + 3) = f (ek (p + 3))"
    using assms(1) [rule_format, of 0] assms(1) [rule_format, of 1]
      assms(1) [rule_format, of 2] assms(1) [rule_format, of 3] by simp_all
  then show ?thesis by (cases z) (simp add: add_round_key_def map_state_def assms(2))
qed

lemma map_state_inverse [simp]: "map_state inv_mix_column (map_state mix_column z) = z"
  by (cases z) (simp add: map_state_def)

lemma map_state_id: "map_state (\<lambda>w. w) z = z"
  by (cases z) (simp add: map_state_def)

lemma inverse_rounds:
  assumes "inverse_schedule n ek dk"
  shows "k < n \<Longrightarrow> rounds (AES_RROUND dk) k 4 (sub_shift (rounds (AES_FROUND ek) (n - 1) 4 x)) =
    sub_shift (rounds (AES_FROUND ek) (n - 1 - k) 4 x)"
proof (induction k)
  case (Suc k)
  define m where "m = n - 1 - Suc k"
  with Suc.prems have m: "n - Suc k = Suc m" by simp
  have key: "\<forall>j < 4. dk (4 + 4 * k + j) = inv_mix_column (ek (4 + 4 * m + j))"
  proof (intro allI impI)
    fix j :: nat assume "j < 4"
    then show "dk (4 + 4 * k + j) = inv_mix_column (ek (4 + 4 * m + j))"
      using assms Suc.prems m unfolding inverse_schedule_def
      by (metis add.commute mult_Suc_right zero_less_Suc)
  qed
  have "rounds (AES_RROUND dk) (Suc k) 4 (sub_shift (rounds (AES_FROUND ek) (n - 1) 4 x)) =
      AES_RROUND dk (4 + 4 * k) (sub_shift (rounds (AES_FROUND ek) (Suc m) 4 x))"
    using Suc by (simp add: m)
  also have "\<dots> = sub_shift (rounds (AES_FROUND ek) m 4 x)"
    by (simp add: AES_RROUND_textbook AES_FROUND_textbook add_round_key_cancel [OF key inv_mix_xor])
  finally show ?case by (simp add: m_def)
qed simp

lemma length_store_state [simp, buf_simps]: "length (store_state x) = 16"
  by (cases x) (simp add: store_state_def)

lemma load_store_state [simp]: "load_state (store_state x) = x"
  by (cases x) (simp add: store_state_def load_state_def)

lemma store_load_state: "length b = 16 \<Longrightarrow> store_state (load_state b) = b"
  using block16_words [of b] by (simp add: store_state_def load_state_def)

lemma length_internal_aes [simp, buf_simps]:
  "length (mbedtls_internal_aes_encrypt ctx b) = 16" "length (mbedtls_internal_aes_decrypt ctx b) = 16"
  by (simp_all add: mbedtls_internal_aes_encrypt_def mbedtls_internal_aes_decrypt_def Let_def case_prod_beta)

lemma aes_decrypt_encrypt:
  assumes e: "mbedtls_aes_setkey_enc key keybits = Inr e" and d: "mbedtls_aes_setkey_dec key keybits = Inr d"
    and b: "length b = 16"
  shows "mbedtls_internal_aes_decrypt d (mbedtls_internal_aes_encrypt e b) = b"
proof -
  let ?x = "add_round_key (rk e) 0 (load_state b)"
  let ?y = "rounds (AES_FROUND (rk e)) (nr e - 1) 4 ?x"
  note nr = setkey_enc_nr [OF e]
  from setkey_dec_schedule [OF e d] have nd: "nr d = nr e" and sched: "inverse_schedule (nr e) (rk e) (rk d)" by auto
  have first: "add_round_key (rk d) 0 (add_round_key (rk e) (4 * nr e) z) = z"
    and last: "add_round_key (rk d) (4 * nr e) (add_round_key (rk e) 0 z) = z" for z
    using sched add_round_key_cancel [of "rk d" 0 "\<lambda>w. w" "rk e" "4 * nr e" z]
      add_round_key_cancel [of "rk d" "4 * nr e" "\<lambda>w. w" "rk e" 0 z]
    by (simp_all add: inverse_schedule_def map_state_id)
  have "rounds (AES_RROUND (rk d)) (nr e - 1) 4 (sub_shift ?y) = sub_shift ?x"
    using inverse_rounds [OF sched, of "nr e - 1" ?x] nr by simp
  then show ?thesis
    using nr by (simp add: internal_aes_encrypt_rounds internal_aes_decrypt_rounds nd first last
        store_load_state b)
qed

text \<open>A pair of schedules made from one key.\<close>

definition aes_pair :: "mbedtls_aes_context \<times> mbedtls_aes_context \<Rightarrow> bool" where
  "aes_pair k \<longleftrightarrow> (\<exists>key keybits. mbedtls_aes_setkey_enc key keybits = Inr (fst k) \<and>
     mbedtls_aes_setkey_dec key keybits = Inr (snd k))"

interpretation aes: block_cipher aes_pair
  "\<lambda>k. mbedtls_internal_aes_encrypt (fst k)" "\<lambda>k. mbedtls_internal_aes_decrypt (snd k)"
proof
  fix k b assume k: "aes_pair k" and b: "length (b :: bytes) = 16"
  then show "mbedtls_internal_aes_decrypt (snd k) (mbedtls_internal_aes_encrypt (fst k) b) = b"
    by (auto simp: aes_pair_def aes_decrypt_encrypt)
  show "mbedtls_internal_aes_encrypt (fst k) (mbedtls_internal_aes_decrypt (snd k) b) = b"
    by (rule block_inverse_swap [where f = "mbedtls_internal_aes_encrypt (fst k)" and g = "mbedtls_internal_aes_decrypt (snd k)"])
      (use k b in \<open>auto simp: aes_pair_def aes_decrypt_encrypt\<close>)
qed simp_all

section \<open>Properties\<close>

text \<open>C19. The tables that \<^verbatim>\<open>aes_gen_tables\<close> generates are the AES tables: \<^verbatim>\<open>FSb\<close> is the affine map of
  the inverse in GF(2^8) (the product, computed by \<^verbatim>\<open>MUL\<close> from the generated logarithms, is 1),
  \<^verbatim>\<open>RSb\<close> is its inverse permutation, and the constants that make the \<^verbatim>\<open>RT\<close> tables multiply as
  the polynomials 14, 9, 13 and 11.\<close>

theorem aes_gen_tables_correct:
  "FSb ! unat b = sbox_affine (field_inverse b) \<and> (b \<noteq> 0 \<longrightarrow> MUL b (field_inverse b) = 1) \<and>
   RSb ! unat (FSb ! unat b) = b \<and> FSb ! unat (RSb ! unat b) = b \<and>
   MUL 0x09 b = XTIME (XTIME (XTIME b)) XOR b \<and>
   MUL 0x0E b = XTIME (XTIME (XTIME b)) XOR XTIME (XTIME b) XOR XTIME b"
  using FSb_sub_byte [of b] RSb_FSb [of b] FSb_RSb [of b]
  by (simp add: sub_byte_def field_inverse_correct MUL_09 MUL_0E)

theorem aes_gen_tables_correct_witness:
  "FSb ! unat (0x53 :: u8) = sbox_affine (field_inverse 0x53) \<and> MUL 0x53 (field_inverse 0x53) = 1"
  using aes_gen_tables_correct [of "0x53"] by simp

text \<open>C20. One turn of the table-driven macros \<^verbatim>\<open>AES_FROUND\<close> and \<^verbatim>\<open>AES_RROUND\<close> is a textbook round:
  SubBytes and ShiftRows, then MixColumns, then the round key; and the same with the inverse steps,
  where the inverse column mixing undoes the mixing.\<close>

theorem aes_rounds_textbook:
  "AES_FROUND RK p y = add_round_key RK p (map_state mix_column (sub_shift y)) \<and>
   AES_RROUND RK p y = add_round_key RK p (map_state inv_mix_column (inv_sub_shift y)) \<and>
   inv_sub_shift (sub_shift y) = y \<and> map_state inv_mix_column (map_state mix_column y) = y"
  by (simp add: AES_FROUND_textbook AES_RROUND_textbook)

text \<open>C21. For every key of every size the two key schedules accept, \<^verbatim>\<open>mbedtls_internal_aes_decrypt\<close>
  with the schedule of \<^verbatim>\<open>mbedtls_aes_setkey_dec\<close> undoes \<^verbatim>\<open>mbedtls_internal_aes_encrypt\<close> with the
  one of \<^verbatim>\<open>mbedtls_aes_setkey_enc\<close>, and the other way round; both setup functions succeed exactly
  for 128, 192 and 256 bits.\<close>

theorem aes_block_roundtrip:
  assumes "keybits \<in> {128, 192, 256}" "length b = 16"
  shows "\<exists>e d. mbedtls_aes_setkey_enc key keybits = Inr e \<and> mbedtls_aes_setkey_dec key keybits = Inr d \<and>
    mbedtls_internal_aes_decrypt d (mbedtls_internal_aes_encrypt e b) = b \<and>
    mbedtls_internal_aes_encrypt e (mbedtls_internal_aes_decrypt d b) = b"
proof -
  obtain e where e: "mbedtls_aes_setkey_enc key keybits = Inr e"
    using assms(1) by (auto simp: mbedtls_aes_setkey_enc_def Let_def)
  then obtain d where d: "mbedtls_aes_setkey_dec key keybits = Inr d"
    by (simp add: mbedtls_aes_setkey_dec_def Let_def case_prod_beta)
  have "aes_pair (e, d)" using e d by (auto simp: aes_pair_def)
  from aes.dec_enc [OF this assms(2)] aes.enc_dec [OF this assms(2)] e d show ?thesis by simp
qed

theorem aes_block_roundtrip_witness:
  "\<exists>e d. mbedtls_aes_setkey_enc (replicate 32 1) 256 = Inr e \<and> mbedtls_aes_setkey_dec (replicate 32 1) 256 = Inr d \<and>
    mbedtls_internal_aes_decrypt d (mbedtls_internal_aes_encrypt e (replicate 16 7)) = replicate 16 7"
  using aes_block_roundtrip [of 256 "replicate 16 7" "replicate 32 1"] by auto

end
