(* ===== verification/AesModes.thy ===== *)
theory AesModes
  imports Aes
begin

text \<open>
  The modes of operation of \<^verbatim>\<open>mbedtls/library/aes.c\<close> that the application uses: CBC
  (\<^verbatim>\<open>mbedtls_aes_crypt_cbc\<close>) and XTS (\<^verbatim>\<open>mbedtls_aes_crypt_xts\<close> with its key setup and its own
  tweak update on 64-bit words). Every caller passes one buffer as input and output, so both are
  modelled in place; for XTS the order of reads and writes in the ciphertext-stealing part is
  kept, because there it matters.
\<close>

section \<open>The code\<close>

subsection \<open>CBC\<close>

text \<open>The two loops of \<^verbatim>\<open>mbedtls_aes_crypt_cbc\<close>; the result is the last value of \<^verbatim>\<open>iv\<close> and the
  output.\<close>

function cbc_decrypt_loop :: "mbedtls_aes_context \<Rightarrow> bytes \<Rightarrow> bytes \<Rightarrow> bytes \<times> bytes" where
  "cbc_decrypt_loop ctx iv input =
     (if input = [] then (iv, [])
      else
        let temp = take 16 input;
            out = xor_bytes (mbedtls_aes_crypt_ecb ctx MBEDTLS_AES_DECRYPT temp) iv;
            (iv', rest) = cbc_decrypt_loop ctx temp (drop 16 input)
        in (iv', out @ rest))"
  by pat_completeness auto
termination by (relation "measure (\<lambda>(_, _, input). length input)") auto

function cbc_encrypt_loop :: "mbedtls_aes_context \<Rightarrow> bytes \<Rightarrow> bytes \<Rightarrow> bytes \<times> bytes" where
  "cbc_encrypt_loop ctx iv input =
     (if input = [] then (iv, [])
      else
        let out = xor_bytes (take 16 input) iv;
            out = mbedtls_aes_crypt_ecb ctx MBEDTLS_AES_ENCRYPT out;
            (iv', rest) = cbc_encrypt_loop ctx out (drop 16 input)
        in (iv', out @ rest))"
  by pat_completeness auto
termination by (relation "measure (\<lambda>(_, _, input). length input)") auto

declare cbc_decrypt_loop.simps [simp del] cbc_encrypt_loop.simps [simp del]

definition mbedtls_aes_crypt_cbc ::
  "mbedtls_aes_context \<Rightarrow> aes_mode \<Rightarrow> bytes \<Rightarrow> bytes \<Rightarrow> aes_error + bytes \<times> bytes" where
  "mbedtls_aes_crypt_cbc ctx mode iv input =
     (if length input mod 16 \<noteq> 0 then Inl MBEDTLS_ERR_AES_INVALID_INPUT_LENGTH
      else if mode = MBEDTLS_AES_DECRYPT then Inr (cbc_decrypt_loop ctx iv input)
      else Inr (cbc_encrypt_loop ctx iv input))"

subsection \<open>XTS\<close>

record mbedtls_aes_xts_context =
  crypt :: mbedtls_aes_context
  tweak :: mbedtls_aes_context

definition mbedtls_aes_xts_decode_keys :: "bytes \<Rightarrow> nat \<Rightarrow> aes_error + (bytes \<times> nat \<times> bytes \<times> nat)" where
  "mbedtls_aes_xts_decode_keys key keybits =
     (let half_keybits = keybits div 2; half_keybytes = half_keybits div 8
      in if keybits = 256 \<or> keybits = 512
         then Inr (key, half_keybits, drop half_keybytes key, half_keybits)
         else Inl MBEDTLS_ERR_AES_INVALID_KEY_LENGTH)"

definition mbedtls_aes_xts_setkey_enc :: "bytes \<Rightarrow> nat \<Rightarrow> aes_error + mbedtls_aes_xts_context" where
  "mbedtls_aes_xts_setkey_enc key keybits =
     (case mbedtls_aes_xts_decode_keys key keybits of
        Inl e \<Rightarrow> Inl e
      | Inr (key1, key1bits, key2, key2bits) \<Rightarrow>
          (case mbedtls_aes_setkey_enc key2 key2bits of
             Inl e \<Rightarrow> Inl e
           | Inr t \<Rightarrow> map_sum id (\<lambda>c. \<lparr>crypt = c, tweak = t\<rparr>) (mbedtls_aes_setkey_enc key1 key1bits)))"

definition mbedtls_aes_xts_setkey_dec :: "bytes \<Rightarrow> nat \<Rightarrow> aes_error + mbedtls_aes_xts_context" where
  "mbedtls_aes_xts_setkey_dec key keybits =
     (case mbedtls_aes_xts_decode_keys key keybits of
        Inl e \<Rightarrow> Inl e
      | Inr (key1, key1bits, key2, key2bits) \<Rightarrow>
          (case mbedtls_aes_setkey_enc key2 key2bits of
             Inl e \<Rightarrow> Inl e
           | Inr t \<Rightarrow> map_sum id (\<lambda>c. \<lparr>crypt = c, tweak = t\<rparr>) (mbedtls_aes_setkey_dec key1 key1bits)))"

text \<open>The tweak update on two 64-bit words; \<^verbatim>\<open>0x0087 >> (8 - ((b >> 63) << 3))\<close> is 0x87 when the top bit
  of \<^verbatim>\<open>b\<close> is set and 0 otherwise.\<close>

definition mbedtls_gf128mul_x_ble :: "bytes \<Rightarrow> bytes" where
  "mbedtls_gf128mul_x_ble x =
     (let a = get_unaligned_le64 x;
          b = get_unaligned_le64 (drop 8 x);
          ra = push_bit 1 a XOR drop_bit (8 - unat (push_bit 3 (drop_bit 63 b))) 0x0087;
          rb = drop_bit 63 a OR push_bit 1 b
      in put_unaligned_le64 ra @ put_unaligned_le64 rb)"

text \<open>The loop over whole blocks; \<open>n\<close> is \<^verbatim>\<open>blocks\<close> before it is decremented. The result is the current
  tweak, the saved one and the buffer.\<close>

fun aes_xts_loop ::
  "mbedtls_aes_xts_context \<Rightarrow> aes_mode \<Rightarrow> nat \<Rightarrow> nat \<Rightarrow> nat \<Rightarrow> bytes \<Rightarrow> bytes \<Rightarrow> bytes \<Rightarrow> bytes \<times> bytes \<times> bytes" where
  "aes_xts_loop ctx mode leftover 0 off tw prev_tweak buf = (tw, prev_tweak, buf)"
| "aes_xts_loop ctx mode leftover (Suc n) off tw prev_tweak buf =
     (let (prev_tweak, tw) =
            (if leftover \<noteq> 0 \<and> mode = MBEDTLS_AES_DECRYPT \<and> n = 0
             then (tw, mbedtls_gf128mul_x_ble tw) else (prev_tweak, tw));
          tmp = xor_bytes (take 16 (drop off buf)) tw;
          tmp = mbedtls_aes_crypt_ecb (crypt ctx) mode tmp;
          buf = overwrite buf off (xor_bytes tmp tw);
          tw = mbedtls_gf128mul_x_ble tw
      in aes_xts_loop ctx mode leftover n (off + 16) tw prev_tweak buf)"

text \<open>Ciphertext stealing in place: \<open>off\<close> is where both \<^verbatim>\<open>input\<close> and \<^verbatim>\<open>output\<close> point, \<^verbatim>\<open>prev_output\<close> 16 bytes
  before. Each turn first writes \<^verbatim>\<open>output[i]\<close> and then reads \<^verbatim>\<open>input[i]\<close>.\<close>

definition aes_xts_steal ::
  "mbedtls_aes_xts_context \<Rightarrow> aes_mode \<Rightarrow> nat \<Rightarrow> nat \<Rightarrow> bytes \<Rightarrow> bytes \<Rightarrow> bytes" where
  "aes_xts_steal ctx mode leftover off t buf =
     (let (buf, tmp) =
            fold (\<lambda>i (buf, tmp).
                    let buf = buf[off + i := buf ! (off - 16 + i)]
                    in (buf, tmp @ [buf ! (off + i) XOR t ! i]))
              [0..<leftover] (buf, []);
          tmp = tmp @ map (\<lambda>i. buf ! (off - 16 + i) XOR t ! i) [leftover..<16];
          tmp = mbedtls_aes_crypt_ecb (crypt ctx) mode tmp
      in overwrite buf (off - 16) (xor_bytes tmp t))"

definition mbedtls_aes_crypt_xts ::
  "mbedtls_aes_xts_context \<Rightarrow> aes_mode \<Rightarrow> nat \<Rightarrow> bytes \<Rightarrow> bytes \<Rightarrow> aes_error + bytes" where
  "mbedtls_aes_crypt_xts ctx mode len data_unit buf =
     (if len < 16 then Inl MBEDTLS_ERR_AES_INVALID_INPUT_LENGTH
      else if len > 2 ^ 20 * 16 then Inl MBEDTLS_ERR_AES_INVALID_INPUT_LENGTH
      else
        let blocks = len div 16; leftover = len mod 16;
            tw = mbedtls_aes_crypt_ecb (tweak ctx) MBEDTLS_AES_ENCRYPT data_unit;
            (tw, prev_tweak, buf) = aes_xts_loop ctx mode leftover blocks 0 tw (replicate 16 0) buf
        in if leftover \<noteq> 0
           then Inr (aes_xts_steal ctx mode leftover (16 * blocks)
                  (if mode = MBEDTLS_AES_DECRYPT then prev_tweak else tw) buf)
           else Inr buf)"

section \<open>CBC is invertible\<close>

lemma cbc_round_trip:
  assumes k: "aes_pair (e, d)"
  shows "length iv = 16 \<Longrightarrow> 16 dvd length input \<Longrightarrow>
    cbc_decrypt_loop d iv (snd (cbc_encrypt_loop e iv input)) = (fst (cbc_encrypt_loop e iv input), input)"
proof (induction "length input" arbitrary: input iv rule: less_induct)
  case less
  show ?case
  proof (cases "input = []")
    case True
    then show ?thesis by (simp add: cbc_encrypt_loop.simps cbc_decrypt_loop.simps)
  next
    case False
    then have len: "16 \<le> length input" using less.prems(2) by (auto intro: dvd_imp_le)
    let ?c = "mbedtls_internal_aes_encrypt e (xor_bytes (take 16 input) iv)"
    have enc: "cbc_encrypt_loop e iv input =
        (fst (cbc_encrypt_loop e ?c (drop 16 input)), ?c @ snd (cbc_encrypt_loop e ?c (drop 16 input)))"
      using False by (subst cbc_encrypt_loop.simps) (simp add: Let_def case_prod_beta)
    have "mbedtls_internal_aes_decrypt d ?c = xor_bytes (take 16 input) iv"
      using aes.dec_enc [OF k, of "xor_bytes (take 16 input) iv"] len less.prems by simp
    moreover have "?c \<noteq> []"
      using length_internal_aes(1) [of e "xor_bytes (take 16 input) iv"] by (auto simp del: length_internal_aes)
    ultimately have "cbc_decrypt_loop d iv (?c @ rest) =
        (fst (cbc_decrypt_loop d ?c rest), take 16 input @ snd (cbc_decrypt_loop d ?c rest))" for rest
      using len less.prems by (subst cbc_decrypt_loop.simps) (auto simp: Let_def case_prod_beta)
    moreover have "16 dvd length (drop 16 input)" using less.prems(2) len by (simp add: dvd_diff_nat)
    ultimately show ?thesis
      using less.hyps [of "drop 16 input" ?c] len by (simp add: enc)
  qed
qed

lemma length_cbc_encrypt_loop:
  "16 dvd length input \<Longrightarrow> length (snd (cbc_encrypt_loop e iv input)) = length input"
proof (induction "length input" arbitrary: input iv rule: less_induct)
  case less
  show ?case
  proof (cases "input = []")
    case True
    then show ?thesis by (simp add: cbc_encrypt_loop.simps)
  next
    case False
    then have len: "16 \<le> length input" using less.prems by (auto intro: dvd_imp_le)
    moreover have "16 dvd length (drop 16 input)" using less.prems len by (simp add: dvd_diff_nat)
    ultimately show ?thesis
      using less.hyps [of "drop 16 input"] False
      by (subst cbc_encrypt_loop.simps) (simp add: Let_def case_prod_beta)
  qed
qed

section \<open>The tweak update on words\<close>

lemma le_word_append:
  "le_word (xs @ ys) = le_word xs OR push_bit (8 * length xs) (le_word ys :: 'a::len word)"
  by (induction xs) (simp_all add: push_bit_or or.assoc add.commute)

lemma le_word_put64: "(le_word (put_unaligned_le64 v) :: 128 word) = ucast v"
proof (rule bit_word_eqI)
  fix n assume "n < LENGTH(128)"
  moreover have "8 * (n div 8) + n mod 8 = n" by simp
  moreover have "n div 8 < 8 \<longleftrightarrow> n < 64" by auto
  ultimately show "bit (le_word (put_unaligned_le64 v) :: 128 word) n = bit (ucast v :: 128 word) n"
    by (auto simp: bit_le_word put_unaligned_le64_def bit_unsigned_iff bit_drop_bit_eq dest: bit_imp_le_length)
qed

lemma le_word_ucast64: "length b = 8 \<Longrightarrow> (le_word b :: 128 word) = ucast (le_word b :: u64)"
  by (rule bit_word_eqI) (auto simp: bit_le_word bit_unsigned_iff)

lemma le_word_inj:
  assumes "length xs = length ys" "8 * length xs \<le> LENGTH('a)" "(le_word xs :: 'a::len word) = le_word ys"
  shows "xs = ys"
proof (rule nth_equalityI)
  fix i assume i: "i < length xs"
  show "xs ! i = ys ! i"
  proof (rule bit_word_eqI)
    fix n assume "n < LENGTH(8)"
    then have n: "n < 8" by simp
    have "bit (le_word xs :: 'a word) (8 * i + n) = bit (le_word ys :: 'a word) (8 * i + n)"
      using assms(3) by simp
    moreover have "8 * i + n < LENGTH('a)" using i n assms(2) by linarith
    moreover have "(8 * i + n) div 8 = i" "(8 * i + n) mod 8 = n" using n by simp_all
    ultimately show "bit (xs ! i) n = bit (ys ! i) n" using assms(1) i by (simp add: bit_le_word)
  qed
qed (use assms in simp)

lemma reduction_word: "drop_bit (8 - unat (push_bit 3 (drop_bit 63 (b :: u64)))) (0x0087 :: u64) =
  (if bit b 63 then 0x87 else 0)"
proof -
  have "drop_bit 63 b = (if bit b 63 then 1 else 0)"
  proof (rule bit_word_eqI)
    fix n assume "n < LENGTH(64)"
    show "bit (drop_bit 63 b) n = bit (if bit b 63 then 1 else 0 :: u64) n"
      using bit_imp_le_length [of b "63 + n"] by (cases n) (auto simp: bit_simps bit_1_iff)
  qed
  then show ?thesis by simp
qed

lemma reduction_small:
  assumes "8 \<le> n"
  shows "bit (0x87 :: 128 word) n = False" "bit (0x87 :: u64) n = False" "bit (0x87 :: int) n = False"
proof -
  have "take_bit 8 (0x87 :: 128 word) = 0x87" "take_bit 8 (0x87 :: u64) = 0x87" "take_bit 8 (0x87 :: int) = 0x87"
    by simp_all
  then show "bit (0x87 :: 128 word) n = False" "bit (0x87 :: u64) n = False" "bit (0x87 :: int) n = False"
    using assms by (metis bit_take_bit_iff not_le)+
qed

lemma words_mul_x:
  "ucast (push_bit 1 a XOR (if bit b 63 then 0x87 else 0)) OR push_bit 64 (ucast (drop_bit 63 a OR push_bit 1 b)) =
   mul_x (ucast (a :: u64) OR push_bit 64 (ucast (b :: u64)))" (is "?l = ?r")
proof -
  have top: "bit (ucast a OR push_bit 64 (ucast b) :: 128 word) 127 = bit b 63"
    by (auto simp: bit_simps dest: bit_imp_le_length)
  show ?thesis
  proof (rule bit_word_eqI)
    fix n assume "n < LENGTH(128)"
    then consider "n < 64" | "n = 64" | "64 < n" "n < 128" by fastforce
    then show "bit ?l n = bit ?r n"
      unfolding mul_x_def top
      by cases (auto simp: bit_simps reduction_small simp del: push_bit_Suc One_nat_def dest: bit_imp_le_length)
  qed
qed

lemma gf128mul_x_ble_is_mul_by_alpha:
  assumes "length x = 16"
  shows "mbedtls_gf128mul_x_ble x = gf128_mul_by_alpha x"
proof (rule le_word_inj [where 'a = 128])
  let ?a = "le_word (take 8 x) :: u64" and ?b = "le_word (drop 8 x) :: u64"
  have "get_unaligned_le64 x = get_unaligned_le64 (take 8 x)" by (simp add: get_unaligned_le64_def)
  then have a: "get_unaligned_le64 x = ?a" and b: "get_unaligned_le64 (drop 8 x) = ?b"
    using assms by (simp_all add: get_le64_le_word)
  have "(le_word x :: 128 word) = le_word (take 8 x @ drop 8 x)" by simp
  also have "\<dots> = ucast ?a OR push_bit 64 (ucast ?b)"
    unfolding le_word_append using assms by (simp add: le_word_ucast64)
  finally have x: "poly128 x = ucast ?a OR push_bit 64 (ucast ?b)" .
  have "poly128 (mbedtls_gf128mul_x_ble x) = mul_x (poly128 x)"
    unfolding mbedtls_gf128mul_x_ble_def Let_def a b reduction_word le_word_append le_word_put64
      length_put_unaligned_le64 x
    using words_mul_x [of ?a ?b] by simp
  then show "poly128 (mbedtls_gf128mul_x_ble x) = poly128 (gf128_mul_by_alpha x)"
    using assms by (simp add: poly128_gf128_mul_by_alpha)
qed (use assms in \<open>simp_all add: mbedtls_gf128mul_x_ble_def Let_def\<close>)

section \<open>XTS on whole blocks is the generic mode\<close>

abbreviation ecb_block :: "mbedtls_aes_context \<Rightarrow> aes_mode \<Rightarrow> bytes \<Rightarrow> bytes" where
  "ecb_block \<equiv> mbedtls_aes_crypt_ecb"

lemma length_ecb [simp, buf_simps]: "length (ecb_block ctx mode b) = 16"
  by (cases mode) simp_all

lemma aes_xts_loop_generic:
  "length tw = 16 \<Longrightarrow> off + 16 * n \<le> length buf \<Longrightarrow>
   xts_loop (ecb_block (crypt ctx) mode) (off + 16 * n) off tw buf =
     Some (snd (snd (aes_xts_loop ctx mode 0 n off tw pv buf)))"
proof (induction n arbitrary: off tw buf)
  case 0
  then show ?case by (simp add: xts_loop.simps)
next
  case (Suc n)
  let ?c = "xor_bytes (ecb_block (crypt ctx) mode (xor_bytes (take 16 (drop off buf)) tw)) tw"
  let ?buf = "overwrite buf off ?c"
  have len: "length ?buf = length buf" using Suc.prems by simp
  have "off + 16 * Suc n = (off + 16) + 16 * n" by simp
  then have "xts_loop (ecb_block (crypt ctx) mode) (off + 16 * Suc n) off tw buf =
      xts_loop (ecb_block (crypt ctx) mode) ((off + 16) + 16 * n) (off + 16) (gf128_mul_by_alpha tw) ?buf"
    using Suc.prems by (subst xts_loop_step) (simp_all add: xts_block_def add.assoc)
  also have "\<dots> = Some (snd (snd (aes_xts_loop ctx mode 0 n (off + 16) (gf128_mul_by_alpha tw) pv ?buf)))"
    using Suc.prems len by (intro Suc.IH) simp_all
  also have "\<dots> = Some (snd (snd (aes_xts_loop ctx mode 0 (Suc n) off tw pv buf)))"
    using Suc.prems by (simp add: Let_def gf128mul_x_ble_is_mul_by_alpha)
  finally show ?case .
qed

lemma aes_crypt_xts_generic:
  assumes "16 dvd len" "0 < len" "len \<le> 2 ^ 24" "len \<le> length buf"
  shows "\<exists>out. mbedtls_aes_crypt_xts ctx mode len du buf = Inr out \<and>
    xts_generic_crypt (ecb_block (crypt ctx) mode) (ecb_block (tweak ctx) MBEDTLS_AES_ENCRYPT) du buf len = Some out"
proof -
  from assms(1) obtain n where n: "len = 16 * n" ..
  with assms have "0 < n" by simp
  let ?tw = "ecb_block (tweak ctx) MBEDTLS_AES_ENCRYPT du"
  have "xts_loop (ecb_block (crypt ctx) mode) (0 + 16 * n) 0 ?tw buf =
      Some (snd (snd (aes_xts_loop ctx mode 0 n 0 ?tw (replicate 16 0) buf)))"
    using assms n by (intro aes_xts_loop_generic) simp_all
  then show ?thesis
    using assms n \<open>0 < n\<close> by (simp add: mbedtls_aes_crypt_xts_def xts_generic_crypt_def case_prod_beta)
qed

text \<open>Contexts for both directions made from one key.\<close>

definition xts_pair :: "mbedtls_aes_xts_context \<Rightarrow> mbedtls_aes_xts_context \<Rightarrow> bool" where
  "xts_pair ce cd \<longleftrightarrow> (\<exists>key keybits. mbedtls_aes_xts_setkey_enc key keybits = Inr ce \<and>
     mbedtls_aes_xts_setkey_dec key keybits = Inr cd)"

lemma setkey_enc_succeeds:
  "bits \<in> {128, 192, 256} \<Longrightarrow> \<exists>e. mbedtls_aes_setkey_enc key bits = Inr e"
  by (auto simp: mbedtls_aes_setkey_enc_def Let_def)

lemma setkey_dec_succeeds:
  "mbedtls_aes_setkey_enc key bits = Inr e \<Longrightarrow> \<exists>d. mbedtls_aes_setkey_dec key bits = Inr d"
  by (simp add: mbedtls_aes_setkey_dec_def Let_def case_prod_beta)

lemma xts_setkeys_succeed:
  assumes "bits \<in> {256, 512}"
  shows "\<exists>e d. mbedtls_aes_xts_setkey_enc key bits = Inr e \<and> mbedtls_aes_xts_setkey_dec key bits = Inr d"
proof -
  obtain k1 b k2 where dk: "mbedtls_aes_xts_decode_keys key bits = Inr (k1, b, k2, b)" "b \<in> {128, 256}"
    using assms by (auto simp: mbedtls_aes_xts_decode_keys_def)
  obtain e1 e2 where e: "mbedtls_aes_setkey_enc k1 b = Inr e1" "mbedtls_aes_setkey_enc k2 b = Inr e2"
    using setkey_enc_succeeds dk(2) by (metis insert_iff)
  then show ?thesis using dk(1) setkey_dec_succeeds [OF e(1)]
    by (auto simp: mbedtls_aes_xts_setkey_enc_def mbedtls_aes_xts_setkey_dec_def)
qed

lemma map_sum_Inr: "map_sum id f s = Inr y \<longleftrightarrow> (\<exists>x. s = Inr x \<and> y = f x)"
  by (cases s) auto

lemma xts_pair_keys:
  assumes "xts_pair ce cd"
  shows "aes_pair (crypt ce, crypt cd)" "tweak cd = tweak ce" "\<exists>d. aes_pair (tweak ce, d)"
proof -
  obtain key keybits where k: "mbedtls_aes_xts_setkey_enc key keybits = Inr ce"
    "mbedtls_aes_xts_setkey_dec key keybits = Inr cd" using assms by (auto simp: xts_pair_def)
  then obtain k1 b1 k2 b2 where dk: "mbedtls_aes_xts_decode_keys key keybits = Inr (k1, b1, k2, b2)"
    by (auto simp: mbedtls_aes_xts_setkey_enc_def split: sum.splits)
  then obtain t where t: "mbedtls_aes_setkey_enc k2 b2 = Inr t"
    using k by (auto simp: mbedtls_aes_xts_setkey_enc_def split: sum.splits)
  from k dk t obtain e d where "mbedtls_aes_setkey_enc k1 b1 = Inr e" "mbedtls_aes_setkey_dec k1 b1 = Inr d"
    "ce = \<lparr>crypt = e, tweak = t\<rparr>" "cd = \<lparr>crypt = d, tweak = t\<rparr>"
    by (auto simp: mbedtls_aes_xts_setkey_enc_def mbedtls_aes_xts_setkey_dec_def map_sum_Inr)
  then show "aes_pair (crypt ce, crypt cd)" "tweak cd = tweak ce" "\<exists>d. aes_pair (tweak ce, d)"
    using t setkey_dec_succeeds [OF t] by (auto simp: aes_pair_def)
qed

lemma aes_xts_round_trip:
  assumes k: "xts_pair ce cd" and len: "16 dvd len" "0 < len" "len \<le> 2 ^ 24" "len \<le> length buf"
    and du: "length du = 16"
  shows "\<exists>c. mbedtls_aes_crypt_xts ce MBEDTLS_AES_ENCRYPT len du buf = Inr c \<and> length c = length buf \<and>
    mbedtls_aes_crypt_xts cd MBEDTLS_AES_DECRYPT len du c = Inr buf"
proof -
  note keys = xts_pair_keys [OF k]
  obtain td where td: "aes_pair (tweak ce, td)" using keys(3) by blast
  note ok = keys(1) td du len(1) len(4)
  obtain c where c: "mbedtls_aes_crypt_xts ce MBEDTLS_AES_ENCRYPT len du buf = Inr c"
    "xts_generic_crypt (ecb_block (crypt ce) MBEDTLS_AES_ENCRYPT) (ecb_block (tweak ce) MBEDTLS_AES_ENCRYPT) du buf len = Some c"
    using aes_crypt_xts_generic [OF len, of ce MBEDTLS_AES_ENCRYPT du] by blast
  have enc: "ecb_block (crypt ce) MBEDTLS_AES_ENCRYPT = mbedtls_internal_aes_encrypt (crypt ce)"
    "ecb_block (tweak ce) MBEDTLS_AES_ENCRYPT = mbedtls_internal_aes_encrypt (tweak ce)"
    "ecb_block (crypt cd) MBEDTLS_AES_DECRYPT = mbedtls_internal_aes_decrypt (crypt cd)" by (auto intro!: ext)
  have lenc: "length c = length buf"
    using aes.xts_enc [OF ok] aes.length_xts_enc [OF ok(1,2,3), of "take len buf"] c(2) len(4)
    by (auto simp: enc)
  obtain p where p: "mbedtls_aes_crypt_xts cd MBEDTLS_AES_DECRYPT len du c = Inr p"
    "xts_generic_crypt (ecb_block (crypt cd) MBEDTLS_AES_DECRYPT) (ecb_block (tweak ce) MBEDTLS_AES_ENCRYPT) du c len = Some p"
    using aes_crypt_xts_generic [of len c cd MBEDTLS_AES_DECRYPT du] len lenc keys(2) by auto
  have "p = buf"
    using aes.xts_dec_enc [OF ok] c(2) p(2) by (simp add: enc)
  with c p lenc show ?thesis by blast
qed

section \<open>Ciphertext stealing in place\<close>

lemma steal_fold:
  assumes "16 \<le> off" "m \<le> 16" "off + m \<le> length buf"
  shows "fold (\<lambda>i (buf, tmp). let buf = buf[off + i := buf ! (off - 16 + i)]
                in (buf, tmp @ [buf ! (off + i) XOR t ! i])) [0..<m] (buf, []) =
    (overwrite buf off (take m (drop (off - 16) buf)), map (\<lambda>i. buf ! (off - 16 + i) XOR t ! i) [0..<m])"
  using assms(2,3)
proof (induction m)
  case 0
  then show ?case by (simp add: overwrite_def)
next
  case (Suc m)
  let ?o = "\<lambda>m. overwrite buf off (take m (drop (off - 16) buf))"
  have len: "length (take m (drop (off - 16) buf)) = m" using Suc.prems assms(1) by simp
  have prev: "?o m ! (off - 16 + m) = buf ! (off - 16 + m)"
    using Suc.prems assms(1) len by (subst nth_overwrite) auto
  have "(?o m)[off + m := buf ! (off - 16 + m)] = ?o (Suc m)"
    using Suc.prems assms(1) len
    by (intro nth_equalityI) (auto simp: nth_overwrite nth_list_update)
  moreover have "?o (Suc m) ! (off + m) = buf ! (off - 16 + m)"
    using Suc.prems assms(1) by (subst nth_overwrite) auto
  ultimately show ?case using Suc prev by (simp add: Let_def)
qed

lemma steal_result:
  assumes "16 \<le> off" "lo < 16" "off + lo = length buf"
  shows "aes_xts_steal ctx mode lo off t buf =
    overwrite (overwrite buf off (take lo (drop (off - 16) buf))) (off - 16)
      (xor_bytes (ecb_block (crypt ctx) mode (map (\<lambda>i. buf ! (off - 16 + i) XOR t ! i) [0..<16])) t)"
proof -
  let ?buf = "overwrite buf off (take lo (drop (off - 16) buf))"
  have "?buf ! (off - 16 + i) = buf ! (off - 16 + i)" if "i < 16" for i
    using assms that by (subst nth_overwrite) auto
  then have "map (\<lambda>i. ?buf ! (off - 16 + i) XOR t ! i) [lo..<16] =
      map (\<lambda>i. buf ! (off - 16 + i) XOR t ! i) [lo..<16]" by simp
  moreover have "[0..<16] = [0..<lo] @ [lo..<16]"
    using assms upt_add_eq_append [of 0 lo "16 - lo"] by simp
  ultimately show ?thesis
    unfolding aes_xts_steal_def steal_fold [OF assms(1) less_imp_le [OF assms(2)] eq_refl [OF assms(3)]]
    by (simp only: Let_def prod.case map_append)
qed

lemma steal_ignores_tail:
  assumes "16 \<le> length pre" "length tail < 16" "length tail' = length tail"
  shows "aes_xts_steal ctx mode (length tail) (length pre) t (pre @ tail) =
         aes_xts_steal ctx mode (length tail) (length pre) t (pre @ tail')"
proof -
  have "aes_xts_steal ctx mode (length tail) (length pre) t (pre @ tl) =
      overwrite (pre @ take (length tail) (drop (length pre - 16) pre)) (length pre - 16)
        (xor_bytes (ecb_block (crypt ctx) mode (map (\<lambda>i. pre ! (length pre - 16 + i) XOR t ! i) [0..<16])) t)"
    if "length tl = length tail" for tl
  proof -
    have "map (\<lambda>i. (pre @ tl) ! (length pre - 16 + i) XOR t ! i) [0..<16] =
        map (\<lambda>i. pre ! (length pre - 16 + i) XOR t ! i) [0..<16]"
      using assms by (intro map_cong) (auto simp: nth_append)
    moreover have "overwrite (pre @ tl) (length pre) (take (length tail) (drop (length pre - 16) (pre @ tl))) =
        pre @ take (length tail) (drop (length pre - 16) pre)"
      using assms that by (simp add: overwrite_def)
    moreover have "drop (length pre - 16) (pre @ tl) = drop (length pre - 16) pre @ tl" by simp
    moreover have "aes_xts_steal ctx mode (length tail) (length pre) t (pre @ tl) = overwrite
        (overwrite (pre @ tl) (length pre) (take (length tail) (drop (length pre - 16) (pre @ tl)))) (length pre - 16)
        (xor_bytes (ecb_block (crypt ctx) mode (map (\<lambda>i. (pre @ tl) ! (length pre - 16 + i) XOR t ! i) [0..<16])) t)"
      using assms that by (intro steal_result) simp_all
    ultimately show ?thesis by (simp only:)
  qed
  from this [OF refl] this [OF assms(3)] show ?thesis by (simp only:)
qed

lemma aes_xts_loop_tail:
  "off + 16 * n \<le> length pre \<Longrightarrow> length tw = 16 \<Longrightarrow>
   \<exists>tw' pv' pre'. length pre' = length pre \<and>
     (\<forall>tail. aes_xts_loop ctx mode lo n off tw pv (pre @ tail) = (tw', pv', pre' @ tail))"
proof (induction n arbitrary: off tw pv pre)
  case (Suc n)
  let ?last = "lo \<noteq> 0 \<and> mode = MBEDTLS_AES_DECRYPT \<and> n = 0"
  let ?tw = "if ?last then mbedtls_gf128mul_x_ble tw else tw"
  let ?pv = "if ?last then tw else pv"
  have len: "length (mbedtls_gf128mul_x_ble x) = 16" for x
    by (simp add: mbedtls_gf128mul_x_ble_def Let_def)
  let ?c = "xor_bytes (ecb_block (crypt ctx) mode (xor_bytes (take 16 (drop off pre)) ?tw)) ?tw"
  have c: "length ?c = 16" using Suc.prems len by simp
  have "aes_xts_loop ctx mode lo (Suc n) off tw pv (pre @ tail) =
      aes_xts_loop ctx mode lo n (off + 16) (mbedtls_gf128mul_x_ble ?tw) ?pv (overwrite pre off ?c @ tail)" for tail
  proof -
    have "overwrite (pre @ tail) off ?c = overwrite pre off ?c @ tail"
      using Suc.prems c by (simp add: overwrite_def)
    moreover have "take 16 (drop off (pre @ tail)) = take 16 (drop off pre)" using Suc.prems by simp
    moreover have "(if ?last then (tw, mbedtls_gf128mul_x_ble tw) else (pv, tw)) = (?pv, ?tw)" by simp
    ultimately show ?thesis by (simp only: aes_xts_loop.simps Let_def prod.case)
  qed
  moreover have "length (overwrite pre off ?c) = length pre" using Suc.prems c by simp
  ultimately show ?case
    using Suc.IH [of "off + 16" "overwrite pre off ?c" "mbedtls_gf128mul_x_ble ?tw" ?pv] Suc.prems len
    by simp
qed auto

lemma crypt_xts_ignores_tail:
  assumes "16 \<le> length pre" "16 dvd length pre" "length pre + length tail \<le> 2 ^ 24"
    and "0 < length tail" "length tail < 16" "length tail' = length tail"
  shows "mbedtls_aes_crypt_xts ctx mode (length (pre @ tail)) du (pre @ tail) =
         mbedtls_aes_crypt_xts ctx mode (length (pre @ tail)) du (pre @ tail')"
proof -
  from assms(2) obtain n where n: "length pre = 16 * n" ..
  have div: "(length pre + length tail) div 16 = n" "(length pre + length tail) mod 16 = length tail"
    using assms n by simp_all
  obtain tw pv pre' where pre': "length pre' = length pre"
    and loop: "\<And>tail'. aes_xts_loop ctx mode (length tail) n 0 (ecb_block (tweak ctx) MBEDTLS_AES_ENCRYPT du)
      (replicate 16 0) (pre @ tail') = (tw, pv, pre' @ tail')"
    using aes_xts_loop_tail [of 0 n pre "ecb_block (tweak ctx) MBEDTLS_AES_ENCRYPT du" ctx mode "length tail" "replicate 16 0"] n
    by auto
  have "mbedtls_aes_crypt_xts ctx mode (length (pre @ tail)) du (pre @ tl) =
      Inr (aes_xts_steal ctx mode (length tail) (length pre') (if mode = MBEDTLS_AES_DECRYPT then pv else tw) (pre' @ tl))" for tl
    unfolding mbedtls_aes_crypt_xts_def Let_def length_append div loop prod.case
    using assms pre' n by simp
  then show ?thesis using steal_ignores_tail [of pre' tail tail'] assms pre' by simp
qed

section \<open>Properties\<close>

text \<open>C22. \<^verbatim>\<open>mbedtls_aes_crypt_cbc\<close> decrypts what it encrypted, for every key, every initialisation vector
  and every buffer of whole blocks, and leaves the same vector behind in both directions; a buffer
  of another length is refused.\<close>

theorem aes_cbc_roundtrip:
  assumes "mbedtls_aes_setkey_enc key keybits = Inr e" "mbedtls_aes_setkey_dec key keybits = Inr d"
    and "length iv = 16"
  shows "if length buf mod 16 = 0
    then \<exists>iv' c. mbedtls_aes_crypt_cbc e MBEDTLS_AES_ENCRYPT iv buf = Inr (iv', c) \<and> length c = length buf \<and>
           mbedtls_aes_crypt_cbc d MBEDTLS_AES_DECRYPT iv c = Inr (iv', buf)
    else mbedtls_aes_crypt_cbc e mode iv buf = Inl MBEDTLS_ERR_AES_INVALID_INPUT_LENGTH"
proof (cases "length buf mod 16 = 0")
  case True
  then have "16 dvd length buf" by auto
  moreover have "aes_pair (e, d)" using assms by (auto simp: aes_pair_def)
  ultimately show ?thesis
    using cbc_round_trip [of e d iv buf] length_cbc_encrypt_loop [of buf e iv] assms(3) True
    by (simp add: mbedtls_aes_crypt_cbc_def prod_eq_iff)
qed (simp add: mbedtls_aes_crypt_cbc_def)

theorem aes_cbc_roundtrip_witness:
  "\<exists>e d iv' c. mbedtls_aes_crypt_cbc e MBEDTLS_AES_ENCRYPT (replicate 16 3) (replicate 32 9) = Inr (iv', c) \<and>
     mbedtls_aes_crypt_cbc d MBEDTLS_AES_DECRYPT (replicate 16 3) c = Inr (iv', replicate 32 9)"
proof -
  obtain e where e: "mbedtls_aes_setkey_enc (replicate 16 1) 128 = Inr e"
    using setkey_enc_succeeds by blast
  with setkey_dec_succeeds obtain d where d: "mbedtls_aes_setkey_dec (replicate 16 1) 128 = Inr d" by blast
  show ?thesis using aes_cbc_roundtrip [OF e d, of "replicate 16 3" "replicate 32 9"] by auto
qed

text \<open>C23. On data units of whole blocks \<^verbatim>\<open>mbedtls_aes_crypt_xts\<close> and \<^verbatim>\<open>xts_generic_crypt\<close> give the same
  bytes for the same block functions, for either direction: the two independent XTS
  implementations of the application agree, tweak update included.\<close>

theorem aes_xts_agrees_with_generic:
  assumes "16 dvd len" "0 < len" "len \<le> 2 ^ 24" "len \<le> length buf"
  shows "\<exists>out. mbedtls_aes_crypt_xts ctx mode len du buf = Inr out \<and>
    xts_generic_crypt (mbedtls_aes_crypt_ecb (crypt ctx) mode)
      (mbedtls_aes_crypt_ecb (tweak ctx) MBEDTLS_AES_ENCRYPT) du buf len = Some out"
  using assms by (rule aes_crypt_xts_generic)

theorem aes_xts_agrees_with_generic_witness:
  "\<exists>out. mbedtls_aes_crypt_xts \<lparr>crypt = \<lparr>nr = 10, rk = \<lambda>_. 1\<rparr>, tweak = \<lparr>nr = 10, rk = \<lambda>_. 2\<rparr>\<rparr>
      MBEDTLS_AES_ENCRYPT 32 (replicate 16 0) (replicate 32 5) = Inr out \<and>
    xts_generic_crypt (mbedtls_aes_crypt_ecb \<lparr>nr = 10, rk = \<lambda>_. 1\<rparr> MBEDTLS_AES_ENCRYPT)
      (mbedtls_aes_crypt_ecb \<lparr>nr = 10, rk = \<lambda>_. 2\<rparr> MBEDTLS_AES_ENCRYPT) (replicate 16 0) (replicate 32 5) 32 = Some out"
  using aes_xts_agrees_with_generic [of 32 "replicate 32 5"
      "\<lparr>crypt = \<lparr>nr = 10, rk = \<lambda>_. 1\<rparr>, tweak = \<lparr>nr = 10, rk = \<lambda>_. 2\<rparr>\<rparr>" MBEDTLS_AES_ENCRYPT "replicate 16 0"]
  by simp

text \<open>C24. Called in place on a data unit that is no multiple of 16 bytes, \<^verbatim>\<open>mbedtls_aes_crypt_xts\<close>
  destroys the last bytes: its result does not depend on them, because the stealing loop overwrites
  \<^verbatim>\<open>output[i]\<close> before it reads \<^verbatim>\<open>input[i]\<close>. The comment in \<^verbatim>\<open>stageCrypt\<close> that mbedtls tolerates
  input == output holds for whole blocks only.\<close>

theorem aes_xts_in_place_loses_tail:
  assumes "16 \<le> length pre" "16 dvd length pre" "length pre + length tail \<le> 2 ^ 24"
    and "0 < length tail" "length tail < 16" "length tail' = length tail"
  shows "mbedtls_aes_crypt_xts ctx mode (length (pre @ tail)) du (pre @ tail) =
         mbedtls_aes_crypt_xts ctx mode (length (pre @ tail)) du (pre @ tail')"
  using assms by (rule crypt_xts_ignores_tail)

theorem aes_xts_in_place_loses_tail_witness:
  "mbedtls_aes_crypt_xts \<lparr>crypt = \<lparr>nr = 10, rk = \<lambda>_. 1\<rparr>, tweak = \<lparr>nr = 10, rk = \<lambda>_. 2\<rparr>\<rparr>
      MBEDTLS_AES_ENCRYPT 17 (replicate 16 0) (replicate 16 5 @ [1]) =
   mbedtls_aes_crypt_xts \<lparr>crypt = \<lparr>nr = 10, rk = \<lambda>_. 1\<rparr>, tweak = \<lparr>nr = 10, rk = \<lambda>_. 2\<rparr>\<rparr>
      MBEDTLS_AES_ENCRYPT 17 (replicate 16 0) (replicate 16 5 @ [2])"
  using aes_xts_in_place_loses_tail [of "replicate 16 5" "[1]" "[2]"
      "\<lparr>crypt = \<lparr>nr = 10, rk = \<lambda>_. 1\<rparr>, tweak = \<lparr>nr = 10, rk = \<lambda>_. 2\<rparr>\<rparr>"
      MBEDTLS_AES_ENCRYPT "replicate 16 0"] by simp

end
