(* ===== verification/Cascade.thy ===== *)
theory Cascade
  imports Serpent Twofish AesModes
begin

text \<open>The VeraCrypt cascade of \<^verbatim>\<open>vc_cascade.cpp\<close>: up to three XTS ciphers over one data unit, set up
  from one key string, and the native entry points of \<^verbatim>\<open>VeraCryptNative.cpp\<close> that run it over a buffer
  of sectors and over a volume header. The contract between a stage and the cascade is the locale
  \<open>xts_stage\<close>, interpreted on \<^verbatim>\<open>stageCrypt\<close>.

  A pointer into a buffer is the list from that byte on; \<open>None\<close> is an access outside the buffer. The
  allocation of the cascade and the pinning of Java arrays succeed in the model; \<^verbatim>\<open>vc_cascade_free\<close>
  and the wiping of keys have no result to describe.\<close>

unbundle bit_operations_syntax

section \<open>One stage\<close>

text \<open>\<^verbatim>\<open>Stage\<close>: the \<^verbatim>\<open>id\<close> selects the member of the union, so the constructors stand for both.\<close>

datatype Stage =
    Stage_aes mbedtls_aes_xts_context mbedtls_aes_xts_context
  | Stage_serpent serpent_ctx serpent_ctx
  | Stage_twofish twofish_key twofish_key

definition VC_CIPHER_AES :: int where "VC_CIPHER_AES = 0"
definition VC_CIPHER_SERPENT :: int where "VC_CIPHER_SERPENT = 1"
definition VC_CIPHER_TWOFISH :: int where "VC_CIPHER_TWOFISH = 2"
definition VC_MAX_CASCADE :: int where "VC_MAX_CASCADE = 3"

lemmas vc_ids = VC_CIPHER_AES_def VC_CIPHER_SERPENT_def VC_CIPHER_TWOFISH_def VC_MAX_CASCADE_def

definition unitTweak :: "u64 \<Rightarrow> bytes" where
  "unitTweak unit_no = map (\<lambda>b. ucast (drop_bit (b * 8) unit_no)) [0..<8] @ replicate 8 0"

definition stageInit :: "int \<Rightarrow> bytes \<Rightarrow> bytes \<Rightarrow> Stage option" where
  "stageInit cid primary secondary =
     (if cid = VC_CIPHER_AES then
        let key = take 32 primary @ take 32 secondary
        in (case mbedtls_aes_xts_setkey_enc key 512 of
              Inl _ \<Rightarrow> None
            | Inr enc \<Rightarrow>
                (case mbedtls_aes_xts_setkey_dec key 512 of
                   Inl _ \<Rightarrow> None
                 | Inr dec \<Rightarrow> Some (Stage_aes enc dec)))
      else if cid = VC_CIPHER_SERPENT then
        Some (Stage_serpent (serpent_set_key_256 (take 32 primary)) (serpent_set_key_256 (take 32 secondary)))
      else if cid = VC_CIPHER_TWOFISH then
        (case twofish_setup primary 32 0 of
           Inl _ \<Rightarrow> None
         | Inr data \<Rightarrow>
             (case twofish_setup secondary 32 0 of
                Inl _ \<Rightarrow> None
              | Inr tk \<Rightarrow> Some (Stage_twofish data tk)))
      else None)"

text \<open>\<^verbatim>\<open>stageCrypt\<close>: the return value of \<^verbatim>\<open>mbedtls_aes_crypt_xts\<close> is ignored, so a refused call leaves
  the buffer as it is.\<close>

fun stageCrypt :: "Stage \<Rightarrow> bool \<Rightarrow> bytes \<Rightarrow> bytes \<Rightarrow> nat \<Rightarrow> bytes option" where
  "stageCrypt (Stage_aes enc dec) encrypt tw buf len =
     (if length buf < len then None
      else case mbedtls_aes_crypt_xts (if encrypt then enc else dec)
             (if encrypt then MBEDTLS_AES_ENCRYPT else MBEDTLS_AES_DECRYPT) len tw buf of
             Inl _ \<Rightarrow> Some buf
           | Inr out \<Rightarrow> Some out)"
| "stageCrypt (Stage_serpent data tk) encrypt tw buf len =
     xts_generic_crypt (if encrypt then serpent_encrypt_block data else serpent_decrypt_block data)
       (serpent_encrypt_block tk) tw buf len"
| "stageCrypt (Stage_twofish data tk) encrypt tw buf len =
     xts_generic_crypt (if encrypt then twofish_ecb_encrypt data else twofish_ecb_decrypt data)
       (twofish_ecb_encrypt tk) tw buf len"

section \<open>The cascade\<close>

record VcCascade =
  n_stages :: int
  stages :: "Stage list"

definition vc_cascade_new :: "int list \<Rightarrow> int \<Rightarrow> bytes \<Rightarrow> VcCascade option" where
  "vc_cascade_new ids n key =
     (if n < 1 \<or> n > VC_MAX_CASCADE \<or> int (length key) < 64 * n then None
      else map_option (\<lambda>ss. \<lparr>n_stages = n, stages = ss\<rparr>)
             (those (map (\<lambda>i. stageInit (ids ! i) (drop (32 * i) key) (drop (32 * (nat n + i)) key)) [0..<nat n])))"

text \<open>The loop over the stages of the unit functions, for the crypt call of one stage.\<close>

fun run_stages :: "('s \<Rightarrow> bytes \<Rightarrow> bytes option) \<Rightarrow> 's list \<Rightarrow> bytes \<Rightarrow> bytes option" where
  "run_stages f [] buf = Some buf"
| "run_stages f (s # ss) buf =
     (case f s buf of
        None \<Rightarrow> None
      | Some buf \<Rightarrow> run_stages f ss buf)"

definition vc_cascade_encrypt_unit :: "VcCascade \<Rightarrow> u64 \<Rightarrow> bytes \<Rightarrow> nat \<Rightarrow> bytes option" where
  "vc_cascade_encrypt_unit c unit_no buf len =
     run_stages (\<lambda>s buf. stageCrypt s True (unitTweak unit_no) buf len) (stages c) buf"

definition vc_cascade_decrypt_unit :: "VcCascade \<Rightarrow> u64 \<Rightarrow> bytes \<Rightarrow> nat \<Rightarrow> bytes option" where
  "vc_cascade_decrypt_unit c unit_no buf len =
     run_stages (\<lambda>s buf. stageCrypt s False (unitTweak unit_no) buf len) (rev (stages c)) buf"

section \<open>The native entry points\<close>

text \<open>\<^verbatim>\<open>readCipherIds\<close>: \<open>None\<close> is the count 0.\<close>

definition readCipherIds :: "int list \<Rightarrow> int list option" where
  "readCipherIds jCiphers =
     (if length jCiphers < 1 \<or> int (length jCiphers) > VC_MAX_CASCADE then None else Some jCiphers)"

text \<open>The sector loop of \<^verbatim>\<open>cryptSectorsInPlace\<close> on the bytes from \<^verbatim>\<open>data\<close> on.\<close>

fun crypt_sectors :: "VcCascade \<Rightarrow> int \<Rightarrow> u64 \<Rightarrow> nat \<Rightarrow> bytes \<Rightarrow> bytes option" where
  "crypt_sectors cascade direction unit 0 p = Some p"
| "crypt_sectors cascade direction unit (Suc m) p =
     (case (if direction = 1 then vc_cascade_encrypt_unit else vc_cascade_decrypt_unit) cascade unit p 512 of
        None \<Rightarrow> None
      | Some p \<Rightarrow>
          (case crypt_sectors cascade direction (unit + 1) m (drop 512 p) of
             None \<Rightarrow> None
           | Some rest \<Rightarrow> Some (take 512 p @ rest)))"

text \<open>\<^verbatim>\<open>cryptSectorsInPlace\<close>: the result code and the array afterwards. \<open>offset + length\<close> is the 32-bit
  sum of the source, which wraps.\<close>

definition cryptSectorsInPlace ::
  "int list \<Rightarrow> int \<Rightarrow> bytes \<Rightarrow> u64 \<Rightarrow> bytes \<Rightarrow> 32 word \<Rightarrow> 32 word \<Rightarrow> (int \<times> bytes) option" where
  "cryptSectorsInPlace jCiphers direction masterKey startSector buffer offset len =
     (case readCipherIds jCiphers of
        None \<Rightarrow> Some (-1, buffer)
      | Some ids \<Rightarrow>
          if sint len \<le> 0 \<or> sint len mod 512 \<noteq> 0 then Some (-1, buffer)
          else if sint offset < 0 \<or> sint (offset + len) > int (length buffer) then Some (-1, buffer)
          else
            (case vc_cascade_new ids (int (length ids)) masterKey of
               None \<Rightarrow> Some (-1, buffer)
             | Some cascade \<Rightarrow>
                 (let off = nat (sint offset) in
                  case crypt_sectors cascade direction startSector (nat (sint len div 512)) (drop off buffer) of
                    None \<Rightarrow> None
                  | Some d \<Rightarrow> Some (0, take off buffer @ d))))"

definition HEADER_ENCRYPTED_SIZE :: nat where "HEADER_ENCRYPTED_SIZE = 448"
definition ARGON2_HEADER_KEYDATA_SIZE :: nat where "ARGON2_HEADER_KEYDATA_SIZE = 192"
definition KDF_PBKDF2_SHA512 :: int where "KDF_PBKDF2_SHA512 = 0"
definition KDF_ARGON2ID :: int where "KDF_ARGON2ID = 1"

text \<open>How a header call ends: an array, null, or null with a pending exception that carries the
  Argon2 error code.\<close>

datatype header_result = Header bytes | Null | IllegalState int

text \<open>\<^verbatim>\<open>cryptHeader\<close>, for the two key derivation functions of the vendored libraries: \<open>argon2\<close> gives the
  return code and the output of \<^verbatim>\<open>argon2id_hash_raw\<close> for the time and memory cost, password, salt and
  output length, \<open>pbkdf2\<close> those of \<^verbatim>\<open>mbedtls_pkcs5_pbkdf2_hmac\<close> over SHA-512.\<close>

type_synonym argon2_fn = "32 word \<Rightarrow> 32 word \<Rightarrow> bytes \<Rightarrow> bytes \<Rightarrow> nat \<Rightarrow> int \<times> bytes"
type_synonym pbkdf2_fn = "bytes \<Rightarrow> bytes \<Rightarrow> 32 word \<Rightarrow> nat \<Rightarrow> int \<times> bytes"

definition cryptHeader ::
  "argon2_fn \<Rightarrow> pbkdf2_fn \<Rightarrow> int list \<Rightarrow> int \<Rightarrow> bytes \<Rightarrow> bytes \<Rightarrow> 32 word \<Rightarrow> 32 word \<Rightarrow> bytes \<Rightarrow> bool \<Rightarrow> header_result option" where
  "cryptHeader argon2 pbkdf2 jCiphers kdf pwd salt iterations memoryKiB jEncHeader encrypt =
     (case readCipherIds jCiphers of
        None \<Rightarrow> Some Null
      | Some ids \<Rightarrow>
          if length jEncHeader < HEADER_ENCRYPTED_SIZE then Some Null
          else
            let keyBytes = 64 * length ids;
                (ret, headerKey) =
                  (if kdf = KDF_ARGON2ID then argon2 iterations memoryKiB pwd salt ARGON2_HEADER_KEYDATA_SIZE
                   else if kdf = KDF_PBKDF2_SHA512 then pbkdf2 pwd salt iterations keyBytes
                   else (-1, []))
            in if ret \<noteq> 0 then Some (if kdf = KDF_ARGON2ID then IllegalState ret else Null)
               else
                 (case vc_cascade_new ids (int (length ids)) (take keyBytes headerKey) of
                    None \<Rightarrow> Some Null
                  | Some cascade \<Rightarrow>
                      map_option Header
                        ((if encrypt then vc_cascade_encrypt_unit else vc_cascade_decrypt_unit) cascade 0
                           (take HEADER_ENCRYPTED_SIZE jEncHeader) HEADER_ENCRYPTED_SIZE)))"

definition decryptHeader ::
  "argon2_fn \<Rightarrow> pbkdf2_fn \<Rightarrow> int list \<Rightarrow> int \<Rightarrow> bytes \<Rightarrow> bytes \<Rightarrow> 32 word \<Rightarrow> 32 word \<Rightarrow> bytes \<Rightarrow> header_result option" where
  "decryptHeader argon2 pbkdf2 jCiphers kdf pwd salt iterations memoryKiB jEncHeader =
     cryptHeader argon2 pbkdf2 jCiphers kdf pwd salt iterations memoryKiB jEncHeader False"

definition encryptHeader ::
  "argon2_fn \<Rightarrow> pbkdf2_fn \<Rightarrow> int list \<Rightarrow> int \<Rightarrow> bytes \<Rightarrow> bytes \<Rightarrow> 32 word \<Rightarrow> 32 word \<Rightarrow> bytes \<Rightarrow> header_result option" where
  "encryptHeader argon2 pbkdf2 jCiphers kdf pwd salt iterations memoryKiB jPlainHeader =
     cryptHeader argon2 pbkdf2 jCiphers kdf pwd salt iterations memoryKiB jPlainHeader True"

section \<open>The contract of a stage\<close>

context block_cipher
begin

lemma xts_unit:
  assumes "ok k" "ok kt" "length t = 16" "16 dvd length buf"
  shows "\<exists>c. length c = length buf \<and> (\<forall>rest.
    xts_generic_crypt (if e then enc k else dec k) (enc kt) t (buf @ rest) (length buf) = Some (c @ rest) \<and>
    xts_generic_crypt (if \<not> e then enc k else dec k) (enc kt) t (c @ rest) (length buf) = Some (buf @ rest))"
proof (cases e)
  case True
  then show ?thesis using assms
    by (intro exI [of _ "xts_blocks (enc k) (enc kt t) buf"])
      (simp add: xts_enc xts_dec length_xts_enc xts_blocks_inverse length_enc dec_enc)
next
  case False
  then show ?thesis using assms
    by (intro exI [of _ "xts_blocks (dec k) (enc kt t) buf"])
      (simp add: xts_enc xts_dec length_xts_dec xts_blocks_inverse length_enc length_dec enc_dec)
qed

end

text \<open>What the cascade relies on: a stage crypts a data unit of whole blocks in place, never fails on it,
  leaves the bytes behind the unit alone, and the other direction undoes it.\<close>

locale xts_stage =
  fixes ok :: "'s \<Rightarrow> bool"
    and crypt_unit :: "'s \<Rightarrow> bool \<Rightarrow> bytes \<Rightarrow> bytes \<Rightarrow> nat \<Rightarrow> bytes option"
  assumes unit_inverse: "ok s \<Longrightarrow> length t = 16 \<Longrightarrow> 16 dvd length buf \<Longrightarrow>
    \<exists>c. length c = length buf \<and> (\<forall>rest.
      crypt_unit s e t (buf @ rest) (length buf) = Some (c @ rest) \<and>
      crypt_unit s (\<not> e) t (c @ rest) (length buf) = Some (buf @ rest))"
begin

lemma run_stages_append:
  "run_stages f (xs @ ys) buf = Option.bind (run_stages f xs buf) (run_stages f ys)"
  by (induction xs arbitrary: buf) (auto split: option.splits)

lemma stages_inverse:
  assumes "list_all ok ss" "length t = 16" "16 dvd length buf"
  shows "\<exists>c. length c = length buf \<and> (\<forall>rest.
    run_stages (\<lambda>s b. crypt_unit s e t b (length buf)) ss (buf @ rest) = Some (c @ rest) \<and>
    run_stages (\<lambda>s b. crypt_unit s (\<not> e) t b (length buf)) (rev ss) (c @ rest) = Some (buf @ rest))"
  using assms
proof (induction ss arbitrary: buf)
  case (Cons s ss)
  from Cons.prems unit_inverse [of s t buf e] obtain b where b: "length b = length buf"
    "\<And>rest. crypt_unit s e t (buf @ rest) (length buf) = Some (b @ rest)"
    "\<And>rest. crypt_unit s (\<not> e) t (b @ rest) (length buf) = Some (buf @ rest)" by auto
  from Cons.IH [of b] Cons.prems b(1) obtain c where "length c = length b"
    "\<And>rest. run_stages (\<lambda>s b. crypt_unit s e t b (length buf)) ss (b @ rest) = Some (c @ rest)"
    "\<And>rest. run_stages (\<lambda>s b. crypt_unit s (\<not> e) t b (length buf)) (rev ss) (c @ rest) = Some (b @ rest)"
    by auto
  with b show ?case by (intro exI [of _ c]) (simp add: run_stages_append)
qed simp

end

fun ok_stage :: "Stage \<Rightarrow> bool" where
  "ok_stage (Stage_aes enc dec) = xts_pair enc dec"
| "ok_stage (Stage_serpent _ _) = True"
| "ok_stage (Stage_twofish _ _) = True"

lemma aes_stage_unit:
  assumes k: "xts_pair ce cd" and "length t = 16" "16 dvd length buf"
  shows "\<exists>c. length c = length buf \<and> (\<forall>rest.
      stageCrypt (Stage_aes ce cd) e t (buf @ rest) (length buf) = Some (c @ rest) \<and>
      stageCrypt (Stage_aes ce cd) (\<not> e) t (c @ rest) (length buf) = Some (buf @ rest))"
proof (cases "0 < length buf \<and> length buf \<le> 2 ^ 24")
  case True
  note keys = xts_pair_keys [OF k]
  obtain td where td: "aes_pair (tweak ce, td)" using keys(3) by blast
  have stage: "stageCrypt (Stage_aes ce cd) d t b (length buf) =
      xts_generic_crypt (if d then mbedtls_internal_aes_encrypt (crypt ce) else mbedtls_internal_aes_decrypt (crypt cd))
        (mbedtls_internal_aes_encrypt (tweak ce)) t b (length buf)" if "length buf \<le> length b" for d b
  proof -
    have ecb: "mbedtls_aes_crypt_ecb c MBEDTLS_AES_ENCRYPT = mbedtls_internal_aes_encrypt c"
      "mbedtls_aes_crypt_ecb c MBEDTLS_AES_DECRYPT = mbedtls_internal_aes_decrypt c" for c by (auto intro!: ext)
    show ?thesis
      using aes_crypt_xts_generic [of "length buf" b "if d then ce else cd"
          "if d then MBEDTLS_AES_ENCRYPT else MBEDTLS_AES_DECRYPT" t] True assms(3) that keys(2)
      by (cases d) (auto simp: ecb)
  qed
  show ?thesis
    using aes.xts_unit [of "(crypt ce, crypt cd)" "(tweak ce, td)" t buf e] keys(1) td assms
    by (fastforce simp: stage simp del: stageCrypt.simps)
next
  case False
  then have "mbedtls_aes_crypt_xts c m (length buf) t b = Inl MBEDTLS_ERR_AES_INVALID_INPUT_LENGTH" for c m b
    by (auto simp: mbedtls_aes_crypt_xts_def)
  then show ?thesis by (intro exI [of _ buf]) simp
qed

interpretation stage: xts_stage ok_stage stageCrypt
proof
  fix s t and buf :: bytes and e
  assume "ok_stage s" and t: "length (t :: bytes) = 16" "16 dvd length buf"
  then show "\<exists>c. length c = length buf \<and> (\<forall>rest.
      stageCrypt s e t (buf @ rest) (length buf) = Some (c @ rest) \<and>
      stageCrypt s (\<not> e) t (c @ rest) (length buf) = Some (buf @ rest))"
  proof (cases s)
    case (Stage_aes ce cd)
    then show ?thesis using aes_stage_unit [of ce cd t buf e] \<open>ok_stage s\<close> t by simp
  next
    case (Stage_serpent k kt)
    then show ?thesis using serpent.xts_unit [where k = k and kt = kt and t = t and buf = buf and e = e] t by simp
  next
    case (Stage_twofish k kt)
    then show ?thesis using twofish.xts_unit [where k = k and kt = kt and t = t and buf = buf and e = e] t by simp
  qed
qed

section \<open>Setting up the stages\<close>

lemma stageInit_ok: "stageInit cid primary secondary = Some s \<Longrightarrow> ok_stage s"
  by (auto simp: stageInit_def Let_def split: if_splits sum.splits) (auto simp: xts_pair_def)

lemma twofish_setup_32: "\<exists>k. twofish_setup key 32 0 = Inr k"
  by (simp add: twofish_setup_def Let_def)

lemma stageInit_succeeds:
  assumes "32 \<le> length primary" "32 \<le> length secondary"
  shows "stageInit cid primary secondary \<noteq> None \<longleftrightarrow> cid \<in> {VC_CIPHER_AES, VC_CIPHER_SERPENT, VC_CIPHER_TWOFISH}"
proof -
  obtain e d where "mbedtls_aes_xts_setkey_enc (take 32 primary @ take 32 secondary) 512 = Inr e"
    "mbedtls_aes_xts_setkey_dec (take 32 primary @ take 32 secondary) 512 = Inr d"
    using xts_setkeys_succeed [of 512 "take 32 primary @ take 32 secondary"] by auto
  moreover obtain k1 k2 where "twofish_setup primary 32 0 = Inr k1" "twofish_setup secondary 32 0 = Inr k2"
    using twofish_setup_32 by meson
  ultimately show ?thesis by (simp add: stageInit_def Let_def vc_ids)
qed

lemma those_Some: "those xs = Some ys \<longleftrightarrow> xs = map Some ys"
  by (induction xs arbitrary: ys) (auto split: option.splits)

lemma those_None: "those xs = None \<longleftrightarrow> None \<in> set xs"
  by (induction xs) (auto split: option.splits)

lemma vc_cascade_new_Some:
  "vc_cascade_new ids n key = Some c \<longleftrightarrow>
     1 \<le> n \<and> n \<le> VC_MAX_CASCADE \<and> 64 * n \<le> int (length key) \<and> n_stages c = n \<and>
     map (\<lambda>i. stageInit (ids ! i) (drop (32 * i) key) (drop (32 * (nat n + i)) key)) [0..<nat n] = map Some (stages c)"
  by (cases c) (auto simp: vc_cascade_new_def those_Some)

lemma vc_cascade_new_ok: "vc_cascade_new ids n key = Some c \<Longrightarrow> list_all ok_stage (stages c)"
proof (unfold vc_cascade_new_Some list_all_iff, intro ballI, elim conjE)
  fix s assume m: "map (\<lambda>i. stageInit (ids ! i) (drop (32 * i) key) (drop (32 * (nat n + i)) key)) [0..<nat n] =
      map Some (stages c)" and "s \<in> set (stages c)"
  then have "Some s \<in> set (map (\<lambda>i. stageInit (ids ! i) (drop (32 * i) key) (drop (32 * (nat n + i)) key)) [0..<nat n])"
    by simp
  then show "ok_stage s" by (auto dest: sym intro: stageInit_ok)
qed

abbreviation known_id :: "int \<Rightarrow> bool" where
  "known_id i \<equiv> i \<in> {VC_CIPHER_AES, VC_CIPHER_SERPENT, VC_CIPHER_TWOFISH}"

lemma vc_cascade_new_succeeds:
  "vc_cascade_new ids n key \<noteq> None \<longleftrightarrow>
     1 \<le> n \<and> n \<le> 3 \<and> 64 * n \<le> int (length key) \<and> (\<forall>i < nat n. known_id (ids ! i))"
proof (cases "1 \<le> n \<and> n \<le> 3 \<and> 64 * n \<le> int (length key)")
  case True
  let ?init = "\<lambda>i. stageInit (ids ! i) (drop (32 * i) key) (drop (32 * (nat n + i)) key)"
  have "?init i \<noteq> None \<longleftrightarrow> known_id (ids ! i)" if "i < nat n" for i
    using that True by (intro stageInit_succeeds) auto
  moreover have "vc_cascade_new ids n key \<noteq> None \<longleftrightarrow> None \<notin> ?init ` {0..<nat n}"
    using True by (auto simp: vc_cascade_new_def those_None VC_MAX_CASCADE_def simp del: image_iff)
  moreover have "None \<notin> ?init ` {0..<nat n} \<longleftrightarrow> (\<forall>i < nat n. ?init i \<noteq> None)"
    by (auto simp: image_iff eq_commute [of None] simp del: not_None_eq)
  ultimately show ?thesis using True by presburger
next
  case False
  then show ?thesis by (auto simp: vc_cascade_new_def VC_MAX_CASCADE_def)
qed

section \<open>Data units and sectors\<close>

lemma length_unitTweak: "length (unitTweak u) = 16"
  by (simp add: unitTweak_def)

abbreviation unit_crypt :: "bool \<Rightarrow> VcCascade \<Rightarrow> u64 \<Rightarrow> bytes \<Rightarrow> nat \<Rightarrow> bytes option" where
  "unit_crypt e \<equiv> if e then vc_cascade_encrypt_unit else vc_cascade_decrypt_unit"

lemma unit_crypt_inverse:
  assumes "list_all ok_stage (stages c)" "16 dvd length buf"
  shows "\<exists>x. length x = length buf \<and> (\<forall>rest.
    unit_crypt e c u (buf @ rest) (length buf) = Some (x @ rest) \<and>
    unit_crypt (\<not> e) c u (x @ rest) (length buf) = Some (buf @ rest))"
proof (cases e)
  case True
  then show ?thesis
    using stage.stages_inverse [OF assms(1) length_unitTweak assms(2), of True u]
    by (simp add: vc_cascade_encrypt_unit_def vc_cascade_decrypt_unit_def)
next
  case False
  have "list_all ok_stage (rev (stages c))" using assms(1) by (simp add: list_all_iff)
  with False show ?thesis
    using stage.stages_inverse [OF _ length_unitTweak assms(2), of "rev (stages c)" False u]
    by (simp add: vc_cascade_encrypt_unit_def vc_cascade_decrypt_unit_def)
qed

lemma unit_crypt_in_buffer:
  assumes "list_all ok_stage (stages c)" "16 dvd len" "len \<le> length buf"
  shows "\<exists>x. length x = length buf \<and> drop len x = drop len buf \<and>
    unit_crypt e c u buf len = Some x \<and> unit_crypt (\<not> e) c u x len = Some buf"
proof -
  have len: "length (take len buf) = len" using assms(3) by simp
  obtain x where x: "length x = len" "\<forall>rest. unit_crypt e c u (take len buf @ rest) len = Some (x @ rest) \<and>
      unit_crypt (\<not> e) c u (x @ rest) len = Some (take len buf @ rest)"
    using unit_crypt_inverse [OF assms(1), of "take len buf" e u, unfolded len, OF assms(2)] by blast
  from spec [OF x(2), of "drop len buf"] x(1) assms(3) show ?thesis
    by (intro exI [of _ "x @ drop len buf"]) simp
qed

lemma crypt_sectors_inverse:
  assumes "list_all ok_stage (stages c)" "length buf = 512 * m" "d' = 1 \<longleftrightarrow> d \<noteq> 1"
  shows "\<exists>x. length x = length buf \<and>
    (\<forall>rest. crypt_sectors c d u m (buf @ rest) = Some (x @ rest) \<and>
            crypt_sectors c d' u m (x @ rest) = Some (buf @ rest)) \<and>
    (\<forall>k < m. unit_crypt (d = 1) c (u + of_nat k) (take 512 (drop (512 * k) buf)) 512 = Some (take 512 (drop (512 * k) x)))"
  using assms(2)
proof (induction m arbitrary: u buf)
  case (Suc m)
  let ?s = "take 512 buf"
  have s: "length ?s = 512" using Suc.prems by simp
  have join: "?s @ drop 512 buf @ rest = buf @ rest" for rest by (simp flip: append_assoc)
  obtain y where y: "length y = 512" "\<And>rest. unit_crypt (d = 1) c u (?s @ rest) 512 = Some (y @ rest)"
    "\<And>rest. unit_crypt (d' = 1) c u (y @ rest) 512 = Some (?s @ rest)"
    using unit_crypt_inverse [OF assms(1), of ?s "d = 1" u] s assms(3) by auto
  obtain x where x: "length x = 512 * m"
    "\<And>rest. crypt_sectors c d (u + 1) m (drop 512 buf @ rest) = Some (x @ rest)"
    "\<And>rest. crypt_sectors c d' (u + 1) m (x @ rest) = Some (drop 512 buf @ rest)"
    "\<And>k. k < m \<Longrightarrow> unit_crypt (d = 1) c (u + 1 + of_nat k) (take 512 (drop (512 * k) (drop 512 buf))) 512 =
       Some (take 512 (drop (512 * k) x))"
    using Suc.IH [of "drop 512 buf" "u + 1"] Suc.prems by auto
  have "crypt_sectors c d u (Suc m) (buf @ rest) = Some ((y @ x) @ rest)" for rest
    using y(1) y(2) [of "drop 512 buf @ rest", unfolded join] x(2) [of rest] by simp
  moreover have "crypt_sectors c d' u (Suc m) ((y @ x) @ rest) = Some (buf @ rest)" for rest
    using y(1) y(3) [of "x @ rest"] x(3) [of rest] s join by simp
  moreover have "unit_crypt (d = 1) c (u + of_nat k) (take 512 (drop (512 * k) buf)) 512 =
      Some (take 512 (drop (512 * k) (y @ x)))" if "k < Suc m" for k
  proof (cases k)
    case 0
    then show ?thesis using y(1) y(2) [of "[]"] by simp
  next
    case (Suc j)
    then show ?thesis using x(4) [of j] that y(1) by (simp add: add.assoc add.commute [of "512 * j"])
  qed
  ultimately show ?case using x(1) y(1) Suc.prems by (intro exI [of _ "y @ x"]) simp
qed auto

section \<open>The native calls\<close>

lemma vc_cascade_new_ids: "vc_cascade_new ids (int (length ids)) key = Some c \<Longrightarrow> readCipherIds ids = Some ids"
  by (cases ids) (simp_all add: vc_cascade_new_Some readCipherIds_def)

lemma sint_add_small:
  fixes a b :: "32 word"
  assumes "0 \<le> sint a" "0 \<le> sint b" "sint a + sint b < 2 ^ 31"
  shows "sint (a + b) = sint a + sint b"
  using assms by (simp add: sint_word_ariths signed_take_bit_int_eq_self_iff)

lemma sint_add_wraps:
  fixes a b :: "32 word"
  assumes "2 ^ 31 \<le> sint a + sint b"
  shows "sint (a + b) = sint a + sint b - 2 ^ 32" "sint a < 2 ^ 31" "sint b < 2 ^ 31"
proof -
  show "sint a < 2 ^ 31" "sint b < 2 ^ 31" using sint_less [of a] sint_less [of b] by simp_all
  then have "(sint a + sint b + 2 ^ 31) mod 2 ^ 32 = sint a + sint b + 2 ^ 31 - 2 ^ 32"
    using assms by (subst mod_pos_geq) (simp_all add: mod_pos_pos_trivial)
  then show "sint (a + b) = sint a + sint b - 2 ^ 32"
    by (simp add: sint_word_ariths signed_take_bit_eq_take_bit_shift take_bit_eq_mod)
qed

lemma stageCrypt_outside: "stageCrypt s e t [] 512 = None"
  by (cases s) (simp_all add: xts_generic_crypt_def xts_loop.simps)

lemma unit_crypt_outside: "stages c \<noteq> [] \<Longrightarrow> unit_crypt e c u [] 512 = None"
  by (cases "stages c"; cases "rev (stages c)")
    (auto simp: vc_cascade_encrypt_unit_def vc_cascade_decrypt_unit_def stageCrypt_outside)

text \<open>The arguments for which the loop of \<^verbatim>\<open>cryptSectorsInPlace\<close> runs inside the array.\<close>

definition sector_range :: "32 word \<Rightarrow> 32 word \<Rightarrow> bytes \<Rightarrow> bool" where
  "sector_range offset len buffer \<longleftrightarrow>
     0 \<le> sint offset \<and> 0 < sint len \<and> sint len mod 512 = 0 \<and>
     sint offset + sint len \<le> int (length buffer) \<and> length buffer < 2 ^ 31"

lemma cryptSectorsInPlace_in_range:
  assumes "vc_cascade_new ids (int (length ids)) key = Some c" "sector_range offset len buffer"
  shows "cryptSectorsInPlace ids d key start buffer offset len =
    map_option (\<lambda>x. (0, take (nat (sint offset)) buffer @ x))
      (crypt_sectors c d start (nat (sint len div 512)) (drop (nat (sint offset)) buffer))"
  using assms(2) vc_cascade_new_ids [OF assms(1)] assms(1)
  by (auto simp: sector_range_def cryptSectorsInPlace_def sint_add_small Let_def split: option.splits)

lemma cryptSectorsInPlace_inverse:
  fixes offset len :: "32 word" and buffer :: bytes
  defines "o' \<equiv> nat (sint offset)" and "m \<equiv> nat (sint len div 512)"
  assumes c: "vc_cascade_new ids (int (length ids)) key = Some c" and r: "sector_range offset len buffer"
    and d: "d' = 1 \<longleftrightarrow> d \<noteq> 1"
  shows "\<exists>out. cryptSectorsInPlace ids d key start buffer offset len = Some (0, out) \<and>
    cryptSectorsInPlace ids d' key start out offset len = Some (0, buffer) \<and>
    length out = length buffer \<and> take o' out = take o' buffer \<and> drop (o' + 512 * m) out = drop (o' + 512 * m) buffer \<and>
    (\<forall>k < m. unit_crypt (d = 1) c (start + of_nat k) (take 512 (drop (o' + 512 * k) buffer)) 512 =
       Some (take 512 (drop (o' + 512 * k) out)))"
proof -
  have len: "o' + 512 * m \<le> length buffer"
    using r by (auto simp: sector_range_def o'_def m_def dvd_eq_mod_eq_0 [symmetric] elim!: dvdE)
  let ?b = "take (512 * m) (drop o' buffer)"
  let ?r = "drop (o' + 512 * m) buffer"
  have b: "length ?b = 512 * m" "drop o' buffer = ?b @ ?r" using len append_take_drop_id [of "512 * m" "drop o' buffer"] by (simp_all add: add.commute)
  obtain x where x0: "length x = length ?b"
    "\<forall>rest. crypt_sectors c d start m (?b @ rest) = Some (x @ rest) \<and> crypt_sectors c d' start m (x @ rest) = Some (?b @ rest)"
    "\<forall>k < m. unit_crypt (d = 1) c (start + of_nat k) (take 512 (drop (512 * k) ?b)) 512 = Some (take 512 (drop (512 * k) x))"
    using crypt_sectors_inverse [OF vc_cascade_new_ok [OF c] b(1) d, of start] by blast
  note x = x0(1) [unfolded b(1)] conjunct1 [OF spec [OF x0(2), of ?r], folded b(2)]
    conjunct2 [OF spec [OF x0(2), of ?r], folded b(2)] x0(3)
  let ?out = "take o' buffer @ x @ ?r"
  have out: "length ?out = length buffer" using len x(1) by simp
  then have "sector_range offset len ?out" using r unfolding sector_range_def by metis
  then have "cryptSectorsInPlace ids d' key start ?out offset len = Some (0, buffer)"
    using cryptSectorsInPlace_in_range [OF c, of offset len ?out] x(3) len by (simp flip: o'_def m_def)
  moreover have "take 512 (drop (512 * k) ?b) = take 512 (drop (o' + 512 * k) buffer)"
    "take 512 (drop (512 * k) x) = take 512 (drop (o' + 512 * k) ?out)" if "k < m" for k
  proof -
    have k: "512 \<le> 512 * m - 512 * k" using that by simp
    then show "take 512 (drop (512 * k) ?b) = take 512 (drop (o' + 512 * k) buffer)"
      by (simp add: drop_take min_def add.commute)
    show "take 512 (drop (512 * k) x) = take 512 (drop (o' + 512 * k) ?out)"
      using k x(1) len by simp
  qed
  ultimately show ?thesis
    using cryptSectorsInPlace_in_range [OF c r, of d start] x len out
    by (intro exI [of _ ?out]) (simp flip: o'_def m_def)
qed

text \<open>The cascade a header call sets up, where the derivation and the setup succeed.\<close>

definition header_cascade ::
  "argon2_fn \<Rightarrow> pbkdf2_fn \<Rightarrow> int list \<Rightarrow> int \<Rightarrow> bytes \<Rightarrow> bytes \<Rightarrow> 32 word \<Rightarrow> 32 word \<Rightarrow> VcCascade option" where
  "header_cascade argon2 pbkdf2 ids kdf pwd salt iterations memoryKiB =
     (let (ret, headerKey) =
            (if kdf = KDF_ARGON2ID then argon2 iterations memoryKiB pwd salt ARGON2_HEADER_KEYDATA_SIZE
             else if kdf = KDF_PBKDF2_SHA512 then pbkdf2 pwd salt iterations (64 * length ids)
             else (-1, []))
      in if readCipherIds ids = None \<or> ret \<noteq> 0 then None
         else vc_cascade_new ids (int (length ids)) (take (64 * length ids) headerKey))"

lemma header_cascade_ok:
  "header_cascade argon2 pbkdf2 ids kdf pwd salt iterations memoryKiB = Some c \<Longrightarrow> list_all ok_stage (stages c)"
  by (auto simp: header_cascade_def Let_def vc_cascade_new_ok split: if_splits prod.splits)

lemma readCipherIds_cases: "readCipherIds ids = None \<or> readCipherIds ids = Some ids"
  by (simp add: readCipherIds_def)

lemma cryptHeader_cascade:
  assumes "header_cascade argon2 pbkdf2 ids kdf pwd salt iterations memoryKiB = Some c" "448 \<le> length h"
  shows "cryptHeader argon2 pbkdf2 ids kdf pwd salt iterations memoryKiB h e =
    map_option Header (unit_crypt e c 0 (take 448 h) 448)"
  using assms readCipherIds_cases [of ids]
  by (auto simp: header_cascade_def cryptHeader_def HEADER_ENCRYPTED_SIZE_def Let_def split: if_splits prod.splits)

lemma cryptHeader_Header:
  assumes "cryptHeader argon2 pbkdf2 ids kdf pwd salt iterations memoryKiB h e = Some (Header x)"
  shows "\<exists>c. header_cascade argon2 pbkdf2 ids kdf pwd salt iterations memoryKiB = Some c \<and>
    unit_crypt e c 0 (take 448 h) 448 = Some x \<and> 448 \<le> length h"
  using assms readCipherIds_cases [of ids]
  by (auto simp: header_cascade_def cryptHeader_def HEADER_ENCRYPTED_SIZE_def Let_def
      split: if_splits prod.splits option.splits)

lemma encrypted_header_opens:
  assumes "encryptHeader argon2 pbkdf2 ids kdf pwd salt iterations memoryKiB plain = Some (Header x)"
  shows "length x = 448"
    "decryptHeader argon2 pbkdf2 ids kdf pwd salt iterations memoryKiB x = Some (Header (take 448 plain))"
proof -
  obtain c where c: "header_cascade argon2 pbkdf2 ids kdf pwd salt iterations memoryKiB = Some c"
    and enc: "vc_cascade_encrypt_unit c 0 (take 448 plain) 448 = Some x" and len: "448 \<le> length plain"
    using cryptHeader_Header [OF assms [unfolded encryptHeader_def]] by auto
  have "list_all ok_stage (stages c)" using c header_cascade_ok by blast
  then obtain y where "length y = 448" "vc_cascade_encrypt_unit c 0 (take 448 plain) 448 = Some y"
    "vc_cascade_decrypt_unit c 0 y 448 = Some (take 448 plain)"
    using unit_crypt_in_buffer [of c 448 "take 448 plain" True 0] len by auto
  with enc c len show "length x = 448"
    "decryptHeader argon2 pbkdf2 ids kdf pwd salt iterations memoryKiB x = Some (Header (take 448 plain))"
    by (simp_all add: decryptHeader_def cryptHeader_cascade)
qed

section \<open>Properties\<close>

text \<open>\<^verbatim>\<open>vc_cascade_new\<close> succeeds exactly for one to three known cipher ids and a key of at least 64
  bytes per cipher, and then stage \<open>i\<close> is set up from the \<open>i\<close>-th 32 bytes as primary key and from the
  32 bytes \<open>n\<close> places further as secondary key.\<close>

lemma vc_cascade_new_result:
  assumes "nat n \<le> length ids"
  shows "(vc_cascade_new ids n key \<noteq> None \<longleftrightarrow>
      1 \<le> n \<and> n \<le> 3 \<and> 64 * n \<le> int (length key) \<and> (\<forall>i < nat n. known_id (ids ! i))) \<and>
    (\<forall>c. vc_cascade_new ids n key = Some c \<longrightarrow>
      length (stages c) = nat n \<and>
      (\<forall>i < nat n. Some (stages c ! i) = stageInit (ids ! i) (drop (32 * i) key) (drop (32 * (nat n + i)) key)))"
proof (intro conjI allI impI)
  show "vc_cascade_new ids n key \<noteq> None \<longleftrightarrow>
      1 \<le> n \<and> n \<le> 3 \<and> 64 * n \<le> int (length key) \<and> (\<forall>i < nat n. known_id (ids ! i))"
    by (rule vc_cascade_new_succeeds)
next
  fix c assume c: "vc_cascade_new ids n key = Some c"
  let ?init = "\<lambda>i. stageInit (ids ! i) (drop (32 * i) key) (drop (32 * (nat n + i)) key)"
  from c have m: "map ?init [0..<nat n] = map Some (stages c)" by (simp add: vc_cascade_new_Some)
  then show len: "length (stages c) = nat n" using map_eq_imp_length_eq by fastforce
  show "Some (stages c ! i) = ?init i" if "i < nat n" for i
    using arg_cong [OF m, of "\<lambda>xs. xs ! i"] that len by simp
qed

text \<open>C4. On a data unit of whole blocks the cascade decrypts what it encrypted and encrypts what it
  decrypted, for every cascade, key and unit number, neither direction fails, and the bytes behind
  the unit keep their values.\<close>

theorem vc_cascade_roundtrip:
  assumes "vc_cascade_new ids n key = Some c" "16 dvd len" "len \<le> length buf"
  shows "\<exists>x y. vc_cascade_encrypt_unit c u buf len = Some x \<and> vc_cascade_decrypt_unit c u x len = Some buf \<and>
    vc_cascade_decrypt_unit c u buf len = Some y \<and> vc_cascade_encrypt_unit c u y len = Some buf \<and>
    length x = length buf \<and> length y = length buf \<and> drop len x = drop len buf \<and> drop len y = drop len buf"
  using unit_crypt_in_buffer [OF vc_cascade_new_ok [OF assms(1)] assms(2,3), of True u]
    unit_crypt_in_buffer [OF vc_cascade_new_ok [OF assms(1)] assms(2,3), of False u]
  by auto

theorem vc_cascade_roundtrip_witness:
  "\<exists>c x. vc_cascade_new [VC_CIPHER_SERPENT, VC_CIPHER_TWOFISH, VC_CIPHER_AES] 3 (replicate 192 5) = Some c \<and>
     vc_cascade_encrypt_unit c 9 (replicate 512 1) 512 = Some x \<and> vc_cascade_decrypt_unit c 9 x 512 = Some (replicate 512 1)"
proof -
  obtain c where c: "vc_cascade_new [VC_CIPHER_SERPENT, VC_CIPHER_TWOFISH, VC_CIPHER_AES] 3 (replicate 192 5) = Some c"
    using vc_cascade_new_succeeds [of "[VC_CIPHER_SERPENT, VC_CIPHER_TWOFISH, VC_CIPHER_AES]" 3 "replicate 192 5"]
    by (auto simp: less_Suc_eq numeral_3_eq_3)
  show ?thesis using c vc_cascade_roundtrip [OF c, of 512 "replicate 512 1" 9] by auto
qed

text \<open>C25. \<^verbatim>\<open>cryptSectorsInPlace\<close> on a range inside the array encrypts sector \<open>k\<close> of the range as data unit
  \<^verbatim>\<open>startSector + k\<close>, leaves the bytes outside the range alone, and a call with direction 0 restores
  the array.\<close>

theorem cryptSectors_roundtrip:
  assumes "vc_cascade_new ids (int (length ids)) key = Some c" "sector_range offset len buffer"
  shows "\<exists>out. cryptSectorsInPlace ids 1 key start buffer offset len = Some (0, out) \<and>
    cryptSectorsInPlace ids 0 key start out offset len = Some (0, buffer) \<and>
    length out = length buffer \<and> take (nat (sint offset)) out = take (nat (sint offset)) buffer \<and>
    drop (nat (sint offset) + 512 * nat (sint len div 512)) out = drop (nat (sint offset) + 512 * nat (sint len div 512)) buffer \<and>
    (\<forall>k < nat (sint len div 512).
       vc_cascade_encrypt_unit c (start + of_nat k) (take 512 (drop (nat (sint offset) + 512 * k) buffer)) 512 =
       Some (take 512 (drop (nat (sint offset) + 512 * k) out)))"
  using cryptSectorsInPlace_inverse [OF assms, of 0 1 start] by simp

theorem cryptSectors_roundtrip_witness:
  "\<exists>out. cryptSectorsInPlace [VC_CIPHER_AES] 1 (replicate 64 1) 7 (replicate 1536 9) 512 1024 = Some (0, out) \<and>
     cryptSectorsInPlace [VC_CIPHER_AES] 0 (replicate 64 1) 7 out 512 1024 = Some (0, replicate 1536 9)"
proof -
  obtain c where c: "vc_cascade_new [VC_CIPHER_AES] (int (length [VC_CIPHER_AES])) (replicate 64 1) = Some c"
    using vc_cascade_new_succeeds [of "[VC_CIPHER_AES]" 1 "replicate 64 1"] by auto
  have "sector_range 512 1024 (replicate 1536 9)" by (simp add: sector_range_def)
  from cryptSectors_roundtrip [OF c this, of 7] show ?thesis by blast
qed

text \<open>A call of \<^verbatim>\<open>cryptSectorsInPlace\<close> that does not return 0 returns -1 and leaves the array untouched.\<close>

lemma cryptSectors_failure_untouched:
  assumes "cryptSectorsInPlace ids d key start buffer offset len = Some (rc, out)" "rc \<noteq> 0"
  shows "rc = -1 \<and> out = buffer"
  using assms by (auto simp: cryptSectorsInPlace_def Let_def split: option.splits if_splits)

text \<open>C26. The range check of \<^verbatim>\<open>cryptSectorsInPlace\<close> adds two 32-bit numbers: where the sum exceeds
  2147483647 and wraps, the check passes and the loop runs outside the array, for every cascade.\<close>

theorem cryptSectors_range_check_wraps:
  assumes "vc_cascade_new ids (int (length ids)) key = Some c"
    and "0 < sint len" "sint len mod 512 = 0" "int (length buffer) \<le> sint offset" "2 ^ 31 \<le> sint offset + sint len"
  shows "cryptSectorsInPlace ids d key start buffer offset len = None"
proof -
  have wrap: "sint (offset + len) \<le> int (length buffer)" "0 \<le> sint offset"
    using sint_add_wraps [OF assms(5)] assms(4) by simp_all
  have "stages c \<noteq> []" using assms(1) by (auto simp: vc_cascade_new_Some)
  moreover obtain m where "nat (sint len div 512) = Suc m"
    using assms(2,3) by (cases "nat (sint len div 512)") (auto simp: dvd_eq_mod_eq_0 [symmetric] elim!: dvdE)
  ultimately have "crypt_sectors c d start (nat (sint len div 512)) (drop (nat (sint offset)) buffer) = None"
    using assms(4) unit_crypt_outside [of c "d = 1" start] by simp
  then show ?thesis
    using assms(2,3) wrap vc_cascade_new_ids [OF assms(1)] assms(1) by (simp add: cryptSectorsInPlace_def Let_def)
qed

theorem cryptSectors_range_check_wraps_witness:
  "cryptSectorsInPlace [VC_CIPHER_SERPENT] 0 (replicate 64 1) 0 (replicate 512 0) 0x7FFFFE00 512 = None"
proof -
  obtain c where c: "vc_cascade_new [VC_CIPHER_SERPENT] (int (length [VC_CIPHER_SERPENT])) (replicate 64 1) = Some c"
    using vc_cascade_new_succeeds [of "[VC_CIPHER_SERPENT]" 1 "replicate 64 1"] by auto
  show ?thesis by (rule cryptSectors_range_check_wraps [OF c]) simp_all
qed

text \<open>C27. For any key derivation, a header that \<^verbatim>\<open>encryptHeader\<close> returns is 448 bytes long and
  \<^verbatim>\<open>decryptHeader\<close> with the same password, salt and costs gives the plaintext's 448 bytes back; an
  exception carries the code of a failed Argon2 run.\<close>

theorem header_roundtrip:
  assumes "encryptHeader argon2 pbkdf2 ids kdf pwd salt iterations memoryKiB plain = Some r"
  shows "(\<forall>x. r = Header x \<longrightarrow> length x = 448 \<and>
      decryptHeader argon2 pbkdf2 ids kdf pwd salt iterations memoryKiB x = Some (Header (take 448 plain))) \<and>
    (\<forall>code. r = IllegalState code \<longrightarrow>
      kdf = KDF_ARGON2ID \<and> code \<noteq> 0 \<and> code = fst (argon2 iterations memoryKiB pwd salt 192))"
proof (intro conjI allI impI)
  fix x assume r: "r = Header x"
  from encrypted_header_opens [OF assms [unfolded r]] show "length x = 448"
    "decryptHeader argon2 pbkdf2 ids kdf pwd salt iterations memoryKiB x = Some (Header (take 448 plain))" .
next
  fix code assume "r = IllegalState code"
  with assms show "kdf = KDF_ARGON2ID" "code \<noteq> 0" "code = fst (argon2 iterations memoryKiB pwd salt 192)"
    by (auto simp: encryptHeader_def cryptHeader_def ARGON2_HEADER_KEYDATA_SIZE_def Let_def
        split: option.splits if_splits prod.splits)
qed

theorem header_roundtrip_witness:
  "\<exists>x. encryptHeader (\<lambda>_ _ _ _ l. (0, replicate l 7)) (\<lambda>_ _ _ l. (0, replicate l 7)) [VC_CIPHER_AES] KDF_PBKDF2_SHA512
      [1] [2] 500000 0 (replicate 448 6) = Some (Header x) \<and>
    decryptHeader (\<lambda>_ _ _ _ l. (0, replicate l 7)) (\<lambda>_ _ _ l. (0, replicate l 7)) [VC_CIPHER_AES] KDF_PBKDF2_SHA512
      [1] [2] 500000 0 x = Some (Header (replicate 448 6))"
proof -
  let ?a = "\<lambda>_ _ _ _ l. (0, replicate l 7)" and ?p = "\<lambda>_ _ _ l. (0, replicate l 7)"
  obtain c where c: "vc_cascade_new [VC_CIPHER_AES] 1 (replicate 64 7) = Some c"
    using vc_cascade_new_succeeds [of "[VC_CIPHER_AES]" 1 "replicate 64 7"] by auto
  then have h: "header_cascade ?a ?p [VC_CIPHER_AES] KDF_PBKDF2_SHA512 [1] [2] 500000 0 = Some c"
    by (simp add: header_cascade_def readCipherIds_def VC_MAX_CASCADE_def KDF_PBKDF2_SHA512_def KDF_ARGON2ID_def)
  obtain x where x: "encryptHeader ?a ?p [VC_CIPHER_AES] KDF_PBKDF2_SHA512 [1] [2] 500000 0 (replicate 448 6) = Some (Header x)"
    using unit_crypt_in_buffer [OF vc_cascade_new_ok [OF c], of 448 "replicate 448 6" True 0]
    by (auto simp: encryptHeader_def cryptHeader_cascade [OF h])
  show ?thesis using x header_roundtrip [OF x] by auto
qed

end
