(* ===== verification/BitLocker.thy ===== *)
theory BitLocker
  imports AesModes
begin

text \<open>The sector cryptography of BitLocker, \<^verbatim>\<open>bitlocker_crypto.c\<close>: the Elephant diffuser with its
  wrapping index loops, the three sector modes and the loop over a run of sectors. The index
  variables of the diffuser loops are the C integers; the word array is a list of 32-bit words.\<close>

unbundle bit_operations_syntax

section \<open>The Elephant diffuser\<close>

definition rd32 :: "bytes \<Rightarrow> u32" where
  "rd32 p = ucast (p ! 0) OR push_bit 8 (ucast (p ! 1)) OR push_bit 16 (ucast (p ! 2)) OR push_bit 24 (ucast (p ! 3))"

definition wr32 :: "u32 \<Rightarrow> bytes" where
  "wr32 v = [ucast v, ucast (drop_bit 8 v), ucast (drop_bit 16 v), ucast (drop_bit 24 v)]"

definition ROL :: "u32 \<Rightarrow> nat \<Rightarrow> u32" where
  "ROL x n = push_bit n x OR drop_bit (32 - n) x"

text \<open>One statement \<^verbatim>\<open>d[i1] += d[i2] ^ f(d[i3])\<close>, and the same with \<^verbatim>\<open>-=\<close>.\<close>

definition add_at :: "(u32 \<Rightarrow> u32) \<Rightarrow> int \<Rightarrow> int \<Rightarrow> int \<Rightarrow> u32 list \<Rightarrow> u32 list" where
  "add_at f i1 i2 i3 d = d[nat i1 := d ! nat i1 + (d ! nat i2 XOR f (d ! nat i3))]"

definition sub_at :: "(u32 \<Rightarrow> u32) \<Rightarrow> int \<Rightarrow> int \<Rightarrow> int \<Rightarrow> u32 list \<Rightarrow> u32 list" where
  "sub_at f i1 i2 i3 d = d[nat i1 := d ! nat i1 - (d ! nat i2 XOR f (d ! nat i3))]"

text \<open>The inner \<^verbatim>\<open>while\<close> loops, one turn of each is four statements. The comparisons bring a wrapped
  index back into the array.\<close>

definition wrap_high :: "int \<Rightarrow> int \<Rightarrow> int" where "wrap_high n i = (if i \<ge> n then i - n else i)"
definition wrap_low :: "int \<Rightarrow> int \<Rightarrow> int" where "wrap_low n i = (if i < 0 then i + n else i)"

function a_decrypt_loop :: "int \<Rightarrow> int \<Rightarrow> int \<Rightarrow> int \<Rightarrow> u32 list \<Rightarrow> u32 list" where
  "a_decrypt_loop n i1 i2 i3 d =
     (if i1 < n - 1 then
        let d = add_at (\<lambda>x. ROL x 9) i1 i2 i3 d; i1 = i1 + 1; i2 = i2 + 1; i3 = i3 + 1;
            i3 = wrap_high n i3;
            d = add_at (\<lambda>x. x) i1 i2 i3 d; i1 = i1 + 1; i2 = i2 + 1; i3 = i3 + 1;
            i2 = wrap_high n i2;
            d = add_at (\<lambda>x. ROL x 13) i1 i2 i3 d; i1 = i1 + 1; i2 = i2 + 1; i3 = i3 + 1;
            d = add_at (\<lambda>x. x) i1 i2 i3 d; i1 = i1 + 1; i2 = i2 + 1; i3 = i3 + 1
        in a_decrypt_loop n i1 i2 i3 d
      else d)"
  by pat_completeness auto
termination by (relation "measure (\<lambda>(n, i1, _). nat (n - i1))") (auto simp: Let_def)

function a_encrypt_loop :: "int \<Rightarrow> int \<Rightarrow> int \<Rightarrow> int \<Rightarrow> u32 list \<Rightarrow> u32 list" where
  "a_encrypt_loop n i1 i2 i3 d =
     (if i1 > 0 then
        let d = sub_at (\<lambda>x. x) i1 i2 i3 d; i1 = i1 - 1; i2 = i2 - 1; i3 = i3 - 1;
            d = sub_at (\<lambda>x. ROL x 13) i1 i2 i3 d; i1 = i1 - 1; i2 = i2 - 1; i3 = i3 - 1;
            i2 = wrap_low n i2;
            d = sub_at (\<lambda>x. x) i1 i2 i3 d; i1 = i1 - 1; i2 = i2 - 1; i3 = i3 - 1;
            i3 = wrap_low n i3;
            d = sub_at (\<lambda>x. ROL x 9) i1 i2 i3 d; i1 = i1 - 1; i2 = i2 - 1; i3 = i3 - 1
        in a_encrypt_loop n i1 i2 i3 d
      else d)"
  by pat_completeness auto
termination by (relation "measure (\<lambda>(_, i1, _). nat i1)") (auto simp: Let_def)

function b_decrypt_loop :: "int \<Rightarrow> int \<Rightarrow> int \<Rightarrow> int \<Rightarrow> u32 list \<Rightarrow> u32 list" where
  "b_decrypt_loop n i1 i2 i3 d =
     (if i1 < n - 1 then
        let d = add_at (\<lambda>x. x) i1 i2 i3 d; i1 = i1 + 1; i2 = i2 + 1; i3 = i3 + 1;
            d = add_at (\<lambda>x. ROL x 10) i1 i2 i3 d; i1 = i1 + 1; i2 = i2 + 1; i3 = i3 + 1;
            i2 = wrap_high n i2;
            d = add_at (\<lambda>x. x) i1 i2 i3 d; i1 = i1 + 1; i2 = i2 + 1; i3 = i3 + 1;
            i3 = wrap_high n i3;
            d = add_at (\<lambda>x. ROL x 25) i1 i2 i3 d; i1 = i1 + 1; i2 = i2 + 1; i3 = i3 + 1
        in b_decrypt_loop n i1 i2 i3 d
      else d)"
  by pat_completeness auto
termination by (relation "measure (\<lambda>(n, i1, _). nat (n - i1))") (auto simp: Let_def)

function b_encrypt_loop :: "int \<Rightarrow> int \<Rightarrow> int \<Rightarrow> int \<Rightarrow> u32 list \<Rightarrow> u32 list" where
  "b_encrypt_loop n i1 i2 i3 d =
     (if i1 > 0 then
        let d = sub_at (\<lambda>x. ROL x 25) i1 i2 i3 d; i1 = i1 - 1; i2 = i2 - 1; i3 = i3 - 1;
            i3 = wrap_low n i3;
            d = sub_at (\<lambda>x. x) i1 i2 i3 d; i1 = i1 - 1; i2 = i2 - 1; i3 = i3 - 1;
            i2 = wrap_low n i2;
            d = sub_at (\<lambda>x. ROL x 10) i1 i2 i3 d; i1 = i1 - 1; i2 = i2 - 1; i3 = i3 - 1;
            d = sub_at (\<lambda>x. x) i1 i2 i3 d; i1 = i1 - 1; i2 = i2 - 1; i3 = i3 - 1
        in b_encrypt_loop n i1 i2 i3 d
      else d)"
  by pat_completeness auto
termination by (relation "measure (\<lambda>(_, i1, _). nat i1)") (auto simp: Let_def)

declare a_decrypt_loop.simps [simp del] a_encrypt_loop.simps [simp del]
  b_decrypt_loop.simps [simp del] b_encrypt_loop.simps [simp del]

definition diffuser_a_decrypt :: "int \<Rightarrow> u32 list \<Rightarrow> u32 list" where
  "diffuser_a_decrypt n d = ((\<lambda>d. a_decrypt_loop n 0 (n - 2) (n - 5) d) ^^ 5) d"

definition diffuser_a_encrypt :: "int \<Rightarrow> u32 list \<Rightarrow> u32 list" where
  "diffuser_a_encrypt n d = ((\<lambda>d. a_encrypt_loop n (n - 1) (n - 2 - 1) (n - 5 - 1) d) ^^ 5) d"

definition diffuser_b_decrypt :: "int \<Rightarrow> u32 list \<Rightarrow> u32 list" where
  "diffuser_b_decrypt n d = ((\<lambda>d. b_decrypt_loop n 0 2 5 d) ^^ 3) d"

definition diffuser_b_encrypt :: "int \<Rightarrow> u32 list \<Rightarrow> u32 list" where
  "diffuser_b_encrypt n d = ((\<lambda>d. b_encrypt_loop n (n - 1) (2 - 1) (5 - 1) d) ^^ 3) d"

section \<open>Contexts\<close>

definition BITLK_MODE_CBC :: int where "BITLK_MODE_CBC = 1"
definition BITLK_MODE_CBC_ELEPHANT :: int where "BITLK_MODE_CBC_ELEPHANT = 2"
definition BITLK_MODE_XTS :: int where "BITLK_MODE_XTS = 3"

lemmas bitlk_modes = BITLK_MODE_CBC_def BITLK_MODE_CBC_ELEPHANT_def BITLK_MODE_XTS_def

record bitlk_ctx =
  mode :: int
  sector_size :: nat
  enc :: mbedtls_aes_context
  dec :: mbedtls_aes_context
  elephant_key :: mbedtls_aes_context
  xts_enc :: mbedtls_aes_xts_context
  xts_dec :: mbedtls_aes_xts_context

text \<open>\<^verbatim>\<open>mbedtls_aes_init\<close> and \<^verbatim>\<open>mbedtls_aes_xts_init\<close>.\<close>

definition mbedtls_aes_init :: mbedtls_aes_context where
  "mbedtls_aes_init = \<lparr>nr = 0, rk = \<lambda>_. 0\<rparr>"

definition mbedtls_aes_xts_init :: mbedtls_aes_xts_context where
  "mbedtls_aes_xts_init = \<lparr>crypt = mbedtls_aes_init, tweak = mbedtls_aes_init\<rparr>"

text \<open>\<^verbatim>\<open>bitlk_ctx_new\<close>, where the allocation succeeds. The or of the return codes is 0 exactly if all are.\<close>

definition bitlk_ctx_new :: "int \<Rightarrow> bytes \<Rightarrow> u32 \<Rightarrow> bitlk_ctx option" where
  "bitlk_ctx_new md key ss =
     (if ss < 512 \<or> ss > 4096 \<or> ss AND (ss - 1) \<noteq> 0 then None
      else
        let c = \<lparr>mode = md, sector_size = unat ss, enc = mbedtls_aes_init, dec = mbedtls_aes_init,
                 elephant_key = mbedtls_aes_init, xts_enc = mbedtls_aes_xts_init, xts_dec = mbedtls_aes_xts_init\<rparr>;
            key_len = length key
        in if md = BITLK_MODE_CBC then
             if key_len = 16 \<or> key_len = 32 then
               (case (mbedtls_aes_setkey_enc key (key_len * 8), mbedtls_aes_setkey_dec key (key_len * 8)) of
                  (Inr e, Inr d) \<Rightarrow> Some (c\<lparr>enc := e, dec := d\<rparr>)
                | _ \<Rightarrow> None)
             else None
           else if md = BITLK_MODE_CBC_ELEPHANT then
             if key_len = 32 \<or> key_len = 64 then
               let half = key_len div 2
               in (case (mbedtls_aes_setkey_enc key (half * 8), mbedtls_aes_setkey_dec key (half * 8),
                         mbedtls_aes_setkey_enc (drop half key) (half * 8)) of
                     (Inr e, Inr d, Inr el) \<Rightarrow> Some (c\<lparr>enc := e, dec := d, elephant_key := el\<rparr>)
                   | _ \<Rightarrow> None)
             else None
           else if md = BITLK_MODE_XTS then
             if key_len = 32 \<or> key_len = 64 then
               (case (mbedtls_aes_xts_setkey_enc key (key_len * 8), mbedtls_aes_xts_setkey_dec key (key_len * 8)) of
                  (Inr e, Inr d) \<Rightarrow> Some (c\<lparr>xts_enc := e, xts_dec := d\<rparr>)
                | _ \<Rightarrow> None)
             else None
           else None)"

section \<open>Sectors\<close>

definition le64_block :: "u64 \<Rightarrow> bytes" where
  "le64_block v = map (\<lambda>b. ucast (drop_bit (8 * b) v)) [0..<8] @ replicate 8 0"

definition elephant :: "bitlk_ctx \<Rightarrow> u64 \<Rightarrow> bytes \<Rightarrow> bool \<Rightarrow> bytes" where
  "elephant c byte_offset sec encrypt =
     (let es = le64_block byte_offset;
          ks = mbedtls_aes_crypt_ecb (elephant_key c) MBEDTLS_AES_ENCRYPT es;
          es = es[15 := 0x80];
          ks = ks @ mbedtls_aes_crypt_ecb (elephant_key c) MBEDTLS_AES_ENCRYPT es;
          n = sector_size c div 4;
          sec = (if \<not> encrypt then
                   let w = map (\<lambda>i. rd32 (drop (4 * i) sec)) [0..<n];
                       w = diffuser_b_decrypt (int n) w;
                       w = diffuser_a_decrypt (int n) w
                   in concat (map (\<lambda>i. wr32 (w ! i)) [0..<n])
                 else sec);
          sec = map (\<lambda>i. sec ! i XOR ks ! (i mod 32)) [0..<sector_size c]
      in if encrypt then
           let w = map (\<lambda>i. rd32 (drop (4 * i) sec)) [0..<n];
               w = diffuser_a_encrypt (int n) w;
               w = diffuser_b_encrypt (int n) w
           in concat (map (\<lambda>i. wr32 (w ! i)) [0..<n])
         else sec)"

text \<open>The turn of the loop of \<^verbatim>\<open>bitlk_crypt_sectors\<close> for one sector \<open>sec\<close>, which it crypts in place: the
  error, if there is one, and the sector afterwards.\<close>

definition bitlk_crypt_sector :: "bitlk_ctx \<Rightarrow> bool \<Rightarrow> u64 \<Rightarrow> bytes \<Rightarrow> aes_error option \<times> bytes" where
  "bitlk_crypt_sector c encrypt sector sec =
     (if mode c = BITLK_MODE_XTS then
        (case mbedtls_aes_crypt_xts (if encrypt then xts_enc c else xts_dec c)
                (if encrypt then MBEDTLS_AES_ENCRYPT else MBEDTLS_AES_DECRYPT) (sector_size c) (le64_block sector) sec of
           Inl rc \<Rightarrow> (Some rc, sec)
         | Inr sec \<Rightarrow> (None, sec))
      else
        let byte_offset = sector * of_nat (sector_size c);
            iv = mbedtls_aes_crypt_ecb (enc c) MBEDTLS_AES_ENCRYPT (le64_block byte_offset);
            sec = (if encrypt \<and> mode c = BITLK_MODE_CBC_ELEPHANT then elephant c byte_offset sec True else sec)
        in (case mbedtls_aes_crypt_cbc (if encrypt then enc c else dec c)
                   (if encrypt then MBEDTLS_AES_ENCRYPT else MBEDTLS_AES_DECRYPT) iv sec of
              Inl rc \<Rightarrow> (Some rc, sec)
            | Inr (_, sec) \<Rightarrow>
                (None, if \<not> encrypt \<and> mode c = BITLK_MODE_CBC_ELEPHANT then elephant c byte_offset sec False else sec)))"

datatype bitlk_rc = BITLK_OK | BITLK_INVALID | BITLK_AES aes_error

text \<open>The sector loop on the bytes from \<^verbatim>\<open>sec\<close> on; where a sector fails, the bytes before it stay crypted.\<close>

fun bitlk_sector_loop :: "bitlk_ctx \<Rightarrow> bool \<Rightarrow> u64 \<Rightarrow> nat \<Rightarrow> bytes \<Rightarrow> bitlk_rc \<times> bytes" where
  "bitlk_sector_loop c encrypt sector 0 buf = (BITLK_OK, buf)"
| "bitlk_sector_loop c encrypt sector (Suc m) buf =
     (case bitlk_crypt_sector c encrypt sector (take (sector_size c) buf) of
        (Some rc, sec) \<Rightarrow> (BITLK_AES rc, sec @ drop (sector_size c) buf)
      | (None, sec) \<Rightarrow>
          (let (rc, rest) = bitlk_sector_loop c encrypt (sector + 1) m (drop (sector_size c) buf)
           in (rc, sec @ rest)))"

definition bitlk_crypt_sectors :: "bitlk_ctx option \<Rightarrow> bool \<Rightarrow> u64 \<Rightarrow> bytes \<Rightarrow> bitlk_rc \<times> bytes" where
  "bitlk_crypt_sectors ctx encrypt first_sector buf =
     (case ctx of
        None \<Rightarrow> (BITLK_INVALID, buf)
      | Some c \<Rightarrow>
          if length buf mod sector_size c \<noteq> 0 then (BITLK_INVALID, buf)
          else bitlk_sector_loop c encrypt first_sector (length buf div sector_size c) buf)"

section \<open>The diffuser loops as folds over the word index\<close>

text \<open>The statement for word \<open>k\<close>, which reads the words \<open>o2\<close> and \<open>o3\<close> places further round.\<close>

definition diffuse :: "(u32 \<Rightarrow> u32 \<Rightarrow> u32) \<Rightarrow> nat \<Rightarrow> nat \<Rightarrow> nat \<Rightarrow> (nat \<Rightarrow> u32 \<Rightarrow> u32) \<Rightarrow> nat \<Rightarrow> u32 list \<Rightarrow> u32 list" where
  "diffuse opr n o2 o3 f k d = d[k := opr (d ! k) (d ! ((k + o2) mod n) XOR f k (d ! ((k + o3) mod n)))]"

definition rot_a :: "nat \<Rightarrow> u32 \<Rightarrow> u32" where
  "rot_a k x = (if k mod 4 = 0 then ROL x 9 else if k mod 4 = 2 then ROL x 13 else x)"

definition rot_b :: "nat \<Rightarrow> u32 \<Rightarrow> u32" where
  "rot_b k x = (if k mod 4 = 1 then ROL x 10 else if k mod 4 = 3 then ROL x 25 else x)"

lemma length_diffuse [simp]: "length (diffuse opr n o2 o3 f k d) = length d"
  by (simp add: diffuse_def)

lemma length_fold_diffuse [simp]: "length (fold (diffuse opr n o2 o3 f) ks d) = length d"
  by (induction ks arbitrary: d) simp_all

lemma mod_back: "k < n \<Longrightarrow> c \<le> n \<Longrightarrow> (k + (n - c)) mod n = (if k < c then k + n - c else k - c)" for k :: nat
  by (auto simp: mod_if)

lemma mod_ahead: "k < n \<Longrightarrow> c \<le> n \<Longrightarrow> (k + c) mod n = (if k + c < n then k + c else k + c - n)" for k :: nat
  by (auto simp: mod_if)

lemma upt4:
  assumes "j < m"
  shows "[4 * j..<4 * m] = [4 * j, 4 * j + 1, 4 * j + 2, 4 * j + 3] @ [4 * Suc j..<4 * m]"
proof -
  have "[4 * j..<4 * m] = [4 * j..<4 * j + 4] @ [4 * j + 4..<4 * m]"
    using assms upt_add_eq_append [of "4 * j" "4 * j + 4" "4 * m - 4 * j - 4"] by simp
  moreover have "[4 * j..<4 * j + 4] = [4 * j, 4 * j + 1, 4 * j + 2, 4 * j + 3]" by (simp add: upt_rec)
  ultimately show ?thesis by (simp add: add.commute)
qed

lemma rev_upt4: "rev [0..<4 * Suc j] = [4 * j + 3, 4 * j + 2, 4 * j + 1, 4 * j] @ rev [0..<4 * j]"
  using upt4 [of j "Suc j"] upt_add_eq_append [of 0 "4 * j" 4] by (simp add: add.commute)

text \<open>The position \<open>c\<close> places round from \<open>k\<close>, and how the code's increments and decrements reach the
  next one, with the comparison and, away from the end of the array, without it.\<close>

definition ix :: "nat \<Rightarrow> nat \<Rightarrow> nat \<Rightarrow> int" where
  "ix n c k = int ((k + c) mod n)"

lemma inc_index:
  assumes "k' = k + 1" "k' < n" "c \<le> n"
  shows "k' + c \<noteq> n \<Longrightarrow> ix n c k + 1 = ix n c k'"
    and "wrap_high (int n) (ix n c k + 1) = ix n c k'"
  unfolding ix_def mod_ahead [OF assms(2,3)] mod_ahead [OF add_lessD1 [OF assms(2) [unfolded assms(1)]] assms(3)] wrap_high_def
  using assms by auto

lemma dec_index:
  assumes "k' = k + 1" "k' < n" "c \<le> n"
  shows "k' + c \<noteq> n \<Longrightarrow> ix n c k' - 1 = ix n c k"
    and "wrap_low (int n) (ix n c k' - 1) = ix n c k"
  unfolding ix_def mod_ahead [OF assms(2,3)] mod_ahead [OF add_lessD1 [OF assms(2) [unfolded assms(1)]] assms(3)] wrap_low_def
  using assms by auto

text \<open>The positions in one turn, which handles the words \<open>k0\<close> to \<open>k3\<close>, for the offsets of the two diffusers.\<close>

lemma inc_indices:
  assumes "n = 4 * m" "2 \<le> m" "j < m" "k0 = 4 * j" "k1 = k0 + 1" "k2 = k0 + 2" "k3 = k0 + 3"
  shows
    "ix n (n - 2) k0 + 1 = ix n (n - 2) k1" "wrap_high (int n) (ix n (n - 2) k1 + 1) = ix n (n - 2) k2"
    "ix n (n - 2) k2 + 1 = ix n (n - 2) k3" "wrap_high (int n) (ix n (n - 5) k0 + 1) = ix n (n - 5) k1"
    "ix n (n - 5) k1 + 1 = ix n (n - 5) k2" "ix n (n - 5) k2 + 1 = ix n (n - 5) k3"
    "ix n (2) k0 + 1 = ix n (2) k1" "wrap_high (int n) (ix n (2) k1 + 1) = ix n (2) k2"
    "ix n (2) k2 + 1 = ix n (2) k3" "ix n (5) k0 + 1 = ix n (5) k1"
    "ix n (5) k1 + 1 = ix n (5) k2" "wrap_high (int n) (ix n (5) k2 + 1) = ix n (5) k3"
  by (rule inc_index; use assms in presburger)+

lemma dec_indices:
  assumes "n = 4 * m" "2 \<le> m" "j < m" "k0 = 4 * j" "k1 = k0 + 1" "k2 = k0 + 2" "k3 = k0 + 3"
  shows
    "ix n (n - 2) k3 - 1 = ix n (n - 2) k2" "wrap_low (int n) (ix n (n - 2) k2 - 1) = ix n (n - 2) k1"
    "ix n (n - 2) k1 - 1 = ix n (n - 2) k0" "ix n (n - 5) k3 - 1 = ix n (n - 5) k2"
    "ix n (n - 5) k2 - 1 = ix n (n - 5) k1" "wrap_low (int n) (ix n (n - 5) k1 - 1) = ix n (n - 5) k0"
    "ix n (2) k3 - 1 = ix n (2) k2" "wrap_low (int n) (ix n (2) k2 - 1) = ix n (2) k1"
    "ix n (2) k1 - 1 = ix n (2) k0" "wrap_low (int n) (ix n (5) k3 - 1) = ix n (5) k2"
    "ix n (5) k2 - 1 = ix n (5) k1" "ix n (5) k1 - 1 = ix n (5) k0"
  by (rule dec_index; use assms in presburger)+

lemma turn_steps:
  assumes "k0 = 4 * j" "k1 = k0 + 1" "k2 = k0 + 2" "k3 = k0 + 3"
  shows
    "add_at (\<lambda>x. ROL x 9) (int k0) (ix n o2 k0) (ix n o3 k0) d = diffuse (+) n o2 o3 rot_a k0 d" (is ?a1)
    "add_at (\<lambda>x. x) (int k1) (ix n o2 k1) (ix n o3 k1) d = diffuse (+) n o2 o3 rot_a k1 d" (is ?a2)
    "add_at (\<lambda>x. ROL x 13) (int k2) (ix n o2 k2) (ix n o3 k2) d = diffuse (+) n o2 o3 rot_a k2 d" (is ?a3)
    "add_at (\<lambda>x. x) (int k3) (ix n o2 k3) (ix n o3 k3) d = diffuse (+) n o2 o3 rot_a k3 d" (is ?a4)
    "add_at (\<lambda>x. x) (int k0) (ix n o2 k0) (ix n o3 k0) d = diffuse (+) n o2 o3 rot_b k0 d" (is ?a5)
    "add_at (\<lambda>x. ROL x 10) (int k1) (ix n o2 k1) (ix n o3 k1) d = diffuse (+) n o2 o3 rot_b k1 d" (is ?a6)
    "add_at (\<lambda>x. x) (int k2) (ix n o2 k2) (ix n o3 k2) d = diffuse (+) n o2 o3 rot_b k2 d" (is ?a7)
    "add_at (\<lambda>x. ROL x 25) (int k3) (ix n o2 k3) (ix n o3 k3) d = diffuse (+) n o2 o3 rot_b k3 d" (is ?a8)
    "sub_at (\<lambda>x. ROL x 9) (int k0) (ix n o2 k0) (ix n o3 k0) d = diffuse (-) n o2 o3 rot_a k0 d" (is ?s1)
    "sub_at (\<lambda>x. x) (int k1) (ix n o2 k1) (ix n o3 k1) d = diffuse (-) n o2 o3 rot_a k1 d" (is ?s2)
    "sub_at (\<lambda>x. ROL x 13) (int k2) (ix n o2 k2) (ix n o3 k2) d = diffuse (-) n o2 o3 rot_a k2 d" (is ?s3)
    "sub_at (\<lambda>x. x) (int k3) (ix n o2 k3) (ix n o3 k3) d = diffuse (-) n o2 o3 rot_a k3 d" (is ?s4)
    "sub_at (\<lambda>x. x) (int k0) (ix n o2 k0) (ix n o3 k0) d = diffuse (-) n o2 o3 rot_b k0 d" (is ?s5)
    "sub_at (\<lambda>x. ROL x 10) (int k1) (ix n o2 k1) (ix n o3 k1) d = diffuse (-) n o2 o3 rot_b k1 d" (is ?s6)
    "sub_at (\<lambda>x. x) (int k2) (ix n o2 k2) (ix n o3 k2) d = diffuse (-) n o2 o3 rot_b k2 d" (is ?s7)
    "sub_at (\<lambda>x. ROL x 25) (int k3) (ix n o2 k3) (ix n o3 k3) d = diffuse (-) n o2 o3 rot_b k3 d" (is ?s8)
proof -
  have "k0 mod 4 = 0" "k1 mod 4 = 1" "k2 mod 4 = 2" "k3 mod 4 = 3" using assms by presburger+
  then show ?a1 ?a2 ?a3 ?a4 ?a5 ?a6 ?a7 ?a8 ?s1 ?s2 ?s3 ?s4 ?s5 ?s6 ?s7 ?s8
    by (simp_all add: add_at_def sub_at_def diffuse_def ix_def rot_a_def rot_b_def)
qed

text \<open>One turn of each loop is four steps of the fold.\<close>

lemma decrypt_turns:
  assumes "n = 4 * m" "2 \<le> m" "j < m" and k: "k0 = 4 * j" "k1 = k0 + 1" "k2 = k0 + 2" "k3 = k0 + 3"
  shows "a_decrypt_loop (int n) (int k0) (ix n (n - 2) k0) (ix n (n - 5) k0) d =
      a_decrypt_loop (int n) (int k3 + 1) (ix n (n - 2) k3 + 1) (ix n (n - 5) k3 + 1)
        (fold (diffuse (+) n (n - 2) (n - 5) rot_a) [k0, k1, k2, k3] d)"
    and "b_decrypt_loop (int n) (int k0) (ix n 2 k0) (ix n 5 k0) d =
      b_decrypt_loop (int n) (int k3 + 1) (ix n 2 k3 + 1) (ix n 5 k3 + 1)
        (fold (diffuse (+) n 2 5 rot_b) [k0, k1, k2, k3] d)"
proof -
  have i1: "int k0 + 1 = int k1" "int k1 + 1 = int k2" "int k2 + 1 = int k3" and c: "int k0 < int n - 1"
    using assms by simp_all
  note simps = Let_def if_P [OF c] i1 inc_indices [OF assms] turn_steps [OF k] fold.simps o_def id_apply
  show "a_decrypt_loop (int n) (int k0) (ix n (n - 2) k0) (ix n (n - 5) k0) d =
      a_decrypt_loop (int n) (int k3 + 1) (ix n (n - 2) k3 + 1) (ix n (n - 5) k3 + 1)
        (fold (diffuse (+) n (n - 2) (n - 5) rot_a) [k0, k1, k2, k3] d)"
    by (subst a_decrypt_loop.simps) (simp only: simps)
  show "b_decrypt_loop (int n) (int k0) (ix n 2 k0) (ix n 5 k0) d =
      b_decrypt_loop (int n) (int k3 + 1) (ix n 2 k3 + 1) (ix n 5 k3 + 1)
        (fold (diffuse (+) n 2 5 rot_b) [k0, k1, k2, k3] d)"
    by (subst b_decrypt_loop.simps) (simp only: simps)
qed

lemma encrypt_turns:
  assumes "n = 4 * m" "2 \<le> m" "j < m" and k: "k0 = 4 * j" "k1 = k0 + 1" "k2 = k0 + 2" "k3 = k0 + 3"
  shows "a_encrypt_loop (int n) (int k3) (ix n (n - 2) k3) (ix n (n - 5) k3) d =
      a_encrypt_loop (int n) (int k0 - 1) (ix n (n - 2) k0 - 1) (ix n (n - 5) k0 - 1)
        (fold (diffuse (-) n (n - 2) (n - 5) rot_a) [k3, k2, k1, k0] d)"
    and "b_encrypt_loop (int n) (int k3) (ix n 2 k3) (ix n 5 k3) d =
      b_encrypt_loop (int n) (int k0 - 1) (ix n 2 k0 - 1) (ix n 5 k0 - 1)
        (fold (diffuse (-) n 2 5 rot_b) [k3, k2, k1, k0] d)"
proof -
  have i1: "int k1 - 1 = int k0" "int k2 - 1 = int k1" "int k3 - 1 = int k2" and c: "0 < int k3"
    using assms by simp_all
  note simps = Let_def if_P [OF c] i1 dec_indices [OF assms] turn_steps [OF k] fold.simps o_def id_apply
  show "a_encrypt_loop (int n) (int k3) (ix n (n - 2) k3) (ix n (n - 5) k3) d =
      a_encrypt_loop (int n) (int k0 - 1) (ix n (n - 2) k0 - 1) (ix n (n - 5) k0 - 1)
        (fold (diffuse (-) n (n - 2) (n - 5) rot_a) [k3, k2, k1, k0] d)"
    by (subst a_encrypt_loop.simps) (simp only: simps)
  show "b_encrypt_loop (int n) (int k3) (ix n 2 k3) (ix n 5 k3) d =
      b_encrypt_loop (int n) (int k0 - 1) (ix n 2 k0 - 1) (ix n 5 k0 - 1)
        (fold (diffuse (-) n 2 5 rot_b) [k3, k2, k1, k0] d)"
    by (subst b_encrypt_loop.simps) (simp only: simps)
qed

text \<open>The whole loops. Between turns the indices move on as within one.\<close>

lemma between_turns:
  assumes "n = 4 * m" "2 \<le> m" "Suc j < m" "k3 = 4 * j + 3" "k4 = 4 * Suc j"
  shows "int k3 + 1 = int k4" "ix n (n - 2) k3 + 1 = ix n (n - 2) k4" "ix n (n - 5) k3 + 1 = ix n (n - 5) k4"
    "ix n 2 k3 + 1 = ix n 2 k4" "ix n 5 k3 + 1 = ix n 5 k4"
    "int k4 - 1 = int k3" "ix n (n - 2) k4 - 1 = ix n (n - 2) k3" "ix n (n - 5) k4 - 1 = ix n (n - 5) k3"
    "ix n 2 k4 - 1 = ix n 2 k3" "ix n 5 k4 - 1 = ix n 5 k3"
  using assms by (simp_all) (rule inc_index dec_index; use assms in presburger)+

lemma ascending_loop:
  assumes turn: "\<And>j d. j < m \<Longrightarrow> L (int (4 * j)) (p (4 * j)) (q (4 * j)) d =
      L (int (4 * j + 3) + 1) (p (4 * j + 3) + 1 :: int) (q (4 * j + 3) + 1 :: int) (fold f [4 * j, 4 * j + 1, 4 * j + 2, 4 * j + 3] d)"
    and step: "\<And>j. Suc j < m \<Longrightarrow> p (4 * j + 3) + 1 = p (4 * Suc j)" "\<And>j. Suc j < m \<Longrightarrow> q (4 * j + 3) + 1 = q (4 * Suc j)"
    and exit: "\<And>i2 i3 d. L (int (4 * m)) i2 i3 d = d"
  shows "j < m \<Longrightarrow> L (int (4 * j)) (p (4 * j)) (q (4 * j)) d = fold f [4 * j..<4 * m] d"
proof (induction "m - j" arbitrary: j d)
  case (Suc t)
  have next_i1: "int (4 * j + 3) + 1 = int (4 * Suc j)" by simp
  show ?case
  proof (cases "Suc j < m")
    case True
    then show ?thesis using Suc.hyps(1) [of "Suc j"] Suc.hyps(2)
      unfolding turn [OF Suc.prems] next_i1 step [OF True] upt4 [OF Suc.prems] fold_append by simp
  next
    case False
    with Suc.prems have "m = Suc j" by simp
    then show ?thesis using exit
      unfolding turn [OF Suc.prems] next_i1 upt4 [OF Suc.prems] fold_append by simp
  qed
qed simp

lemma descending_loop:
  assumes turn: "\<And>j d. j < m \<Longrightarrow> L (int (4 * j + 3)) (p (4 * j + 3)) (q (4 * j + 3)) d =
      L (int (4 * j) - 1) (p (4 * j) - 1 :: int) (q (4 * j) - 1 :: int) (fold f [4 * j + 3, 4 * j + 2, 4 * j + 1, 4 * j] d)"
    and step: "\<And>j. Suc j < m \<Longrightarrow> p (4 * Suc j) - 1 = p (4 * j + 3)" "\<And>j. Suc j < m \<Longrightarrow> q (4 * Suc j) - 1 = q (4 * j + 3)"
    and exit: "\<And>i2 i3 d. L (- 1) i2 i3 d = d"
  shows "j < m \<Longrightarrow> L (int (4 * j + 3)) (p (4 * j + 3)) (q (4 * j + 3)) d = fold f (rev [0..<4 * Suc j]) d"
proof (induction j arbitrary: d)
  case 0
  show ?case unfolding turn [OF 0] rev_upt4 fold_append using exit by simp
next
  case (Suc j)
  have i1: "int (4 * Suc j) - 1 = int (4 * j + 3)" by simp
  show ?case
    unfolding turn [OF Suc.prems] i1 step [OF Suc.prems] rev_upt4 [of "Suc j"] fold_append o_apply
    by (rule Suc.IH [OF Suc_lessD [OF Suc.prems]])
qed

lemma decrypt_loops:
  assumes "n = 4 * m" "2 \<le> m"
  shows "a_decrypt_loop (int n) 0 (int n - 2) (int n - 5) d = fold (diffuse (+) n (n - 2) (n - 5) rot_a) [0..<n] d"
    and "b_decrypt_loop (int n) 0 2 5 d = fold (diffuse (+) n 2 5 rot_b) [0..<n] d"
proof -
  have exit: "a_decrypt_loop (int n) (int (4 * m)) i2 i3 d = d" "b_decrypt_loop (int n) (int (4 * m)) i2 i3 d = d" for i2 i3 d
    using assms by (simp_all add: a_decrypt_loop.simps b_decrypt_loop.simps)
  have start: "ix n (n - 2) 0 = int n - 2" "ix n (n - 5) 0 = int n - 5" "ix n 2 0 = 2" "ix n 5 0 = 5"
    using assms by (simp_all add: ix_def)
  note turns = decrypt_turns [OF assms _ refl refl refl refl] and steps = between_turns [OF assms _ refl refl]
  show "a_decrypt_loop (int n) 0 (int n - 2) (int n - 5) d = fold (diffuse (+) n (n - 2) (n - 5) rot_a) [0..<n] d"
    using ascending_loop [of m "a_decrypt_loop (int n)" "ix n (n - 2)" "ix n (n - 5)", OF turns(1) steps(2,3) exit(1), of 0] assms start
    by simp
  show "b_decrypt_loop (int n) 0 2 5 d = fold (diffuse (+) n 2 5 rot_b) [0..<n] d"
    using ascending_loop [of m "b_decrypt_loop (int n)" "ix n 2" "ix n 5", OF turns(2) steps(4,5) exit(2), of 0] assms start
    by simp
qed

lemma encrypt_loops:
  assumes "n = 4 * m" "2 \<le> m"
  shows "a_encrypt_loop (int n) (int n - 1) (int n - 2 - 1) (int n - 5 - 1) d =
      fold (diffuse (-) n (n - 2) (n - 5) rot_a) (rev [0..<n]) d"
    and "b_encrypt_loop (int n) (int n - 1) (2 - 1) (5 - 1) d = fold (diffuse (-) n 2 5 rot_b) (rev [0..<n]) d"
proof -
  obtain j where j: "m = Suc j" "j < m" using assms(2) by (cases m) auto
  then have last: "4 * j + 3 = n - 1" "int (n - 1) = int n - 1" "4 * Suc j = n" using assms(1) by simp_all
  have exit: "a_encrypt_loop (int n) (- 1) i2 i3 d = d" "b_encrypt_loop (int n) (- 1) i2 i3 d = d" for i2 i3 d
    by (simp_all add: a_encrypt_loop.simps b_encrypt_loop.simps)
  have start: "ix n (n - 2) (n - 1) = int n - 2 - 1" "ix n (n - 5) (n - 1) = int n - 5 - 1" "ix n 2 (n - 1) = 2 - 1" "ix n 5 (n - 1) = 5 - 1"
  proof -
    have "8 \<le> n" using assms by simp
    then show "ix n (n - 2) (n - 1) = int n - 2 - 1" "ix n (n - 5) (n - 1) = int n - 5 - 1"
      "ix n 2 (n - 1) = 2 - 1" "ix n 5 (n - 1) = 5 - 1"
      using mod_ahead [of "n - 1" n "n - 2"] mod_ahead [of "n - 1" n "n - 5"] mod_ahead [of "n - 1" n 2] mod_ahead [of "n - 1" n 5]
      by (auto simp: ix_def)
  qed
  note turns = encrypt_turns [OF assms _ refl refl refl refl] and steps = between_turns [OF assms _ refl refl]
  show "a_encrypt_loop (int n) (int n - 1) (int n - 2 - 1) (int n - 5 - 1) d =
      fold (diffuse (-) n (n - 2) (n - 5) rot_a) (rev [0..<n]) d"
    using descending_loop [of m "a_encrypt_loop (int n)" "ix n (n - 2)" "ix n (n - 5)", OF turns(1) steps(7,8) exit(1) j(2)]
    unfolding last start by simp
  show "b_encrypt_loop (int n) (int n - 1) (2 - 1) (5 - 1) d = fold (diffuse (-) n 2 5 rot_b) (rev [0..<n]) d"
    using descending_loop [of m "b_encrypt_loop (int n)" "ix n 2" "ix n 5", OF turns(2) steps(9,10) exit(2) j(2)]
    unfolding last start by simp
qed

section \<open>The diffusers are inverse to each other\<close>

lemma diffuse_inverse:
  assumes "k < length d" "n = length d" "(k + o2) mod n \<noteq> k" "(k + o3) mod n \<noteq> k"
  shows "diffuse (+) n o2 o3 f k (diffuse (-) n o2 o3 f k d) = d"
    and "diffuse (-) n o2 o3 f k (diffuse (+) n o2 o3 f k d) = d"
  using assms by (simp_all add: diffuse_def)

lemma fold_rev_inverse:
  assumes "\<And>k d. k \<in> set ks \<Longrightarrow> P d \<Longrightarrow> g k (h k d) = d" "\<And>k d. P d \<Longrightarrow> P (h k d)" "P d"
  shows "fold g ks (fold h (rev ks) d) = d"
  using assms(1,3)
proof (induction ks arbitrary: d rule: rev_induct)
  case (snoc k ks)
  have "P (h k d)" using assms(2) snoc.prems(2) .
  then show ?case using snoc by (simp add: fold_append)
qed simp

lemma other_index: "k < n \<Longrightarrow> 0 < c \<Longrightarrow> c < n \<Longrightarrow> (k + c) mod n \<noteq> k" for k :: nat
  by (auto simp: mod_if)

lemma fold_diffuse_inverse:
  assumes "n = length d" "0 < o2" "o2 < n" "0 < o3" "o3 < n"
  shows "fold (diffuse (+) n o2 o3 f) [0..<n] (fold (diffuse (-) n o2 o3 f) (rev [0..<n]) d) = d"
    and "fold (diffuse (-) n o2 o3 f) (rev [0..<n]) (fold (diffuse (+) n o2 o3 f) [0..<n] d) = d"
proof -
  have inv: "diffuse (+) n o2 o3 f k (diffuse (-) n o2 o3 f k e) = e" "diffuse (-) n o2 o3 f k (diffuse (+) n o2 o3 f k e) = e"
    if "k < n" "length e = n" for k e
    using that assms other_index by (simp_all add: diffuse_inverse)
  show "fold (diffuse (+) n o2 o3 f) [0..<n] (fold (diffuse (-) n o2 o3 f) (rev [0..<n]) d) = d"
    using inv assms(1) by (intro fold_rev_inverse [where P = "\<lambda>e. length e = n"]) auto
  show "fold (diffuse (-) n o2 o3 f) (rev [0..<n]) (fold (diffuse (+) n o2 o3 f) [0..<n] d) = d"
    using fold_rev_inverse [where P = "\<lambda>e. length e = n" and ks = "rev [0..<n]"
        and g = "diffuse (-) n o2 o3 f" and h = "diffuse (+) n o2 o3 f"] inv assms(1) by simp
qed

lemma funpow_inverse:
  assumes "\<And>x. P x \<Longrightarrow> f (g x) = x" "\<And>x. P x \<Longrightarrow> P (g x)" "P x"
  shows "(f ^^ r) ((g ^^ r) x) = x"
  using assms(3)
proof (induction r arbitrary: x)
  case (Suc r)
  then have "(f ^^ r) ((g ^^ r) (g x)) = g x" using assms(2) by blast
  moreover have "(g ^^ Suc r) x = (g ^^ r) (g x)" by (simp only: funpow_Suc_right o_apply)
  ultimately show ?case using Suc.prems assms(1) by simp
qed simp

lemma diffuser_rounds:
  fixes n o2 o3 r f
  defines "up \<equiv> fold (diffuse (+) n o2 o3 f) [0..<n] ^^ r" and "down \<equiv> fold (diffuse (-) n o2 o3 f) (rev [0..<n]) ^^ r"
  assumes "length d = n" "0 < o2" "o2 < n" "0 < o3" "o3 < n"
  shows "up (down d) = d" "down (up d) = d" "length (up d) = n" "length (down d) = n"
proof -
  show "up (down d) = d" "down (up d) = d"
    unfolding up_def down_def using assms
    by (auto intro!: funpow_inverse [where P = "\<lambda>e. length e = n"] simp: fold_diffuse_inverse)
  have "length (up e) = length e" "length (down e) = length e" for e
    unfolding up_def down_def by (induction r) simp_all
  then show "length (up d) = n" "length (down d) = n" using assms by simp_all
qed

text \<open>The word counts of the sector sizes 512 to 4096 are multiples of 4 and at least 8.\<close>

lemma diffuser_a_inverse:
  assumes "length d = 4 * m" "2 \<le> m"
  shows "diffuser_a_decrypt (int (4 * m)) (diffuser_a_encrypt (int (4 * m)) d) = d"
    and "diffuser_a_encrypt (int (4 * m)) (diffuser_a_decrypt (int (4 * m)) d) = d"
    and "length (diffuser_a_decrypt (int (4 * m)) d) = 4 * m" "length (diffuser_a_encrypt (int (4 * m)) d) = 4 * m"
  unfolding diffuser_a_decrypt_def diffuser_a_encrypt_def decrypt_loops [OF refl assms(2)] encrypt_loops [OF refl assms(2)]
  using assms diffuser_rounds [of d "4 * m" "4 * m - 2" "4 * m - 5"] by simp_all

lemma diffuser_b_inverse:
  assumes "length d = 4 * m" "2 \<le> m"
  shows "diffuser_b_decrypt (int (4 * m)) (diffuser_b_encrypt (int (4 * m)) d) = d"
    and "diffuser_b_encrypt (int (4 * m)) (diffuser_b_decrypt (int (4 * m)) d) = d"
    and "length (diffuser_b_decrypt (int (4 * m)) d) = 4 * m" "length (diffuser_b_encrypt (int (4 * m)) d) = 4 * m"
  unfolding diffuser_b_decrypt_def diffuser_b_encrypt_def decrypt_loops [OF refl assms(2)] encrypt_loops [OF refl assms(2)]
  using assms diffuser_rounds [of d "4 * m" 2 5] by simp_all

section \<open>Sectors as words\<close>

lemma rd32_le: "rd32 = get_unaligned_le32" and wr32_le: "wr32 = put_unaligned_le32"
  by (auto simp: rd32_def wr32_def get_unaligned_le32_def put_unaligned_le32_def)

definition words_of :: "nat \<Rightarrow> bytes \<Rightarrow> u32 list" where
  "words_of n sec = map (\<lambda>i. rd32 (drop (4 * i) sec)) [0..<n]"

definition bytes_of :: "nat \<Rightarrow> u32 list \<Rightarrow> bytes" where
  "bytes_of n w = concat (map (\<lambda>i. wr32 (w ! i)) [0..<n])"

lemma bytes_of_Suc: "bytes_of (Suc n) w = bytes_of n w @ wr32 (w ! n)"
  by (simp add: bytes_of_def)

lemma length_bytes_of [simp]: "length (bytes_of n w) = 4 * n"
  by (induction n) (simp_all add: bytes_of_Suc wr32_le, simp add: bytes_of_def)

lemma bytes_words: "4 * n \<le> length sec \<Longrightarrow> bytes_of n (words_of m sec) = take (4 * n) sec" if "n \<le> m"
  using that
proof (induction n)
  case (Suc n)
  have "put_unaligned_le32 (get_unaligned_le32 (drop (4 * n) sec)) = take 4 (drop (4 * n) sec)"
    using Suc.prems put_get_le32 [of "take 4 (drop (4 * n) sec)"] by (simp add: get_le32_take)
  moreover have "take (4 * Suc n) sec = take (4 * n) sec @ take 4 (drop (4 * n) sec)"
    using take_add [of "4 * n" 4 sec] by (simp add: add.commute)
  ultimately show ?case using Suc by (simp add: bytes_of_Suc words_of_def rd32_le wr32_le)
qed (simp add: bytes_of_def)

lemma drop_bytes_of: "i < n \<Longrightarrow> drop (4 * i) (bytes_of n w) = wr32 (w ! i) @ drop (4 * Suc i) (bytes_of n w)"
proof (induction n)
  case (Suc n)
  show ?case
  proof (cases "i = n")
    case True
    then show ?thesis by (simp add: bytes_of_Suc wr32_le)
  next
    case False
    then show ?thesis using Suc by (simp add: bytes_of_Suc)
  qed
qed simp

lemma words_bytes: "length w = n \<Longrightarrow> words_of n (bytes_of n w) = w"
  by (rule nth_equalityI) (simp_all add: words_of_def drop_bytes_of rd32_le wr32_le)

lemma length_words_of [simp]: "length (words_of n sec) = n"
  by (simp add: words_of_def)

definition key_xor :: "nat \<Rightarrow> bytes \<Rightarrow> bytes \<Rightarrow> bytes" where
  "key_xor n ks sec = map (\<lambda>i. sec ! i XOR ks ! (i mod 32)) [0..<n]"

lemma key_xor_cancel: "length sec = n \<Longrightarrow> key_xor n ks (key_xor n ks sec) = sec"
  by (rule nth_equalityI) (simp_all add: key_xor_def xor.assoc)

definition elephant_keys :: "bitlk_ctx \<Rightarrow> u64 \<Rightarrow> bytes" where
  "elephant_keys c byte_offset =
     mbedtls_aes_crypt_ecb (elephant_key c) MBEDTLS_AES_ENCRYPT (le64_block byte_offset) @
     mbedtls_aes_crypt_ecb (elephant_key c) MBEDTLS_AES_ENCRYPT ((le64_block byte_offset)[15 := 0x80])"

lemma elephant_parts:
  "elephant c off sec True = (let n = sector_size c div 4 in
     bytes_of n (diffuser_b_encrypt (int n) (diffuser_a_encrypt (int n) (words_of n (key_xor (sector_size c) (elephant_keys c off) sec)))))"
  "elephant c off sec False = (let n = sector_size c div 4 in
     key_xor (sector_size c) (elephant_keys c off)
       (bytes_of n (diffuser_a_decrypt (int n) (diffuser_b_decrypt (int n) (words_of n sec)))))"
  by (simp_all add: elephant_def elephant_keys_def key_xor_def words_of_def bytes_of_def Let_def)

lemma elephant_inverse:
  assumes "sector_size c = 16 * m" "2 \<le> m" "length sec = sector_size c"
  shows "elephant c off (elephant c off sec True) False = sec" "length (elephant c off sec True) = length sec"
proof -
  have n: "sector_size c div 4 = 4 * m" using assms(1) by simp
  let ?x = "key_xor (sector_size c) (elephant_keys c off) sec"
  let ?w = "diffuser_b_encrypt (int (4 * m)) (diffuser_a_encrypt (int (4 * m)) (words_of (4 * m) ?x))"
  have x: "length ?x = 16 * m" using assms(1) by (simp add: key_xor_def)
  have w: "length ?w = 4 * m" using diffuser_b_inverse(4) diffuser_a_inverse(4) assms(2) by simp
  have "diffuser_a_decrypt (int (4 * m)) (diffuser_b_decrypt (int (4 * m)) ?w) = words_of (4 * m) ?x"
    using diffuser_a_inverse(1,4) diffuser_b_inverse(1) assms(2) by simp
  moreover have "bytes_of (4 * m) (words_of (4 * m) ?x) = ?x" using bytes_words [of "4 * m" "4 * m" ?x] x by simp
  ultimately show "elephant c off (elephant c off sec True) False = sec"
    using w assms by (simp add: elephant_parts Let_def n words_bytes key_xor_cancel)
  show "length (elephant c off sec True) = length sec" using assms by (simp add: elephant_parts Let_def n)
qed

section \<open>Contexts and sectors\<close>

definition bitlk_ok :: "bitlk_ctx \<Rightarrow> bool" where
  "bitlk_ok c \<longleftrightarrow> sector_size c \<in> {512, 1024, 2048, 4096} \<and>
     (if mode c = BITLK_MODE_XTS then xts_pair (xts_enc c) (xts_dec c) else aes_pair (enc c, dec c))"

lemma power_of_two_sizes:
  fixes ss :: u32
  assumes "512 \<le> ss" "ss \<le> 4096" "ss AND (ss - 1) = 0"
  shows "unat ss \<in> {512, 1024, 2048, 4096}"
proof (rule ccontr)
  assume no: "unat ss \<notin> {512, 1024, 2048, 4096}"
  have r: "512 \<le> unat ss" "unat ss \<le> 4096" using assms(1,2) by (simp_all add: word_le_nat_alt)
  then have pred: "unat (ss - 1) = unat ss - 1" by (subst unat_minus_one) auto
  have bits: "\<not> (bit (unat ss) k \<and> bit (unat ss - 1) k)" for k
  proof
    assume "bit (unat ss) k \<and> bit (unat ss - 1) k"
    moreover have "bit (unat w) k \<longleftrightarrow> bit w k" for w :: u32 by (simp add: bit_unsigned_iff)
    ultimately have "bit (ss AND (ss - 1)) k" unfolding bit_and_iff by (metis pred)
    then show False using assms(3) by simp
  qed
  consider "512 < unat ss" "unat ss < 1024" | "1024 < unat ss" "unat ss < 2048" | "2048 < unat ss" "unat ss < 4096"
    using r no by fastforce
  then show False
  proof cases
    case 1
    then have "unat ss div 512 = 1" "(unat ss - 1) div 512 = 1" by simp_all
    then show ?thesis using bits [of 9] by (simp add: bit_iff_odd)
  next
    case 2
    then have "unat ss div 1024 = 1" "(unat ss - 1) div 1024 = 1" by simp_all
    then show ?thesis using bits [of 10] by (simp add: bit_iff_odd)
  next
    case 3
    then have "unat ss div 2048 = 1" "(unat ss - 1) div 2048 = 1" by simp_all
    then show ?thesis using bits [of 11] by (simp add: bit_iff_odd)
  qed
qed

lemma aes_pairI: "mbedtls_aes_setkey_enc key b = Inr e \<Longrightarrow> mbedtls_aes_setkey_dec key b = Inr d \<Longrightarrow> aes_pair (e, d)"
  by (auto simp: aes_pair_def)

lemma xts_pairI: "mbedtls_aes_xts_setkey_enc key b = Inr e \<Longrightarrow> mbedtls_aes_xts_setkey_dec key b = Inr d \<Longrightarrow> xts_pair e d"
  by (auto simp: xts_pair_def)

lemma bitlk_ctx_new_ok:
  assumes "bitlk_ctx_new md key ss = Some c"
  shows "bitlk_ok c" "sector_size c = unat ss" "mode c = md"
proof -
  have "512 \<le> ss" "ss \<le> 4096" "ss AND (ss - 1) = 0"
    using assms by (auto simp: bitlk_ctx_new_def not_less split: if_splits)
  from power_of_two_sizes [OF this] have size: "unat ss \<in> {512, 1024, 2048, 4096}" .
  show ss: "sector_size c = unat ss" and md: "mode c = md"
    using assms by (auto simp: bitlk_ctx_new_def Let_def split: if_splits sum.splits)
  have "if md = BITLK_MODE_XTS then xts_pair (xts_enc c) (xts_dec c) else aes_pair (enc c, dec c)"
    using assms
    by (auto simp: bitlk_ctx_new_def Let_def bitlk_modes split: if_splits sum.splits intro: aes_pairI xts_pairI)
  with size ss md show "bitlk_ok c" unfolding bitlk_ok_def by simp
qed

lemma length_le64_block [simp]: "length (le64_block v) = 16"
  by (simp add: le64_block_def)

lemma bitlk_ok_size: "bitlk_ok c \<Longrightarrow> \<exists>m. sector_size c = 16 * m \<and> 2 \<le> m \<and> m \<le> 256"
  unfolding bitlk_ok_def by (auto intro: exI [of _ 32] exI [of _ 64] exI [of _ 128] exI [of _ 256])

lemma bitlk_sector_inverse:
  assumes "bitlk_ok c" "length sec = sector_size c"
  shows "\<exists>x. bitlk_crypt_sector c True sector sec = (None, x) \<and> length x = length sec \<and>
    bitlk_crypt_sector c False sector x = (None, sec)"
proof -
  obtain m where m: "sector_size c = 16 * m" "2 \<le> m" "m \<le> 256" using bitlk_ok_size assms(1) by blast
  show ?thesis
  proof (cases "mode c = BITLK_MODE_XTS")
    case True
    then show ?thesis
      using aes_xts_round_trip [of "xts_enc c" "xts_dec c" "sector_size c" sec "le64_block sector"] assms m
      by (auto simp: bitlk_ok_def bitlk_crypt_sector_def)
  next
    case False
    define off where "off = sector * of_nat (sector_size c)"
    define iv where "iv = mbedtls_internal_aes_encrypt (enc c) (le64_block off)"
    define sec' where "sec' = (if mode c = BITLK_MODE_CBC_ELEPHANT then elephant c off sec True else sec)"
    have pair: "aes_pair (enc c, dec c)" using assms(1) False by (simp add: bitlk_ok_def)
    note el = elephant_inverse [OF m(1,2) assms(2), of off]
    have sec': "length sec' = length sec" "length sec mod 16 = 0" using el assms(2) m(1) by (simp_all add: sec'_def)
    obtain iv' x where x: "cbc_encrypt_loop (enc c) iv sec' = (iv', x)" by fastforce
    have len: "length x = length sec" using length_cbc_encrypt_loop [of sec' "enc c" iv] sec' x by auto
    have dec: "cbc_decrypt_loop (dec c) iv x = (iv', sec')"
      using cbc_round_trip [OF pair, of iv sec'] x sec' by (auto simp: iv_def)
    have "bitlk_crypt_sector c True sector sec = (None, x)"
      using x sec' False
      by (auto simp: bitlk_crypt_sector_def Let_def mbedtls_aes_crypt_cbc_def sec'_def simp flip: off_def iv_def split: if_splits)
    moreover have "bitlk_crypt_sector c False sector x = (None, sec)"
      using dec len sec' False el
      by (auto simp: bitlk_crypt_sector_def Let_def mbedtls_aes_crypt_cbc_def sec'_def simp flip: off_def iv_def)
    ultimately show ?thesis using len by blast
  qed
qed

lemma bitlk_loop_inverse:
  assumes "bitlk_ok c" "length buf = m * sector_size c"
  shows "\<exists>x. bitlk_sector_loop c True s m buf = (BITLK_OK, x) \<and> length x = length buf \<and>
    bitlk_sector_loop c False s m x = (BITLK_OK, buf)"
  using assms(2)
proof (induction m arbitrary: s buf)
  case (Suc m)
  obtain y where y: "bitlk_crypt_sector c True s (take (sector_size c) buf) = (None, y)" "length y = sector_size c"
    "bitlk_crypt_sector c False s y = (None, take (sector_size c) buf)"
    using bitlk_sector_inverse [OF assms(1), of "take (sector_size c) buf" s] Suc.prems by auto
  obtain x where "bitlk_sector_loop c True (s + 1) m (drop (sector_size c) buf) = (BITLK_OK, x)"
    "length x = m * sector_size c" "bitlk_sector_loop c False (s + 1) m x = (BITLK_OK, drop (sector_size c) buf)"
    using Suc.IH [of "drop (sector_size c) buf" "s + 1"] Suc.prems by auto
  with y Suc.prems show ?case by simp
qed simp

lemma bitlk_ctx_new_succeeds:
  "bitlk_ctx_new md key ss \<noteq> None \<longleftrightarrow> unat ss \<in> {512, 1024, 2048, 4096} \<and>
     (md = BITLK_MODE_CBC \<and> length key \<in> {16, 32} \<or>
      md \<in> {BITLK_MODE_CBC_ELEPHANT, BITLK_MODE_XTS} \<and> length key \<in> {32, 64})" (is "_ \<longleftrightarrow> ?sizes \<and> ?keys")
proof
  assume "bitlk_ctx_new md key ss \<noteq> None"
  then obtain c where c: "bitlk_ctx_new md key ss = Some c" by blast
  from bitlk_ctx_new_ok [OF c] have ?sizes by (simp add: bitlk_ok_def)
  moreover have ?keys using c by (auto simp: bitlk_ctx_new_def Let_def split: if_splits)
  ultimately show "?sizes \<and> ?keys" ..
next
  assume ok: "?sizes \<and> ?keys"
  then have "ss \<in> {512, 1024, 2048, 4096}"
    by (auto simp flip: word_unat_eq_iff simp: word_unat_eq_iff)
  then have ss: "512 \<le> ss" "ss \<le> 4096" "ss AND (ss - 1) = 0" by auto
  have enc: "\<exists>e. mbedtls_aes_setkey_enc k b = Inr e" "\<exists>d. mbedtls_aes_setkey_dec k b = Inr d" if "b \<in> {128, 256}" for k b
    using that setkey_enc_succeeds [of b k] setkey_dec_succeeds [of k b] by auto
  from ok consider "md = BITLK_MODE_CBC" "length key \<in> {16, 32}" | "md = BITLK_MODE_CBC_ELEPHANT" "length key \<in> {32, 64}"
    | "md = BITLK_MODE_XTS" "length key \<in> {32, 64}" by blast
  then show "bitlk_ctx_new md key ss \<noteq> None"
  proof cases
    case 1
    then show ?thesis using ss enc [of "length key * 8" key]
      by (auto simp: bitlk_ctx_new_def Let_def not_less)
  next
    case 2
    then show ?thesis using ss enc [of "length key div 2 * 8" key] enc [of "length key div 2 * 8" "drop (length key div 2) key"]
      by (auto simp: bitlk_ctx_new_def Let_def bitlk_modes not_less)
  next
    case 3
    then show ?thesis using ss xts_setkeys_succeed [of "length key * 8" key]
      by (auto simp: bitlk_ctx_new_def Let_def bitlk_modes not_less)
  qed
qed

section \<open>Properties\<close>

text \<open>C28. The four Elephant loops, with their wrapping indices, are sweeps over the word positions modulo
  the sector's word count, and the diffusers for writing undo those for reading and the other way
  round, for every sector of at least eight words whose word count is a multiple of four.\<close>

theorem elephant_diffusers_inverse:
  assumes "length d = n" "4 dvd n" "8 \<le> n"
  shows "diffuser_a_decrypt (int n) d = (fold (diffuse (+) n (n - 2) (n - 5) rot_a) [0..<n] ^^ 5) d \<and>
    diffuser_b_decrypt (int n) d = (fold (diffuse (+) n 2 5 rot_b) [0..<n] ^^ 3) d \<and>
    diffuser_a_decrypt (int n) (diffuser_a_encrypt (int n) d) = d \<and>
    diffuser_a_encrypt (int n) (diffuser_a_decrypt (int n) d) = d \<and>
    diffuser_b_decrypt (int n) (diffuser_b_encrypt (int n) d) = d \<and>
    diffuser_b_encrypt (int n) (diffuser_b_decrypt (int n) d) = d"
proof -
  obtain m where m: "n = 4 * m" "2 \<le> m" using assms(2,3) by auto
  have "diffuser_a_decrypt (int n) d = (fold (diffuse (+) n (n - 2) (n - 5) rot_a) [0..<n] ^^ 5) d"
    "diffuser_b_decrypt (int n) d = (fold (diffuse (+) n 2 5 rot_b) [0..<n] ^^ 3) d"
    unfolding diffuser_a_decrypt_def diffuser_b_decrypt_def decrypt_loops [OF m] by simp_all
  then show ?thesis
    using diffuser_a_inverse [of d m] diffuser_b_inverse [of d m] assms(1) m by simp
qed

theorem elephant_diffusers_inverse_witness:
  "diffuser_a_decrypt 128 (diffuser_a_encrypt 128 (replicate 128 7)) = replicate 128 7"
  using elephant_diffusers_inverse [of "replicate 128 7" 128] by simp

text \<open>C10. In every mode \<^verbatim>\<open>bitlk_crypt_sectors\<close> decrypts what it encrypted over any run of whole sectors, and
  a run that is not whole sectors is refused with the buffer untouched.\<close>

theorem bitlk_sectors_roundtrip:
  assumes "bitlk_ctx_new md key ss = Some c"
  shows "if length buf mod unat ss = 0
    then \<exists>x. bitlk_crypt_sectors (Some c) True first buf = (BITLK_OK, x) \<and> length x = length buf \<and>
           bitlk_crypt_sectors (Some c) False first x = (BITLK_OK, buf)
    else bitlk_crypt_sectors (Some c) encrypt first buf = (BITLK_INVALID, buf)"
proof (cases "length buf mod unat ss = 0")
  case True
  note ok = bitlk_ctx_new_ok [OF assms]
  obtain x where "bitlk_sector_loop c True first (length buf div unat ss) buf = (BITLK_OK, x)" "length x = length buf"
    "bitlk_sector_loop c False first (length buf div unat ss) x = (BITLK_OK, buf)"
    using bitlk_loop_inverse [OF ok(1), of buf "length buf div unat ss" first] ok(2) True by auto
  then show ?thesis using ok(2) True by (simp add: bitlk_crypt_sectors_def)
qed (simp add: bitlk_crypt_sectors_def bitlk_ctx_new_ok(2) [OF assms])

theorem bitlk_sectors_roundtrip_witness:
  "\<exists>c x. bitlk_ctx_new BITLK_MODE_CBC_ELEPHANT (replicate 64 3) 512 = Some c \<and>
     bitlk_crypt_sectors (Some c) True 5 (replicate 1024 9) = (BITLK_OK, x) \<and>
     bitlk_crypt_sectors (Some c) False 5 x = (BITLK_OK, replicate 1024 9)"
proof -
  obtain c where c: "bitlk_ctx_new BITLK_MODE_CBC_ELEPHANT (replicate 64 3) 512 = Some c"
    using bitlk_ctx_new_succeeds [of BITLK_MODE_CBC_ELEPHANT "replicate 64 3" 512] by auto
  show ?thesis using c bitlk_sectors_roundtrip [OF c, of "replicate 1024 9" 5] by auto
qed

end
