(* ===== verification/HashStream.thy ===== *)
theory HashStream
  imports Base
begin

text \<open>What the hash functions of mbedtls share: a compression function over whole blocks, a buffer that
  holds the bytes of the unfinished block, and a final padding. The locale \<open>block_hash\<close> is the interface;
  the theories of the hash functions interpret it on their compression functions and read the streaming
  behaviour of their update and finish calls off its lemmas.\<close>

unbundle bit_operations_syntax

section \<open>Absorbing blocks\<close>

text \<open>The state after all whole blocks of a message, and the bytes left over.\<close>

function absorb :: "nat \<Rightarrow> ('s \<Rightarrow> bytes \<Rightarrow> 's) \<Rightarrow> 's \<Rightarrow> bytes \<Rightarrow> 's \<times> bytes" where
  "absorb B f s m = (if B = 0 \<or> length m < B then (s, m) else absorb B f (f s (take B m)) (drop B m))"
  by pat_completeness auto
termination by (relation "measure (\<lambda>(B, f, s, m). length m)") auto

declare absorb.simps [simp del]

text \<open>The update call on the hash state and its buffer, of which the first \<open>left\<close> bytes are in use.\<close>

definition stream_update :: "nat \<Rightarrow> ('s \<Rightarrow> bytes \<Rightarrow> 's) \<Rightarrow> nat \<Rightarrow> 's \<times> bytes \<Rightarrow> bytes \<Rightarrow> 's \<times> bytes" where
  "stream_update B f left sb input =
     (let (s, buf) = sb; fill = B - left;
          (s, buf, input, left) =
            (if left \<noteq> 0 \<and> length input \<ge> fill then
               let buf = overwrite buf left (take fill input) in (f s buf, buf, drop fill input, 0)
             else (s, buf, input, left));
          (s, input) = absorb B f s input
      in (s, if length input > 0 then overwrite buf left input else buf))"

text \<open>The padding of the finish call: a 1 bit, zeros up to the length field, which fills the last block.\<close>

definition stream_finish :: "nat \<Rightarrow> ('s \<Rightarrow> bytes \<Rightarrow> 's) \<Rightarrow> nat \<Rightarrow> bytes \<Rightarrow> 's \<times> bytes \<Rightarrow> 's" where
  "stream_finish B f left field sb =
     (let (s, buf) = sb; L = length field;
          buf = buf[left := 0x80]; left = left + 1;
          (s, buf) =
            (if left \<le> B - L then (s, overwrite buf left (replicate (B - L - left) 0))
             else
               let buf = overwrite buf left (replicate (B - left) 0)
               in (f s buf, overwrite buf 0 (replicate (B - L) 0)))
      in f s (overwrite buf (B - L) field))"

text \<open>The padded message.\<close>

definition padded :: "nat \<Rightarrow> bytes \<Rightarrow> bytes \<Rightarrow> bytes" where
  "padded B field m =
     (let r = length m mod B; L = length field
      in m @ [0x80] @ replicate (if r + 1 \<le> B - L then B - L - r - 1 else 2 * B - L - r - 1) 0 @ field)"

lemma overwrite_append: "overwrite (p @ q) (length p) d = p @ d @ drop (length d) q"
  by (simp add: overwrite_def)

lemma overwrite_start:
  assumes "length r < length b"
  shows "take (length r) (if length r > 0 then overwrite b 0 r else b) = r"
    "length (if length r > 0 then overwrite b 0 r else b) = length b"
  using assms by (simp_all add: overwrite_def)

section \<open>The interface\<close>

locale block_hash =
  fixes B :: nat
    and f :: "'s \<Rightarrow> bytes \<Rightarrow> 's"
  assumes block_size: "0 < B"
begin

lemma absorb_less: "length m < B \<Longrightarrow> absorb B f s m = (s, m)"
  by (simp add: absorb.simps)

lemma absorb_block: "length b = B \<Longrightarrow> absorb B f s (b @ m) = absorb B f (f s b) m"
  using block_size by (subst absorb.simps) simp

lemma absorb_append:
  "B dvd length a \<Longrightarrow> absorb B f s (a @ m) = absorb B f (fst (absorb B f s a)) m"
proof (induction "length a" arbitrary: a s rule: less_induct)
  case less
  show ?case
  proof (cases "a = []")
    case True
    then show ?thesis using block_size by (simp add: absorb_less)
  next
    case False
    with less.prems have len: "B \<le> length a" by (auto dest: dvd_imp_le)
    then have a: "a = take B a @ drop B a" "length (take B a) = B" by simp_all
    have "absorb B f s (a @ m) = absorb B f (f s (take B a)) (drop B a @ m)"
      using absorb_block [OF a(2), of s "drop B a @ m"] by (simp flip: append_assoc)
    also have "\<dots> = absorb B f (fst (absorb B f (f s (take B a)) (drop B a))) m"
      using less.hyps [of "drop B a" "f s (take B a)"] less.prems len block_size by (simp add: dvd_diff_nat)
    also have "absorb B f (f s (take B a)) (drop B a) = absorb B f s a"
      using absorb_block [OF a(2), of s "drop B a"] by simp
    finally show ?thesis .
  qed
qed

lemma absorb_split: "\<exists>a r. m = a @ r \<and> B dvd length a \<and> length r = length m mod B \<and> length r < B"
  using block_size by (intro exI [of _ "take (B * (length m div B)) m"] exI [of _ "drop (B * (length m div B)) m"])
    (simp add: min_absorb1 minus_mult_div_eq_mod)

lemma absorb_rest: "m = a @ r \<Longrightarrow> B dvd length a \<Longrightarrow> length r < B \<Longrightarrow> absorb B f s m = (fst (absorb B f s a), r)"
  by (simp add: absorb_append absorb_less)

lemma snd_absorb: "length (snd (absorb B f s m)) = length m mod B"
proof -
  obtain a r where "m = a @ r" "B dvd length a" "length r = length m mod B" "length r < B" using absorb_split by blast
  then show ?thesis using absorb_rest [of m a r s] by simp
qed

text \<open>A state and buffer that stand for the message absorbed so far, from the initial state \<open>iv\<close>.\<close>

definition stands_for :: "'s \<Rightarrow> 's \<times> bytes \<Rightarrow> bytes \<Rightarrow> bool" where
  "stands_for iv sb m \<longleftrightarrow> length (snd sb) = B \<and> fst sb = fst (absorb B f iv m) \<and>
     take (length m mod B) (snd sb) = snd (absorb B f iv m)"

lemma stands_for_empty: "length buf = B \<Longrightarrow> stands_for iv (iv, buf) []"
  using block_size by (simp add: stands_for_def absorb_less)

lemma stands_for_parts:
  assumes "stands_for iv (s, buf) m"
  obtains a r where "m = a @ r" "B dvd length a" "length r = length m mod B" "s = fst (absorb B f iv a)"
    "take (length r) buf = r" "length buf = B"
proof -
  obtain a r where ar: "m = a @ r" "B dvd length a" "length r = length m mod B" "length r < B" using absorb_split by blast
  then have "absorb B f iv m = (fst (absorb B f iv a), r)" by (intro absorb_rest)
  with assms have s: "s = fst (absorb B f iv a)" "take (length m mod B) buf = r" "length buf = B"
    by (simp_all add: stands_for_def)
  show thesis by (rule that [OF ar(1-3) s(1) _ s(3)]) (simp only: ar(3) s(2))
qed

lemma stands_for_intro:
  assumes "m = a @ r" "B dvd length a" "length r < B" "s = fst (absorb B f iv a)" "take (length r) buf = r" "length buf = B"
  shows "stands_for iv (s, buf) m"
  using assms absorb_rest [OF assms(1-3), of iv] by (auto simp: stands_for_def mod_add_eq dvd_eq_mod_eq_0 mod_add_left_eq [symmetric])

lemma stream_update_stands_for:
  assumes "stands_for iv (s, buf) m"
  shows "stands_for iv (stream_update B f (length m mod B) (s, buf) x) (m @ x)"
proof -
  obtain a r where ar: "m = a @ r" "B dvd length a" "length r = length m mod B" "s = fst (absorb B f iv a)"
    "take (length r) buf = r" "length buf = B" using assms by (rule stands_for_parts)
  have r: "length r < B" using ar(3) block_size by simp
  show ?thesis
  proof (cases "length r \<noteq> 0 \<and> length x \<ge> B - length r")
    case True
    let ?b = "overwrite buf (length r) (take (B - length r) x)"
    have b: "?b = r @ take (B - length r) x" "length ?b = B"
      using True ar(5,6) r by (simp_all add: overwrite_def)
    have ab: "B dvd length (a @ ?b)" "fst (absorb B f iv (a @ ?b)) = f s ?b"
      using ar(2,4) b(2) absorb_block [OF b(2), of s "[]"] block_size by (simp_all add: absorb_append absorb_less)
    obtain a' r' where x: "drop (B - length r) x = a' @ r'" "B dvd length a'" "length r' < B"
      using absorb_split by blast
    have mx: "m @ x = (a @ ?b @ a') @ r'" using ar(1) b(1) x(1) append_take_drop_id [of "B - length r" x] by simp
    have u: "stream_update B f (length r) (s, buf) x =
        (fst (absorb B f (f s ?b) a'), if length r' > 0 then overwrite ?b 0 r' else ?b)"
      using True absorb_rest [OF x, of "f s ?b"] by (simp add: stream_update_def Let_def)
    have "fst (absorb B f (f s ?b) a') = fst (absorb B f iv (a @ ?b @ a'))" "B dvd length (a @ ?b @ a')"
      using ab absorb_append [of "a @ ?b" iv a'] x(2) ar(2) b(2) by simp_all
    then show ?thesis
      using overwrite_start [of r' ?b] x(3) unfolding ar(3) [symmetric] u b(2)
      by (intro stands_for_intro [OF mx])
  next
    case False
    then consider "r = []" | "length r + length x < B" using r by fastforce
    then show ?thesis
    proof cases
      case 1
      obtain a' r' where x: "x = a' @ r'" "B dvd length a'" "length r' < B" using absorb_split by blast
      let ?b = "if length r' > 0 then overwrite buf 0 r' else buf"
      have u: "stream_update B f (length r) (s, buf) x = (fst (absorb B f s a'), ?b)"
        using 1 absorb_rest [OF x, of s] by (simp add: stream_update_def Let_def)
      have "fst (absorb B f s a') = fst (absorb B f iv (a @ a'))" using ar(2,4) by (simp add: absorb_append)
      then show ?thesis
        using overwrite_start [of r' buf] 1 x ar(1,2) unfolding ar(3) [symmetric] u ar(6)
        by (intro stands_for_intro [of _ "a @ a'" r']) simp_all
    next
      case 2
      let ?b = "if length x > 0 then overwrite buf (length r) x else buf"
      have u: "stream_update B f (length r) (s, buf) x = (s, ?b)"
        using 2 False absorb_less [of x s] by (auto simp: stream_update_def Let_def)
      have "take (length (r @ x)) ?b = r @ x" "length ?b = B" using 2 ar(5,6) by (auto simp: overwrite_def)
      then show ?thesis
        unfolding ar(3) [symmetric] u using 2 ar(1,2,4) by (intro stands_for_intro [of _ a "r @ x"]) simp_all
    qed
  qed
qed

lemma stream_finish_padded:
  assumes "stands_for iv (s, buf) m" "0 < length field" "length field < B"
  shows "absorb B f iv (padded B field m) = (stream_finish B f (length m mod B) field (s, buf), [])"
proof -
  obtain a r where ar: "m = a @ r" "B dvd length a" "length r = length m mod B" "s = fst (absorb B f iv a)"
    "take (length r) buf = r" "length buf = B" using assms(1) by (rule stands_for_parts)
  have r: "length r < B" using ar(3) block_size by simp
  have buf: "take (Suc (length r)) (buf[length r := 0x80]) = r @ [0x80]"
    using r ar(5,6) by (simp add: take_Suc_conv_app_nth)
  show ?thesis
  proof (cases "length r + 1 \<le> B - length field")
    case True
    let ?last = "r @ [0x80] @ replicate (B - length field - length r - 1) 0 @ field"
    let ?front = "r @ [0x80] @ replicate (B - length field - length r - 1) 0"
    have front: "length ?front = B - length field" using True by simp
    have "overwrite (buf[length r := 0x80]) (length r + 1) (replicate (B - length field - (length r + 1)) 0) =
        ?front @ drop (B - length field) (buf[length r := 0x80])"
    proof -
      have "length r + 1 + (B - length field - (length r + 1)) = B - length field" using True by simp
      moreover have "Suc (B - Suc (length field)) = B - length field" using assms(3) by simp
      ultimately show ?thesis using buf by (simp add: overwrite_def)
    qed
    moreover note front
    ultimately have "overwrite (overwrite (buf[length r := 0x80]) (length r + 1) (replicate (B - length field - (length r + 1)) 0))
        (B - length field) field = ?last"
      using overwrite_append [of ?front "drop (B - length field) (buf[length r := 0x80])" field, unfolded front] ar(6) assms(3) by simp
    then have "stream_finish B f (length r) field (s, buf) = f s ?last"
      using True by (simp add: stream_finish_def Let_def)
    moreover have "padded B field m = a @ ?last" 
      unfolding padded_def Let_def ar(3) [symmetric] using True ar(1) by simp
    moreover have "length ?last = B" using True assms(3) by simp
    ultimately show ?thesis
      unfolding ar(3) [symmetric] using ar(2,4) absorb_block [of ?last s "[]"] block_size
      by (simp add: absorb_append absorb_less)
  next
    case False
    let ?b1 = "r @ [0x80] @ replicate (B - length r - 1) 0"
    let ?b2 = "replicate (B - length field) 0 @ field"
    have b: "length ?b1 = B" "length ?b2 = B" using r assms(3) by simp_all
    have b1: "overwrite (buf[length r := 0x80]) (length r + 1) (replicate (B - (length r + 1)) 0) = ?b1"
      using r ar(6) buf by (simp add: overwrite_def)
    have "overwrite (overwrite ?b1 0 (replicate (B - length field) 0)) (B - length field) field = ?b2"
      using b(1) assms(3) by (simp add: overwrite_def)
    then have "stream_finish B f (length r) field (s, buf) = f (f s ?b1) ?b2"
      using False b1 by (simp add: stream_finish_def Let_def)
    moreover have "padded B field m = a @ ?b1 @ ?b2"
    proof -
      have "replicate (2 * B - length field - length r - 1) (0 :: u8) =
          replicate (B - length r - 1) 0 @ replicate (B - length field) 0"
        using r assms(3) by (simp flip: replicate_add)
      then show ?thesis unfolding padded_def Let_def ar(3) [symmetric] using False ar(1) by simp
    qed
    ultimately show ?thesis
      unfolding ar(3) [symmetric]
      using ar(2,4) absorb_block [OF b(1), of s ?b2] absorb_block [OF b(2), of "f s ?b1" "[]"] block_size
      by (simp add: absorb_append absorb_less)
  qed
qed

end

end
