(* ===== verification/Sha256.thy ===== *)
theory Sha256
  imports HashStream
begin

text \<open>SHA-256 of the vendored mbedtls (\<^verbatim>\<open>library/sha256.c\<close>): the compression function with its eight
  registers that trade places from round to round, the buffering of \<^verbatim>\<open>mbedtls_sha256_update_ret\<close> and the
  padding of \<^verbatim>\<open>mbedtls_sha256_finish_ret\<close>. SHA-224 shares the code (\<open>is224\<close>).\<close>

unbundle bit_operations_syntax

section \<open>The code\<close>

definition get_be32 :: "bytes \<Rightarrow> u32" where
  "get_be32 b = push_bit 24 (ucast (b ! 0)) OR push_bit 16 (ucast (b ! 1)) OR push_bit 8 (ucast (b ! 2)) OR ucast (b ! 3)"

definition put_be32 :: "u32 \<Rightarrow> bytes" where
  "put_be32 v = [ucast (drop_bit 24 v), ucast (drop_bit 16 v), ucast (drop_bit 8 v), ucast v]"

record mbedtls_sha256_context =
  total0 :: u32
  total1 :: u32
  state :: "u32 list"
  buffer :: bytes
  is224 :: bool

text \<open>\<^verbatim>\<open>mbedtls_sha256_init\<close> and \<^verbatim>\<open>mbedtls_sha256_starts_ret\<close>.\<close>

definition mbedtls_sha256_init :: mbedtls_sha256_context where
  "mbedtls_sha256_init = \<lparr>total0 = 0, total1 = 0, state = replicate 8 0, buffer = replicate 64 0, is224 = False\<rparr>"

definition mbedtls_sha256_starts :: "mbedtls_sha256_context \<Rightarrow> bool \<Rightarrow> mbedtls_sha256_context" where
  "mbedtls_sha256_starts ctx is224' =
     ctx\<lparr>total0 := 0, total1 := 0,
         state := (if \<not> is224' then
             [0x6A09E667, 0xBB67AE85, 0x3C6EF372, 0xA54FF53A, 0x510E527F, 0x9B05688C, 0x1F83D9AB, 0x5BE0CD19]
           else
             [0xC1059ED8, 0x367CD507, 0x3070DD17, 0xF70E5939, 0xFFC00B31, 0x68581511, 0x64F98FA7, 0xBEFA4FA4]),
         is224 := is224'\<rparr>"

definition K :: "u32 list" where
  "K = [
    0x428A2F98, 0x71374491, 0xB5C0FBCF, 0xE9B5DBA5,
    0x3956C25B, 0x59F111F1, 0x923F82A4, 0xAB1C5ED5,
    0xD807AA98, 0x12835B01, 0x243185BE, 0x550C7DC3,
    0x72BE5D74, 0x80DEB1FE, 0x9BDC06A7, 0xC19BF174,
    0xE49B69C1, 0xEFBE4786, 0x0FC19DC6, 0x240CA1CC,
    0x2DE92C6F, 0x4A7484AA, 0x5CB0A9DC, 0x76F988DA,
    0x983E5152, 0xA831C66D, 0xB00327C8, 0xBF597FC7,
    0xC6E00BF3, 0xD5A79147, 0x06CA6351, 0x14292967,
    0x27B70A85, 0x2E1B2138, 0x4D2C6DFC, 0x53380D13,
    0x650A7354, 0x766A0ABB, 0x81C2C92E, 0x92722C85,
    0xA2BFE8A1, 0xA81A664B, 0xC24B8B70, 0xC76C51A3,
    0xD192E819, 0xD6990624, 0xF40E3585, 0x106AA070,
    0x19A4C116, 0x1E376C08, 0x2748774C, 0x34B0BCB5,
    0x391C0CB3, 0x4ED8AA4A, 0x5B9CCA4F, 0x682E6FF3,
    0x748F82EE, 0x78A5636F, 0x84C87814, 0x8CC70208,
    0x90BEFFFA, 0xA4506CEB, 0xBEF9A3F7, 0xC67178F2]"

definition SHR :: "u32 \<Rightarrow> nat \<Rightarrow> u32" where "SHR x n = drop_bit n x"
definition ROTR :: "u32 \<Rightarrow> nat \<Rightarrow> u32" where "ROTR x n = SHR x n OR push_bit (32 - n) x"

definition S0 :: "u32 \<Rightarrow> u32" where "S0 x = ROTR x 7 XOR ROTR x 18 XOR SHR x 3"
definition S1 :: "u32 \<Rightarrow> u32" where "S1 x = ROTR x 17 XOR ROTR x 19 XOR SHR x 10"
definition S2 :: "u32 \<Rightarrow> u32" where "S2 x = ROTR x 2 XOR ROTR x 13 XOR ROTR x 22"
definition S3 :: "u32 \<Rightarrow> u32" where "S3 x = ROTR x 6 XOR ROTR x 11 XOR ROTR x 25"

definition F0 :: "u32 \<Rightarrow> u32 \<Rightarrow> u32 \<Rightarrow> u32" where "F0 x y z = (x AND y) OR (z AND (x OR y))"
definition F1 :: "u32 \<Rightarrow> u32 \<Rightarrow> u32 \<Rightarrow> u32" where "F1 x y z = z XOR (x AND (y XOR z))"

text \<open>\<^verbatim>\<open>R(t)\<close> stores the next schedule word; \<^verbatim>\<open>P\<close> names its eight registers by their position in \<^verbatim>\<open>A\<close>.\<close>

definition R :: "nat \<Rightarrow> u32 list \<Rightarrow> u32 list" where
  "R t W = W[t := S1 (W ! (t - 2)) + W ! (t - 7) + S0 (W ! (t - 15)) + W ! (t - 16)]"

fun P :: "nat list \<Rightarrow> u32 \<Rightarrow> u32 \<Rightarrow> u32 list \<Rightarrow> u32 list" where
  "P [a, b, c, d, e, f, g, h] x k A =
     (let temp1 = A ! h + S3 (A ! e) + F1 (A ! e) (A ! f) (A ! g) + k + x;
          temp2 = S2 (A ! a) + F0 (A ! a) (A ! b) (A ! c);
          A = A[d := A ! d + temp1]
      in A[h := temp1 + temp2])"
| "P _ x k A = A"

text \<open>The register arguments of the eight calls of one turn of the unrolled loops.\<close>

definition P_args :: "nat list list" where
  "P_args = [
    [0, 1, 2, 3, 4, 5, 6, 7],
    [7, 0, 1, 2, 3, 4, 5, 6],
    [6, 7, 0, 1, 2, 3, 4, 5],
    [5, 6, 7, 0, 1, 2, 3, 4],
    [4, 5, 6, 7, 0, 1, 2, 3],
    [3, 4, 5, 6, 7, 0, 1, 2],
    [2, 3, 4, 5, 6, 7, 0, 1],
    [1, 2, 3, 4, 5, 6, 7, 0]]"

definition turn_W :: "nat \<Rightarrow> u32 list \<times> u32 list \<Rightarrow> u32 list \<times> u32 list" where
  "turn_W i = fold (\<lambda>j (W, A). (W, P (P_args ! j) (W ! (i + j)) (K ! (i + j)) A)) [0..<8]"

definition turn_R :: "nat \<Rightarrow> u32 list \<times> u32 list \<Rightarrow> u32 list \<times> u32 list" where
  "turn_R i = fold (\<lambda>j (W, A). let W = R (i + j) W in (W, P (P_args ! j) (W ! (i + j)) (K ! (i + j)) A)) [0..<8]"

definition mbedtls_internal_sha256_process :: "mbedtls_sha256_context \<Rightarrow> bytes \<Rightarrow> mbedtls_sha256_context" where
  "mbedtls_internal_sha256_process ctx data =
     (let W = map (\<lambda>i. get_be32 (drop (4 * i) data)) [0..<16] @ replicate 48 0;
          WA = (W, state ctx);
          WA = fold turn_W [0, 8] WA;
          (W, A) = fold turn_R [16, 24, 32, 40, 48, 56] WA
      in ctx\<lparr>state := map2 (+) (state ctx) A\<rparr>)"

function sha256_blocks :: "mbedtls_sha256_context \<Rightarrow> bytes \<Rightarrow> mbedtls_sha256_context \<times> bytes" where
  "sha256_blocks ctx input =
     (if length input \<ge> 64 then sha256_blocks (mbedtls_internal_sha256_process ctx input) (drop 64 input)
      else (ctx, input))"
  by pat_completeness auto
termination by (relation "measure (\<lambda>(_, input). length input)") auto

declare sha256_blocks.simps [simp del]

definition mbedtls_sha256_update :: "mbedtls_sha256_context \<Rightarrow> bytes \<Rightarrow> mbedtls_sha256_context" where
  "mbedtls_sha256_update ctx input =
     (if length input = 0 then ctx
      else
        let ilen = length input;
            left = unat (total0 ctx AND 0x3F);
            fill = 64 - left;
            ctx = ctx\<lparr>total0 := total0 ctx + of_nat ilen\<rparr>;
            ctx = (if total0 ctx < of_nat ilen then ctx\<lparr>total1 := total1 ctx + 1\<rparr> else ctx);
            (ctx, input, left) =
              (if left \<noteq> 0 \<and> ilen \<ge> fill then
                 let ctx = ctx\<lparr>buffer := overwrite (buffer ctx) left (take fill input)\<rparr>;
                     ctx = mbedtls_internal_sha256_process ctx (buffer ctx)
                 in (ctx, drop fill input, 0)
               else (ctx, input, left));
            (ctx, input) = sha256_blocks ctx input
        in if length input > 0 then ctx\<lparr>buffer := overwrite (buffer ctx) left input\<rparr> else ctx)"

definition mbedtls_sha256_finish :: "mbedtls_sha256_context \<Rightarrow> bytes" where
  "mbedtls_sha256_finish ctx =
     (let used = unat (total0 ctx AND 0x3F);
          ctx = ctx\<lparr>buffer := (buffer ctx)[used := 0x80]\<rparr>;
          used = used + 1;
          ctx = (if used \<le> 56 then ctx\<lparr>buffer := overwrite (buffer ctx) used (replicate (56 - used) 0)\<rparr>
                 else
                   let ctx = ctx\<lparr>buffer := overwrite (buffer ctx) used (replicate (64 - used) 0)\<rparr>;
                       ctx = mbedtls_internal_sha256_process ctx (buffer ctx)
                   in ctx\<lparr>buffer := overwrite (buffer ctx) 0 (replicate 56 0)\<rparr>);
          high = drop_bit 29 (total0 ctx) OR push_bit 3 (total1 ctx);
          low = push_bit 3 (total0 ctx);
          ctx = ctx\<lparr>buffer := overwrite (buffer ctx) 56 (put_be32 high)\<rparr>;
          ctx = ctx\<lparr>buffer := overwrite (buffer ctx) 60 (put_be32 low)\<rparr>;
          ctx = mbedtls_internal_sha256_process ctx (buffer ctx)
      in concat (map put_be32 (take (if is224 ctx then 7 else 8) (state ctx))))"

definition mbedtls_sha256 :: "bytes \<Rightarrow> bool \<Rightarrow> bytes" where
  "mbedtls_sha256 input is224' =
     mbedtls_sha256_finish (mbedtls_sha256_update (mbedtls_sha256_starts mbedtls_sha256_init is224') input)"

section \<open>The compression function of the standard\<close>

definition Ch :: "u32 \<Rightarrow> u32 \<Rightarrow> u32 \<Rightarrow> u32" where "Ch x y z = (x AND y) XOR (NOT x AND z)"
definition Maj :: "u32 \<Rightarrow> u32 \<Rightarrow> u32 \<Rightarrow> u32" where "Maj x y z = (x AND y) XOR (x AND z) XOR (y AND z)"
definition big_sigma0 :: "u32 \<Rightarrow> u32" where "big_sigma0 x = word_rotr 2 x XOR word_rotr 13 x XOR word_rotr 22 x"
definition big_sigma1 :: "u32 \<Rightarrow> u32" where "big_sigma1 x = word_rotr 6 x XOR word_rotr 11 x XOR word_rotr 25 x"
definition small_sigma0 :: "u32 \<Rightarrow> u32" where "small_sigma0 x = word_rotr 7 x XOR word_rotr 18 x XOR drop_bit 3 x"
definition small_sigma1 :: "u32 \<Rightarrow> u32" where "small_sigma1 x = word_rotr 17 x XOR word_rotr 19 x XOR drop_bit 10 x"

fun schedule :: "bytes \<Rightarrow> nat \<Rightarrow> u32" where
  "schedule M t =
     (if t < 16 then get_be32 (drop (4 * t) M)
      else small_sigma1 (schedule M (t - 2)) + schedule M (t - 7) + small_sigma0 (schedule M (t - 15)) + schedule M (t - 16))"

declare schedule.simps [simp del]

fun ref_round :: "u32 \<Rightarrow> u32 \<Rightarrow> u32 list \<Rightarrow> u32 list" where
  "ref_round w k [a, b, c, d, e, f, g, h] =
     (let T1 = h + big_sigma1 e + Ch e f g + k + w;
          T2 = big_sigma0 a + Maj a b c
      in [T1 + T2, a, b, c, d + T1, e, f, g])"
| "ref_round w k H = H"

definition ref_rounds :: "bytes \<Rightarrow> nat \<Rightarrow> u32 list \<Rightarrow> u32 list" where
  "ref_rounds M n H = fold (\<lambda>t. ref_round (schedule M t) (K ! t)) [0..<n] H"

definition sha256_block :: "u32 list \<Rightarrow> bytes \<Rightarrow> u32 list" where
  "sha256_block H M = map2 (+) H (ref_rounds M 64 H)"

section \<open>The unrolled rounds compute it\<close>

lemma ROTR_rotr: "0 < n \<Longrightarrow> n < 32 \<Longrightarrow> ROTR x n = word_rotr n x"
  unfolding ROTR_def SHR_def using shift_or_rotr [of n x] by (simp add: or.commute)

lemma macro_functions:
  "S0 x = small_sigma0 x" "S1 x = small_sigma1 x" "S2 x = big_sigma0 x" "S3 x = big_sigma1 x" "F0 x y z = Maj x y z" "F1 x y z = Ch x y z"
  by (auto simp: S0_def S1_def S2_def S3_def ROTR_rotr SHR_def small_sigma0_def small_sigma1_def big_sigma0_def big_sigma1_def
      F0_def F1_def Maj_def Ch_def bit_eq_iff bit_simps)

lemma list_8:
  assumes "length A = 8"
  obtains a b c d e f g h where "A = [a, b, c, d, e, f, g, h]"
  using assms by (auto simp: length_Suc_conv numeral_eq_Suc)

text \<open>The registers seen through the argument list of turn \<open>j\<close> are the standard's working variables.\<close>

lemma P_round:
  assumes "j < 8" "length A = 8"
  shows "map ((!) (P (P_args ! j) x k A)) (P_args ! (Suc j mod 8)) = ref_round x k (map ((!) A) (P_args ! j))"
    "length (P (P_args ! j) x k A) = 8"
proof -
  obtain a b c d e f g h where A: "A = [a, b, c, d, e, f, g, h]" using assms(2) by (rule list_8)
  have "j \<in> {0, 1, 2, 3, 4, 5, 6, 7}" using assms(1) by auto
  then show "map ((!) (P (P_args ! j) x k A)) (P_args ! (Suc j mod 8)) = ref_round x k (map ((!) A) (P_args ! j))"
    "length (P (P_args ! j) x k A) = 8"
    by (auto simp: A P_args_def Let_def macro_functions)
qed

definition round_inv :: "bytes \<Rightarrow> u32 list \<Rightarrow> nat \<Rightarrow> u32 list \<times> u32 list \<Rightarrow> bool" where
  "round_inv M H t = (\<lambda>(W, A). length W = 64 \<and> length A = 8 \<and> (\<forall>i. i < 16 \<or> i < t \<longrightarrow> W ! i = schedule M i) \<and>
     map ((!) A) (P_args ! (t mod 8)) = ref_rounds M t H)"

lemma round_inv_P:
  assumes "round_inv M H t (W, A)" "t < 64" "W ! t = schedule M t" "j = t mod 8"
  shows "round_inv M H (Suc t) (W, P (P_args ! j) (W ! t) (K ! t) A)"
proof -
  have "ref_rounds M (Suc t) H = ref_round (schedule M t) (K ! t) (ref_rounds M t H)" by (simp add: ref_rounds_def)
  moreover have "\<forall>i. i < 16 \<or> i < Suc t \<longrightarrow> W ! i = schedule M i"
    using assms(1,3) by (auto simp: round_inv_def less_Suc_eq)
  moreover have "Suc t mod 8 = Suc j mod 8" unfolding assms(4) by presburger
  ultimately show ?thesis
    using assms P_round [of j A "W ! t" "K ! t"] by (simp add: round_inv_def)
qed

lemma round_inv_R:
  assumes "round_inv M H t (W, A)" "16 \<le> t" "t < 64"
  shows "round_inv M H t (R t W, A)" "R t W ! t = schedule M t"
proof -
  have "W ! i = schedule M i" if "i < t" for i using assms(1) that by (simp add: round_inv_def)
  then show "R t W ! t = schedule M t"
    using assms by (simp add: R_def round_inv_def macro_functions) (subst schedule.simps, simp)
  show "round_inv M H t (R t W, A)" using assms by (auto simp: round_inv_def R_def)
qed

lemma fold_upt_invariant:
  assumes "I i s" "\<And>j s. j < n \<Longrightarrow> I (i + j) s \<Longrightarrow> I (i + Suc j) (g j s)"
  shows "I (i + n) (fold g [0..<n] s)"
  using assms(2) by (induction n) (simp_all add: assms(1))

lemma turn_index: "8 dvd i \<Longrightarrow> j < 8 \<Longrightarrow> j = (i + j) mod 8" for i j :: nat
  by (auto simp: mod_add_left_eq [symmetric] dvd_eq_mod_eq_0)

lemma turn_W_inv:
  assumes "8 dvd i" "i + 8 \<le> 16" "round_inv M H i WA"
  shows "round_inv M H (i + 8) (turn_W i WA)"
  unfolding turn_W_def
proof (rule fold_upt_invariant [where I = "round_inv M H"])
  fix j s assume j: "j < 8" and s: "round_inv M H (i + j) s"
  obtain W A where W: "s = (W, A)" by fastforce
  have "W ! (i + j) = schedule M (i + j)" using s assms(2) j by (simp add: W round_inv_def)
  then show "round_inv M H (i + Suc j) (case s of (W, A) \<Rightarrow> (W, P (P_args ! j) (W ! (i + j)) (K ! (i + j)) A))"
    using round_inv_P [OF s [unfolded W] _ _ turn_index [OF assms(1) j]] assms(2) j by (simp add: W)
qed (rule assms(3))

lemma turn_R_inv:
  assumes "8 dvd i" "16 \<le> i" "i + 8 \<le> 64" "round_inv M H i WA"
  shows "round_inv M H (i + 8) (turn_R i WA)"
  unfolding turn_R_def
proof (rule fold_upt_invariant [where I = "round_inv M H"])
  fix j s assume j: "j < 8" and s: "round_inv M H (i + j) s"
  obtain W A where W: "s = (W, A)" by fastforce
  note R = round_inv_R [OF s [unfolded W]]
  show "round_inv M H (i + Suc j) (case s of (W, A) \<Rightarrow> let W = R (i + j) W in (W, P (P_args ! j) (W ! (i + j)) (K ! (i + j)) A))"
    using round_inv_P [OF R(1) _ R(2) turn_index [OF assms(1) j]] assms(2,3) j by (simp add: W Let_def)
qed (rule assms(4))

definition compress :: "u32 list \<Rightarrow> bytes \<Rightarrow> u32 list" where
  "compress H data = state (mbedtls_internal_sha256_process (mbedtls_sha256_init\<lparr>state := H\<rparr>) data)"

lemma process_compress: "mbedtls_internal_sha256_process ctx data = ctx\<lparr>state := compress (state ctx) data\<rparr>"
  by (simp add: compress_def mbedtls_internal_sha256_process_def Let_def case_prod_beta)

lemma schedule_take: "schedule (take 64 M) t = schedule M t"
proof (induction t rule: less_induct)
  case (less t)
  have "get_be32 (drop (4 * t) (take 64 M)) = get_be32 (drop (4 * t) M)" if "t < 16"
    using that by (simp add: get_be32_def drop_take)
  with less show ?case by (subst (1 2) schedule.simps) simp
qed

lemma compress_block:
  assumes "length H = 8"
  shows "compress H M = sha256_block H M" "length (compress H M) = 8"
proof -
  let ?W = "map (\<lambda>i. get_be32 (drop (4 * i) M)) [0..<16] @ replicate 48 0"
  let ?WA = "fold turn_R [16, 24, 32, 40, 48, 56] (fold turn_W [0, 8] (?W, H))"
  have "P_args ! 0 = [0..<8]" by (simp add: P_args_def upt_rec)
  then have "map ((!) H) (P_args ! 0) = H" using assms map_nth [of H] by simp
  then have start: "round_inv M H 0 (?W, H)"
    using assms by (auto simp: round_inv_def ref_rounds_def nth_append schedule.simps)
  have "round_inv M H 16 (fold turn_W [0, 8] (?W, H))"
    using turn_W_inv [OF _ _ turn_W_inv [OF _ _ start]] by simp
  then have "round_inv M H 64 ?WA"
    using turn_R_inv [of 16 M H] turn_R_inv [of 24 M H] turn_R_inv [of 32 M H] turn_R_inv [of 40 M H]
      turn_R_inv [of 48 M H] turn_R_inv [of 56 M H] by simp
  then have A: "length (snd ?WA) = 8" "map ((!) (snd ?WA)) (P_args ! 0) = ref_rounds M 64 H"
    by (auto simp: round_inv_def case_prod_beta)
  then have "snd ?WA = ref_rounds M 64 H"
    using \<open>P_args ! 0 = [0..<8]\<close> map_nth [of "snd ?WA"] by simp
  then show "compress H M = sha256_block H M"
    by (simp add: compress_def mbedtls_internal_sha256_process_def sha256_block_def Let_def case_prod_beta)
  then show "length (compress H M) = 8"
    using assms A \<open>snd ?WA = ref_rounds M 64 H\<close> by (simp add: sha256_block_def)
qed

section \<open>Buffering and padding\<close>

interpretation sha256: block_hash 64 compress
  by unfold_locales simp

lemma compress_take: "length H = 8 \<Longrightarrow> compress H (take 64 M) = compress H M"
  by (simp add: compress_block sha256_block_def ref_rounds_def schedule_take)

lemma length_absorb: "length H = 8 \<Longrightarrow> length (fst (absorb 64 compress H m)) = 8"
proof (induction "64 :: nat" compress H m rule: absorb.induct)
  case (1 s m)
  then show ?case by (subst absorb.simps) (simp add: compress_block(2))
qed

lemma sha256_blocks_absorb:
  "length (state ctx) = 8 \<Longrightarrow> sha256_blocks ctx m =
     (ctx\<lparr>state := fst (absorb 64 compress (state ctx) m)\<rparr>, snd (absorb 64 compress (state ctx) m))"
proof (induction ctx m rule: sha256_blocks.induct)
  case (1 ctx m)
  show ?case
  proof (cases "64 \<le> length m")
    case True
    have "sha256_blocks ctx m = sha256_blocks (ctx\<lparr>state := compress (state ctx) m\<rparr>) (drop 64 m)"
      using True by (subst sha256_blocks.simps) (simp add: process_compress)
    moreover have "absorb 64 compress (state ctx) m = absorb 64 compress (compress (state ctx) m) (drop 64 m)"
      using True 1(2) by (subst absorb.simps) (simp add: compress_take)
    ultimately show ?thesis
      using 1(1) [OF True] 1(2) by (simp add: process_compress compress_block(2))
  next
    case False
    then show ?thesis by (subst sha256_blocks.simps) (simp add: sha256.absorb_less)
  qed
qed

text \<open>The byte count, split over two 32-bit words.\<close>

definition counts :: "mbedtls_sha256_context \<Rightarrow> nat \<Rightarrow> bool" where
  "counts ctx n \<longleftrightarrow> total0 ctx = of_nat n \<and> total1 ctx = of_nat (n div 2 ^ 32)"

lemma carry:
  fixes n m :: nat
  assumes "m < 2 ^ 32"
  shows "(of_nat n + of_nat m :: u32) < of_nat m \<longleftrightarrow> (n + m) div 2 ^ 32 = Suc (n div 2 ^ 32)"
    and "(n + m) div 2 ^ 32 = n div 2 ^ 32 \<or> (n + m) div 2 ^ 32 = Suc (n div 2 ^ 32)"
proof -
  let ?q = "2 ^ 32 :: nat" and ?a = "n mod 2 ^ 32 + m"
  have a: "?a < 2 * ?q" using assms mod_less_divisor [of ?q n] by linarith
  have d: "(n + m) div ?q = n div ?q + ?a div ?q" using div_add1_eq [of n m ?q] assms by simp
  have r: "?a div ?q = (if ?a < ?q then 0 else 1)" "?a mod ?q = (if ?a < ?q then ?a else ?a - ?q)"
  proof -
    have "?a div ?q = 1 \<and> ?a mod ?q = ?a - ?q" if "\<not> ?a < ?q"
      using a that le_div_geq [of ?q ?a] le_mod_geq [of ?q ?a] by simp
    then show "?a div ?q = (if ?a < ?q then 0 else 1)" "?a mod ?q = (if ?a < ?q then ?a else ?a - ?q)" by simp_all
  qed
  have "unat (of_nat n + of_nat m :: u32) = ?a mod ?q" "unat (of_nat m :: u32) = m"
    using assms by (simp_all add: unsigned_of_nat take_bit_eq_mod mod_add_left_eq flip: of_nat_add)
  then have "(of_nat n + of_nat m :: u32) < of_nat m \<longleftrightarrow> \<not> ?a < ?q"
    unfolding word_less_nat_alt r(2) using assms mod_less_divisor [of ?q n] by auto
  then show "(of_nat n + of_nat m :: u32) < of_nat m \<longleftrightarrow> (n + m) div ?q = Suc (n div ?q)"
    "(n + m) div ?q = n div ?q \<or> (n + m) div ?q = Suc (n div ?q)"
    unfolding d r(1) by auto
qed

lemma counts_left: "counts ctx n \<Longrightarrow> unat (total0 ctx AND 0x3F) = n mod 64"
proof -
  assume "counts ctx n"
  then have "total0 ctx AND 0x3F = take_bit 6 (of_nat n)" by (simp add: counts_def take_bit_eq_mask mask_eq_exp_minus_1 and.commute)
  then show ?thesis by (simp add: unsigned_of_nat unsigned_take_bit_eq take_bit_take_bit) (simp add: take_bit_eq_mod)
qed

text \<open>A context that has absorbed the message \<open>m\<close>.\<close>

definition holds :: "u32 list \<Rightarrow> mbedtls_sha256_context \<Rightarrow> bytes \<Rightarrow> bool" where
  "holds iv ctx m \<longleftrightarrow> length iv = 8 \<and> counts ctx (length m) \<and> sha256.stands_for iv (state ctx, buffer ctx) m"

lemma holds_state: "holds iv ctx m \<Longrightarrow> length (state ctx) = 8"
  by (simp add: holds_def sha256.stands_for_def length_absorb)

lemma update_stream:
  assumes "length (state ctx) = 8" "x \<noteq> []"
  shows "(state (mbedtls_sha256_update ctx x), buffer (mbedtls_sha256_update ctx x)) =
      stream_update 64 compress (unat (total0 ctx AND 0x3F)) (state ctx, buffer ctx) x"
    and "total0 (mbedtls_sha256_update ctx x) = total0 ctx + of_nat (length x)"
    and "total1 (mbedtls_sha256_update ctx x) =
      (if total0 ctx + of_nat (length x) < of_nat (length x) then total1 ctx + 1 else total1 ctx)"
    and "is224 (mbedtls_sha256_update ctx x) = is224 ctx"
  using assms compress_block(2) [OF assms(1)]
  by (simp_all add: mbedtls_sha256_update_def stream_update_def sha256_blocks_absorb process_compress Let_def case_prod_beta)

lemma update_holds:
  assumes "holds iv ctx m" "length x < 2 ^ 32"
  shows "holds iv (mbedtls_sha256_update ctx x) (m @ x)" "is224 (mbedtls_sha256_update ctx x) = is224 ctx"
proof -
  show "holds iv (mbedtls_sha256_update ctx x) (m @ x)"
  proof (cases "x = []")
    case True
    then show ?thesis using assms(1) by (simp add: mbedtls_sha256_update_def)
  next
    case False
    note u = update_stream [OF holds_state [OF assms(1)] False]
    have c: "counts ctx (length m)" using assms(1) by (simp add: holds_def)
    then have "counts (mbedtls_sha256_update ctx x) (length (m @ x))"
      using carry [OF assms(2), of "length m"] by (auto simp: counts_def u(2,3))
    moreover have "sha256.stands_for iv (state (mbedtls_sha256_update ctx x), buffer (mbedtls_sha256_update ctx x)) (m @ x)"
      unfolding u(1) counts_left [OF c] using assms(1) sha256.stream_update_stands_for by (simp add: holds_def)
    ultimately show ?thesis using assms(1) by (simp add: holds_def)
  qed
  show "is224 (mbedtls_sha256_update ctx x) = is224 ctx"
    using update_stream(4) [OF holds_state [OF assms(1)]] by (cases "x = []") (simp_all add: mbedtls_sha256_update_def)
qed

text \<open>The length field: the bit count as a 64-bit big-endian number.\<close>

definition length_field :: "nat \<Rightarrow> bytes" where
  "length_field n = put_be32 (of_nat (8 * n div 2 ^ 32)) @ put_be32 (of_nat (8 * n))"

lemma finish_field:
  assumes "counts ctx n"
  shows "put_be32 (drop_bit 29 (total0 ctx) OR push_bit 3 (total1 ctx)) @ put_be32 (push_bit 3 (total0 ctx)) = length_field n"
proof -
  have d: "8 * n div 2 ^ 32 = drop_bit 29 n" "n div 2 ^ 32 = drop_bit 32 n" by (simp_all add: drop_bit_eq_div)
  have "drop_bit 29 (of_nat n) OR push_bit 3 (of_nat (n div 2 ^ 32)) = (of_nat (8 * n div 2 ^ 32) :: u32)"
    unfolding d by (rule bit_word_eqI) (auto simp: bit_or_iff bit_drop_bit_eq bit_push_bit_iff bit_of_nat_iff add.commute)
  moreover have "push_bit 3 (of_nat n) = (of_nat (8 * n) :: u32)" by (simp add: push_bit_eq_mult mult.commute)
  ultimately show ?thesis using assms unfolding counts_def length_field_def by simp
qed

lemma finish_stream:
  assumes "length (state ctx) = 8" "length (buffer ctx) = 64" "counts ctx n"
  shows "mbedtls_sha256_finish ctx = concat (map put_be32 (take (if is224 ctx then 7 else 8)
      (stream_finish 64 compress (n mod 64) (length_field n) (state ctx, buffer ctx))))"
proof -
  let ?hi = "drop_bit 29 (total0 ctx) OR push_bit 3 (total1 ctx)" and ?lo = "push_bit 3 (total0 ctx)"
  have two: "overwrite (overwrite b 56 (put_be32 ?hi)) 60 (put_be32 ?lo) = overwrite b 56 (length_field n)"
    if "length b = 64" for b
    unfolding finish_field [OF assms(3), symmetric] using that by (simp add: overwrite_def put_be32_def)
  have len: "length (length_field n) = 8" by (simp add: length_field_def put_be32_def)
  show ?thesis
    using assms counts_left [OF assms(3)] compress_block(2) [OF assms(1)]
    by (simp add: mbedtls_sha256_finish_def stream_finish_def process_compress Let_def len two)
qed

section \<open>Properties\<close>

text \<open>SHA-256 as the standard states it: pad the message, then chain the compression function over its blocks.\<close>

definition sha256_spec :: "bytes \<Rightarrow> bytes" where
  "sha256_spec m = concat (map put_be32 (fst (absorb 64 sha256_block
     [0x6A09E667, 0xBB67AE85, 0x3C6EF372, 0xA54FF53A, 0x510E527F, 0x9B05688C, 0x1F83D9AB, 0x5BE0CD19]
     (padded 64 (length_field (length m)) m))))"

lemma absorb_compress: "length H = 8 \<Longrightarrow> absorb 64 compress H m = absorb 64 sha256_block H m"
proof (induction "64 :: nat" compress H m rule: absorb.induct)
  case (1 s m)
  have "compress s (take 64 m) = sha256_block s (take 64 m)" "length (compress s (take 64 m)) = 8"
    using compress_block [OF 1(2)] by simp_all
  with 1 show ?case by (subst (1 2) absorb.simps) auto
qed

lemma holds_start:
  "holds [0x6A09E667, 0xBB67AE85, 0x3C6EF372, 0xA54FF53A, 0x510E527F, 0x9B05688C, 0x1F83D9AB, 0x5BE0CD19]
     (mbedtls_sha256_starts mbedtls_sha256_init False) []"
  by (simp add: holds_def counts_def mbedtls_sha256_starts_def mbedtls_sha256_init_def sha256.stands_for_empty)

lemma updates_hold:
  "holds iv ctx m \<Longrightarrow> list_all (\<lambda>c. length c < 2 ^ 32) chunks \<Longrightarrow>
   holds iv (fold (\<lambda>c ctx. mbedtls_sha256_update ctx c) chunks ctx) (m @ concat chunks) \<and>
   is224 (fold (\<lambda>c ctx. mbedtls_sha256_update ctx c) chunks ctx) = is224 ctx"
proof (induction chunks arbitrary: ctx m)
  case (Cons c chunks)
  then have "holds iv (mbedtls_sha256_update ctx c) (m @ c)" "is224 (mbedtls_sha256_update ctx c) = is224 ctx"
    using update_holds [of iv ctx m c] by simp_all
  with Cons.IH [of "mbedtls_sha256_update ctx c" "m @ c"] Cons.prems show ?case by simp
qed simp

lemma finish_holds:
  assumes "holds iv ctx m" "\<not> is224 ctx"
  shows "mbedtls_sha256_finish ctx = concat (map put_be32 (fst (absorb 64 sha256_block iv (padded 64 (length_field (length m)) m))))"
proof -
  have len: "length (length_field (length m)) = 8" by (simp add: length_field_def put_be32_def)
  have h: "length (state ctx) = 8" "length (buffer ctx) = 64" "counts ctx (length m)" "length iv = 8"
    using assms(1) by (simp_all add: holds_state) (simp_all add: holds_def sha256.stands_for_def)
  have a: "absorb 64 compress iv (padded 64 (length_field (length m)) m) =
      (stream_finish 64 compress (length m mod 64) (length_field (length m)) (state ctx, buffer ctx), [])"
    using assms(1) len by (intro sha256.stream_finish_padded) (simp_all add: holds_def)
  then have "length (stream_finish 64 compress (length m mod 64) (length_field (length m)) (state ctx, buffer ctx)) = 8"
    using length_absorb [OF h(4), of "padded 64 (length_field (length m)) m"] by simp
  then show ?thesis
    using finish_stream [OF h(1-3)] assms(2) a absorb_compress [OF h(4)] by simp
qed

text \<open>C8. However a message is split into update calls of less than 4 GiB each, the code's digest is the SHA-256 of the
  whole message: the buffering, the rotating registers, the in-place schedule, the carry of the byte
  count and the padding together compute the standard's function.\<close>

theorem sha256_is_standard:
  assumes "list_all (\<lambda>c. length c < 2 ^ 32) chunks"
  shows "mbedtls_sha256_finish (fold (\<lambda>c ctx. mbedtls_sha256_update ctx c) chunks
      (mbedtls_sha256_starts mbedtls_sha256_init False)) = sha256_spec (concat chunks)"
proof -
  have "\<not> is224 (mbedtls_sha256_starts mbedtls_sha256_init False)" by (simp add: mbedtls_sha256_starts_def)
  with updates_hold [OF holds_start assms] show ?thesis by (simp add: finish_holds sha256_spec_def)
qed

theorem sha256_is_standard_witness:
  "mbedtls_sha256_finish (mbedtls_sha256_update (mbedtls_sha256_update
      (mbedtls_sha256_starts mbedtls_sha256_init False) [1, 2, 3]) (replicate 100 7)) = sha256_spec ([1, 2, 3] @ replicate 100 7)"
  using sha256_is_standard [of "[[1, 2, 3], replicate 100 7]"] by simp

text \<open>C29. An update of exactly 4 GiB leaves the byte count as it was, because only the low 32 bits of the length are
  added: the digest then encodes a wrong length.\<close>

theorem sha256_update_miscounts:
  assumes "length (state ctx) = 8" "length x = 2 ^ 32"
  shows "total0 (mbedtls_sha256_update ctx x) = total0 ctx \<and> total1 (mbedtls_sha256_update ctx x) = total1 ctx"
proof -
  have "(of_nat (length x) :: u32) = 0" "x \<noteq> []" using assms(2) by auto
  then show ?thesis using update_stream(2,3) [OF assms(1)] by simp
qed

theorem sha256_update_miscounts_witness:
  "total1 (mbedtls_sha256_update (mbedtls_sha256_starts mbedtls_sha256_init False) (replicate (2 ^ 32) 0)) = 0"
  using sha256_update_miscounts [of "mbedtls_sha256_starts mbedtls_sha256_init False" "replicate (2 ^ 32) 0"]
  by (simp add: mbedtls_sha256_starts_def mbedtls_sha256_init_def)

end
