(* ===== verification/Ccm.thy ===== *)
theory Ccm
  imports Aes
begin

text \<open>AES-CCM of the vendored mbedtls (\<^verbatim>\<open>library/ccm.c\<close>), with which BitLocker wraps its volume keys. The generic
  cipher layer between \<^verbatim>\<open>ccm.c\<close> and \<^verbatim>\<open>aes.c\<close> only dispatches: \<^verbatim>\<open>mbedtls_cipher_update\<close> on one block in ECB mode is
  \<^verbatim>\<open>mbedtls_aes_crypt_ecb\<close>, so the context is the AES encryption context.\<close>

unbundle bit_operations_syntax

section \<open>The code\<close>

datatype ccm_mode = CCM_ENCRYPT | CCM_DECRYPT

datatype ccm_error = MBEDTLS_ERR_CCM_BAD_INPUT | MBEDTLS_ERR_CCM_AUTH_FAILED

definition mbedtls_ccm_setkey :: "bytes \<Rightarrow> nat \<Rightarrow> ccm_error + mbedtls_aes_context" where
  "mbedtls_ccm_setkey key keybits =
     (case mbedtls_aes_setkey_enc key keybits of
        Inl _ \<Rightarrow> Inl MBEDTLS_ERR_CCM_BAD_INPUT
      | Inr ctx \<Rightarrow> Inr ctx)"

definition UPDATE_CBC_MAC :: "mbedtls_aes_context \<Rightarrow> bytes \<Rightarrow> bytes \<Rightarrow> bytes" where
  "UPDATE_CBC_MAC ctx b y = mbedtls_aes_crypt_ecb ctx MBEDTLS_AES_ENCRYPT (xor_bytes y b)"

definition CTR_CRYPT :: "mbedtls_aes_context \<Rightarrow> bytes \<Rightarrow> bytes \<Rightarrow> bytes" where
  "CTR_CRYPT ctx ctr src = xor_bytes src (take (length src) (mbedtls_aes_crypt_ecb ctx MBEDTLS_AES_ENCRYPT ctr))"

text \<open>\<^verbatim>\<open>memset(b, 0, 16); memcpy(b, src, use_len)\<close>.\<close>

definition zero_pad :: "bytes \<Rightarrow> bytes" where
  "zero_pad src = src @ replicate (16 - length src) 0"

function mac_add :: "mbedtls_aes_context \<Rightarrow> bytes \<Rightarrow> bytes \<Rightarrow> bytes" where
  "mac_add ctx src y =
     (if src = [] then y
      else mac_add ctx (drop 16 src) (UPDATE_CBC_MAC ctx (zero_pad (take 16 src)) y))"
  by pat_completeness auto
termination by (relation "measure (\<lambda>(_, src, _). length src)") auto

fun increment :: "nat \<Rightarrow> nat \<Rightarrow> bytes \<Rightarrow> bytes" where
  "increment 0 i ctr = ctr"
| "increment (Suc q) i ctr =
     (let ctr = ctr[15 - i := ctr ! (15 - i) + 1]
      in if ctr ! (15 - i) \<noteq> 0 then ctr else increment q (i + 1) ctr)"

text \<open>The message loop: the output, the MAC state and the counter afterwards.\<close>

function ccm_loop :: "mbedtls_aes_context \<Rightarrow> ccm_mode \<Rightarrow> nat \<Rightarrow> bytes \<Rightarrow> bytes \<Rightarrow> bytes \<Rightarrow> bytes \<times> bytes \<times> bytes" where
  "ccm_loop ctx mode q ctr y src =
     (if src = [] then ([], y, ctr)
      else
        let blk = take 16 src;
            y = (if mode = CCM_ENCRYPT then UPDATE_CBC_MAC ctx (zero_pad blk) y else y);
            dst = CTR_CRYPT ctx ctr blk;
            y = (if mode = CCM_DECRYPT then UPDATE_CBC_MAC ctx (zero_pad dst) y else y);
            ctr = increment q 0 ctr;
            (rest, y, ctr) = ccm_loop ctx mode q ctr y (drop 16 src)
        in (dst @ rest, y, ctr))"
  by pat_completeness auto
termination by (relation "measure (\<lambda>(_, _, _, _, _, src). length src)") auto

declare mac_add.simps [simp del] ccm_loop.simps [simp del]

definition ccm_flags :: "nat \<Rightarrow> nat \<Rightarrow> nat \<Rightarrow> u8" where
  "ccm_flags add_len tag_len q =
     (if add_len > 0 then 0x40 else 0) OR ucast (push_bit 3 ((of_nat tag_len - 2 :: u64) div 2)) OR of_nat (q - 1)"

definition ccm_auth_crypt ::
  "mbedtls_aes_context \<Rightarrow> ccm_mode \<Rightarrow> bytes \<Rightarrow> bytes \<Rightarrow> bytes \<Rightarrow> nat \<Rightarrow> ccm_error + bytes \<times> bytes" where
  "ccm_auth_crypt ctx mode iv add input tag_len =
     (if tag_len = 2 \<or> tag_len > 16 \<or> tag_len mod 2 \<noteq> 0 then Inl MBEDTLS_ERR_CCM_BAD_INPUT
      else if length iv < 7 \<or> length iv > 13 then Inl MBEDTLS_ERR_CCM_BAD_INPUT
      else if length add \<ge> 0xFF00 then Inl MBEDTLS_ERR_CCM_BAD_INPUT
      else
        let q = 16 - 1 - length iv;
            len_bytes = map (\<lambda>i. of_nat (length input div 256 ^ i)) [0..<q];
            b = ccm_flags (length add) tag_len q # iv @ rev len_bytes
        in if length input div 256 ^ q > 0 then Inl MBEDTLS_ERR_CCM_BAD_INPUT
           else
             let y = UPDATE_CBC_MAC ctx b (replicate 16 0);
                 y = (if length add > 0 then
                        let b = [of_nat (length add div 256), of_nat (length add)] @ take 14 add
                        in mac_add ctx (drop 14 add) (UPDATE_CBC_MAC ctx (zero_pad b) y)
                      else y);
                 ctr = (of_nat (q - 1) # iv @ replicate q 0)[15 := 1];
                 (output, y, ctr) = ccm_loop ctx mode q ctr y input;
                 ctr = take (16 - q) ctr @ replicate q 0;
                 y = CTR_CRYPT ctx ctr y
             in Inr (output, take tag_len y))"

definition mbedtls_ccm_star_encrypt_and_tag ::
  "mbedtls_aes_context \<Rightarrow> bytes \<Rightarrow> bytes \<Rightarrow> bytes \<Rightarrow> nat \<Rightarrow> ccm_error + bytes \<times> bytes" where
  "mbedtls_ccm_star_encrypt_and_tag ctx iv add input tag_len = ccm_auth_crypt ctx CCM_ENCRYPT iv add input tag_len"

definition mbedtls_ccm_encrypt_and_tag ::
  "mbedtls_aes_context \<Rightarrow> bytes \<Rightarrow> bytes \<Rightarrow> bytes \<Rightarrow> nat \<Rightarrow> ccm_error + bytes \<times> bytes" where
  "mbedtls_ccm_encrypt_and_tag ctx iv add input tag_len =
     (if tag_len = 0 then Inl MBEDTLS_ERR_CCM_BAD_INPUT
      else mbedtls_ccm_star_encrypt_and_tag ctx iv add input tag_len)"

text \<open>Decryption returns the code, \<open>None\<close> for 0, and what it leaves in \<^verbatim>\<open>output\<close>: zeros where the tag is wrong.\<close>

definition mbedtls_ccm_star_auth_decrypt ::
  "mbedtls_aes_context \<Rightarrow> bytes \<Rightarrow> bytes \<Rightarrow> bytes \<Rightarrow> bytes \<Rightarrow> bytes \<Rightarrow> nat \<Rightarrow> ccm_error option \<times> bytes" where
  "mbedtls_ccm_star_auth_decrypt ctx iv add input output tag tag_len =
     (case ccm_auth_crypt ctx CCM_DECRYPT iv add input tag_len of
        Inl err \<Rightarrow> (Some err, output)
      | Inr (output, check_tag) \<Rightarrow>
          if take tag_len tag \<noteq> check_tag
          then (Some MBEDTLS_ERR_CCM_AUTH_FAILED, replicate (length input) 0)
          else (None, output))"

definition mbedtls_ccm_auth_decrypt ::
  "mbedtls_aes_context \<Rightarrow> bytes \<Rightarrow> bytes \<Rightarrow> bytes \<Rightarrow> bytes \<Rightarrow> bytes \<Rightarrow> nat \<Rightarrow> ccm_error option \<times> bytes" where
  "mbedtls_ccm_auth_decrypt ctx iv add input output tag tag_len =
     (if tag_len = 0 then (Some MBEDTLS_ERR_CCM_BAD_INPUT, output)
      else mbedtls_ccm_star_auth_decrypt ctx iv add input output tag tag_len)"

section \<open>Decryption inverts encryption\<close>

lemma CTR_CRYPT_cancel [simp]: "length src \<le> 16 \<Longrightarrow> CTR_CRYPT ctx ctr (CTR_CRYPT ctx ctr src) = src"
  by (simp add: CTR_CRYPT_def xor_bytes_cancel)

lemma length_CTR_CRYPT [simp]: "length src \<le> 16 \<Longrightarrow> length (CTR_CRYPT ctx ctr src) = length src"
  by (simp add: CTR_CRYPT_def)

lemma ccm_loop_length: "length (fst (ccm_loop ctx mode q ctr y src)) = length src"
proof (induction ctx mode q ctr y src rule: ccm_loop.induct)
  case (1 ctx mode q ctr y src)
  then show ?case by (subst ccm_loop.simps) (auto simp: Let_def case_prod_beta)
qed

text \<open>Both modes feed the plaintext to the MAC and use the same counters.\<close>

lemma ccm_loop_inverse:
  assumes "mode \<noteq> mode'"
  shows "ccm_loop ctx mode' q ctr y (fst (ccm_loop ctx mode q ctr y src)) = (src, snd (ccm_loop ctx mode q ctr y src))"
  using assms
proof (induction ctx mode q ctr y src rule: ccm_loop.induct)
  case (1 ctx mode q ctr y src)
  show ?case
  proof (cases "src = []")
    case True
    then show ?thesis by (simp add: ccm_loop.simps)
  next
    case False
    let ?blk = "take 16 src"
    let ?dst = "CTR_CRYPT ctx ctr ?blk"
    let ?y = "UPDATE_CBC_MAC ctx (zero_pad (if mode = CCM_ENCRYPT then ?blk else ?dst)) y"
    let ?rest = "ccm_loop ctx mode q (increment q 0 ctr) ?y (drop 16 src)"
    have modes: "mode = CCM_ENCRYPT \<and> mode' = CCM_DECRYPT \<or> mode = CCM_DECRYPT \<and> mode' = CCM_ENCRYPT"
      using 1(2) by (cases mode; cases mode') auto
    have step: "ccm_loop ctx mode q ctr y src = (?dst @ fst ?rest, snd ?rest)"
      using False modes by (subst ccm_loop.simps) (auto simp: Let_def case_prod_beta)
    have IH: "ccm_loop ctx mode' q (increment q 0 ctr) ?y (fst ?rest) = (drop 16 src, snd ?rest)"
      using 1(1) [OF False refl refl refl refl refl 1(2)] modes by auto
    have len: "length ?dst = min (length src) 16" by simp
    have "take 16 (?dst @ fst ?rest) = ?dst \<and> drop 16 (?dst @ fst ?rest) = fst ?rest"
      using len ccm_loop_length [of ctx mode q "increment q 0 ctr" ?y "drop 16 src"] by (cases "length src \<le> 16") auto
    moreover have "?dst @ fst ?rest \<noteq> []"
    proof -
      have "0 < length ?dst" unfolding len using False by simp
      then show ?thesis by (cases ?dst) simp_all
    qed
    ultimately have "ccm_loop ctx mode' q ctr y (?dst @ fst ?rest) = (?blk @ drop 16 src, snd ?rest)"
      using modes IH by (subst ccm_loop.simps) (auto simp: Let_def)
    then show ?thesis unfolding step by simp
  qed
qed

lemma ccm_auth_crypt_inverse:
  assumes "mode \<noteq> mode'" "ccm_auth_crypt ctx mode iv add input tag_len = Inr (output, tag)"
  shows "ccm_auth_crypt ctx mode' iv add output tag_len = Inr (input, tag)" "length output = length input"
proof -
  show len: "length output = length input"
    using assms(2) ccm_loop_length by (auto simp: ccm_auth_crypt_def Let_def case_prod_beta split: if_splits)
  have "ccm_auth_crypt ctx mode' iv add output tag_len = Inr (input, tag)"
    using assms(2) len ccm_loop_inverse [OF assms(1)]
    by (auto simp: ccm_auth_crypt_def Let_def case_prod_beta split: if_splits)
  then show "ccm_auth_crypt ctx mode' iv add output tag_len = Inr (input, tag)" .
qed

lemma length_ccm_state: "length y = 16 \<Longrightarrow> length (fst (snd (ccm_loop ctx mode q ctr y src))) = 16"
proof (induction ctx mode q ctr y src rule: ccm_loop.induct)
  case (1 ctx mode q ctr y src)
  have "length (UPDATE_CBC_MAC ctx b y) = 16" for b y by (simp add: UPDATE_CBC_MAC_def)
  with 1 show ?case by (subst ccm_loop.simps) (auto simp: Let_def case_prod_beta)
qed

lemma ccm_tag_length:
  assumes "tag_len \<in> {4, 6, 8, 10, 12, 14, 16}" "length iv = 12" "add = []" "length input < 2 ^ 24"
  shows "\<exists>output tag. ccm_auth_crypt ctx mode iv add input tag_len = Inr (output, tag) \<and> length tag = tag_len"
proof -
  have "length (UPDATE_CBC_MAC ctx b y) = 16" for b y by (simp add: UPDATE_CBC_MAC_def)
  then show ?thesis
    using assms by (auto simp: ccm_auth_crypt_def Let_def case_prod_beta length_ccm_state)
qed

lemma ccm_tag_size: "ccm_auth_crypt ctx mode iv add input tag_len = Inr (output, tag) \<Longrightarrow> length tag = tag_len"
proof -
  have u: "length (UPDATE_CBC_MAC ctx b y) = 16" for b y by (simp add: UPDATE_CBC_MAC_def)
  have m: "length y = 16 \<Longrightarrow> length (mac_add ctx src y) = 16" for src y
    by (induction ctx src y rule: mac_add.induct) (subst mac_add.simps, simp add: UPDATE_CBC_MAC_def)
  assume "ccm_auth_crypt ctx mode iv add input tag_len = Inr (output, tag)"
  then show ?thesis
    using u m by (auto simp: ccm_auth_crypt_def Let_def case_prod_beta length_ccm_state split: if_splits)
qed

lemma ccm_decrypt_encrypt:
  assumes "length tag = tag_len"
  shows "(mbedtls_ccm_auth_decrypt ctx iv add c buf tag tag_len = (None, p) \<longleftrightarrow>
      mbedtls_ccm_encrypt_and_tag ctx iv add p tag_len = Inr (c, tag)) \<and>
    (mbedtls_ccm_auth_decrypt ctx iv add c buf tag tag_len = (Some MBEDTLS_ERR_CCM_AUTH_FAILED, out) \<longrightarrow>
      out = replicate (length c) 0)"
proof (intro conjI impI iffI)
  assume "mbedtls_ccm_auth_decrypt ctx iv add c buf tag tag_len = (None, p)"
  then have "tag_len \<noteq> 0" "ccm_auth_crypt ctx CCM_DECRYPT iv add c tag_len = Inr (p, tag)"
    using assms by (auto simp: mbedtls_ccm_auth_decrypt_def mbedtls_ccm_star_auth_decrypt_def split: if_splits sum.splits)
  with ccm_auth_crypt_inverse(1) [of CCM_DECRYPT CCM_ENCRYPT ctx iv add c tag_len p tag] show "mbedtls_ccm_encrypt_and_tag ctx iv add p tag_len = Inr (c, tag)"
    by (auto simp: mbedtls_ccm_encrypt_and_tag_def mbedtls_ccm_star_encrypt_and_tag_def)
next
  assume "mbedtls_ccm_encrypt_and_tag ctx iv add p tag_len = Inr (c, tag)"
  then have "tag_len \<noteq> 0" "ccm_auth_crypt ctx CCM_ENCRYPT iv add p tag_len = Inr (c, tag)"
    by (auto simp: mbedtls_ccm_encrypt_and_tag_def mbedtls_ccm_star_encrypt_and_tag_def split: if_splits)
  with ccm_auth_crypt_inverse(1) [of CCM_ENCRYPT CCM_DECRYPT ctx iv add p tag_len c tag] show "mbedtls_ccm_auth_decrypt ctx iv add c buf tag tag_len = (None, p)"
    using assms by (auto simp: mbedtls_ccm_auth_decrypt_def mbedtls_ccm_star_auth_decrypt_def)
next
  assume "mbedtls_ccm_auth_decrypt ctx iv add c buf tag tag_len = (Some MBEDTLS_ERR_CCM_AUTH_FAILED, out)"
  then show "out = replicate (length c) 0"
    by (auto simp: mbedtls_ccm_auth_decrypt_def mbedtls_ccm_star_auth_decrypt_def ccm_auth_crypt_def Let_def
        split: if_splits sum.splits prod.splits)
qed

section \<open>Properties\<close>

text \<open>C30. CCM decryption accepts exactly what CCM encryption produced: it returns a plaintext if and only if
  encrypting that plaintext gives the ciphertext and the tag; a wrong tag is refused and the output
  buffer is zeroed.\<close>

theorem ccm_decrypt_iff_encrypt:
  assumes "length tag = tag_len"
  shows "(mbedtls_ccm_auth_decrypt ctx iv add c buf tag tag_len = (None, p) \<longleftrightarrow>
      mbedtls_ccm_encrypt_and_tag ctx iv add p tag_len = Inr (c, tag)) \<and>
    (mbedtls_ccm_auth_decrypt ctx iv add c buf tag tag_len = (Some MBEDTLS_ERR_CCM_AUTH_FAILED, out) \<longrightarrow>
      out = replicate (length c) 0)"
  using assms by (rule ccm_decrypt_encrypt)

theorem ccm_decrypt_iff_encrypt_witness:
  "\<exists>c tag. mbedtls_ccm_encrypt_and_tag \<lparr>nr = 10, rk = \<lambda>i. of_nat i\<rparr> (replicate 12 1) [] (replicate 44 5) 16 = Inr (c, tag) \<and>
     mbedtls_ccm_auth_decrypt \<lparr>nr = 10, rk = \<lambda>i. of_nat i\<rparr> (replicate 12 1) [] c [] tag 16 = (None, replicate 44 5)"
proof -
  let ?ctx = "\<lparr>nr = 10, rk = \<lambda>i. of_nat i\<rparr>"
  obtain c tag where e: "mbedtls_ccm_encrypt_and_tag ?ctx (replicate 12 1) [] (replicate 44 5) 16 = Inr (c, tag)" "length tag = 16"
    using ccm_tag_length [of 16 "replicate 12 1" "[]" "replicate 44 5" ?ctx CCM_ENCRYPT]
    by (auto simp: mbedtls_ccm_encrypt_and_tag_def mbedtls_ccm_star_encrypt_and_tag_def)
  with ccm_decrypt_iff_encrypt [OF e(2), of ?ctx "replicate 12 1" "[]" c "[]" "replicate 44 5"] show ?thesis by auto
qed

end
