(* ===== verification/BitLockerKeys.thy ===== *)
theory BitLockerKeys
  imports BitLocker Sha256 Ccm
begin

text \<open>BitLocker's key handling in \<^verbatim>\<open>bitlocker_crypto.c\<close>, the SHA-256 stretch and the AES-CCM wrapping, and the native
  entry points of \<^verbatim>\<open>BitLockerNative.cpp\<close>. Java arrays are lists, null is \<open>None\<close>.\<close>

section \<open>Key stretching and wrapping\<close>

definition KDF_ROUNDS :: nat where "KDF_ROUNDS = 0x100000"

definition le64_bytes :: "u64 \<Rightarrow> bytes" where
  "le64_bytes i = map (\<lambda>b. ucast (drop_bit (8 * b) i)) [0..<8]"

text \<open>The turns of the loop on the 88-byte block, the first with counter \<open>i\<close>.\<close>

fun stretch_loop :: "nat \<Rightarrow> u64 \<Rightarrow> bytes \<Rightarrow> bytes" where
  "stretch_loop 0 i block = block"
| "stretch_loop (Suc m) i block =
     (let block = overwrite block 80 (le64_bytes i);
          block = overwrite block 0 (mbedtls_sha256 block False)
      in stretch_loop m (i + 1) block)"

definition bitlk_stretch_key :: "bytes \<Rightarrow> bytes \<Rightarrow> bytes" where
  "bitlk_stretch_key initial salt =
     (let block = replicate 88 0;
          block = overwrite block 32 (take 32 initial);
          block = overwrite block 64 (take 16 salt)
      in take 32 (stretch_loop KDF_ROUNDS 0 block))"

definition bitlk_ccm_decrypt :: "bytes \<Rightarrow> bytes \<Rightarrow> bytes \<Rightarrow> bytes \<Rightarrow> bytes \<Rightarrow> ccm_error option \<times> bytes" where
  "bitlk_ccm_decrypt key nonce tag input out =
     (case mbedtls_ccm_setkey key (length key * 8) of
        Inl err \<Rightarrow> (Some err, out)
      | Inr ccm \<Rightarrow> mbedtls_ccm_auth_decrypt ccm (take 12 nonce) [] input out tag 16)"

definition bitlk_ccm_encrypt :: "bytes \<Rightarrow> bytes \<Rightarrow> bytes \<Rightarrow> ccm_error + bytes \<times> bytes" where
  "bitlk_ccm_encrypt key nonce input =
     (case mbedtls_ccm_setkey key (length key * 8) of
        Inl err \<Rightarrow> Inl err
      | Inr ccm \<Rightarrow> mbedtls_ccm_encrypt_and_tag ccm (take 12 nonce) [] input 16)"

section \<open>The native entry points\<close>

definition stretchKey :: "bytes \<Rightarrow> bytes \<Rightarrow> bytes option" where
  "stretchKey jInitial jSalt =
     (if length jInitial \<noteq> 32 \<or> length jSalt \<noteq> 16 then None else Some (bitlk_stretch_key jInitial jSalt))"

definition ccmDecrypt :: "bytes \<Rightarrow> bytes \<Rightarrow> bytes \<Rightarrow> bytes \<Rightarrow> bytes option" where
  "ccmDecrypt jKey jNonce jTag jData =
     (if length jNonce \<noteq> 12 \<or> length jTag \<noteq> 16 \<or> length jKey \<noteq> 16 \<and> length jKey \<noteq> 32 then None
      else
        (case bitlk_ccm_decrypt jKey jNonce jTag jData (replicate (length jData) 0) of
           (None, out) \<Rightarrow> Some out
         | (Some _, _) \<Rightarrow> None))"

definition ccmEncrypt :: "bytes \<Rightarrow> bytes \<Rightarrow> bytes \<Rightarrow> bytes option" where
  "ccmEncrypt jKey jNonce jData =
     (if length jNonce \<noteq> 12 \<or> length jKey \<noteq> 16 \<and> length jKey \<noteq> 32 then None
      else
        (case bitlk_ccm_encrypt jKey jNonce jData of
           Inl _ \<Rightarrow> None
         | Inr (out, tag) \<Rightarrow> Some (out @ tag)))"

definition newContext :: "int \<Rightarrow> bytes \<Rightarrow> u32 \<Rightarrow> bitlk_ctx option" where
  "newContext md jKey sectorSize = bitlk_ctx_new md jKey sectorSize"

text \<open>\<^verbatim>\<open>cryptSectors\<close>: the result and the array afterwards; \<^verbatim>\<open>JNI_ABORT\<close> drops the changes of a failed call. The sum
  \<open>offset + length\<close> is the 32-bit one; \<open>None\<close> is an access outside the array.\<close>

definition cryptSectors :: "bitlk_ctx option \<Rightarrow> bool \<Rightarrow> u64 \<Rightarrow> bytes \<Rightarrow> 32 word \<Rightarrow> 32 word \<Rightarrow> (bitlk_rc \<times> bytes) option" where
  "cryptSectors handle encrypt firstSector jBuf offset len =
     (if handle = None \<or> sint offset < 0 \<or> sint len < 0 \<or> sint (offset + len) > int (length jBuf)
      then Some (BITLK_INVALID, jBuf)
      else
        let o' = nat (sint offset); n = nat (sint len)
        in if o' + n > length jBuf then None
           else
             let (rc, out) = bitlk_crypt_sectors handle encrypt firstSector (take n (drop o' jBuf))
             in Some (rc, if rc = BITLK_OK then take o' jBuf @ out @ drop (o' + n) jBuf else jBuf))"

section \<open>Lemmas\<close>

text \<open>One round of the stretch, as its comment describes the hashed block.\<close>

definition stretch_round :: "bytes \<Rightarrow> bytes \<Rightarrow> u64 \<Rightarrow> bytes \<Rightarrow> bytes" where
  "stretch_round initial salt i lst = sha256_spec (lst @ initial @ salt @ le64_bytes i)"

lemma length_sha256_spec [simp]: "length (sha256_spec m) = 32"
proof -
  have "length (concat (map put_be32 ws)) = 4 * length ws" for ws by (induction ws) (simp_all add: put_be32_def)
  moreover have "length (fst (absorb 64 sha256_block H m)) = 8" if "length H = 8" for H m
    using length_absorb [OF that] absorb_compress [OF that] by simp
  ultimately show ?thesis by (simp add: sha256_spec_def)
qed

lemma sha256_one_shot: "length m < 2 ^ 32 \<Longrightarrow> mbedtls_sha256 m False = sha256_spec m"
  using updates_hold [OF holds_start, of "[m]"] by (simp add: mbedtls_sha256_def finish_holds sha256_spec_def mbedtls_sha256_starts_def)

lemma stretch_loop_rounds:
  "length lst = 32 \<Longrightarrow> length initial = 32 \<Longrightarrow> length salt = 16 \<Longrightarrow> length c = 8 \<Longrightarrow>
   take 32 (stretch_loop n i (lst @ initial @ salt @ c)) =
     fold (\<lambda>k. stretch_round initial salt (i + of_nat k)) [0..<n] lst"
proof (induction n arbitrary: i lst c)
  case (Suc n)
  have b: "overwrite (lst @ initial @ salt @ c) 80 (le64_bytes i) = lst @ initial @ salt @ le64_bytes i"
    using Suc.prems by (simp add: overwrite_def le64_bytes_def)
  have "overwrite (lst @ initial @ salt @ le64_bytes i) 0 (stretch_round initial salt i lst) =
      stretch_round initial salt i lst @ initial @ salt @ le64_bytes i"
    using Suc.prems by (simp add: overwrite_def stretch_round_def)
  moreover have "mbedtls_sha256 (lst @ initial @ salt @ le64_bytes i) False = stretch_round initial salt i lst"
    using Suc.prems by (simp add: sha256_one_shot stretch_round_def le64_bytes_def)
  ultimately have "stretch_loop (Suc n) i (lst @ initial @ salt @ c) =
      stretch_loop n (i + 1) (stretch_round initial salt i lst @ initial @ salt @ le64_bytes i)"
    by (simp add: b)
  moreover have "[0..<Suc n] = 0 # map Suc [0..<n]" by (simp add: map_Suc_upt upt_conv_Cons del: upt_Suc)
  ultimately show ?case
    using Suc.IH [of "stretch_round initial salt i lst" "le64_bytes i" "i + 1"] Suc.prems
    by (simp add: fold_map o_def add.assoc le64_bytes_def stretch_round_def del: upt_Suc)
qed simp

section \<open>Properties\<close>

text \<open>C31. \<^verbatim>\<open>bitlk_stretch_key\<close> is 1048576 rounds of SHA-256 over the last digest, the initial digest, the salt and the
  little-endian round number, starting from 32 zero bytes.\<close>

theorem bitlk_stretch_rounds:
  assumes "length initial = 32" "length salt = 16"
  shows "bitlk_stretch_key initial salt = fold (\<lambda>k. stretch_round initial salt (of_nat k)) [0..<1048576] (replicate 32 0)"
proof -
  have "overwrite (overwrite (replicate 88 0) 32 initial) 64 salt = replicate 32 0 @ initial @ salt @ replicate 8 (0 :: u8)"
    using assms by (simp add: overwrite_def)
  then show ?thesis
    using stretch_loop_rounds [of "replicate 32 0" initial salt "replicate 8 0" KDF_ROUNDS 0] assms
    by (simp add: bitlk_stretch_key_def KDF_ROUNDS_def)
qed

theorem bitlk_stretch_rounds_witness:
  "bitlk_stretch_key (replicate 32 1) (replicate 16 2) =
     fold (\<lambda>k. stretch_round (replicate 32 1) (replicate 16 2) (of_nat k)) [0..<1048576] (replicate 32 0)"
  by (rule bitlk_stretch_rounds) simp_all

text \<open>C32. A key blob that \<^verbatim>\<open>ccmEncrypt\<close> wrapped is unwrapped by \<^verbatim>\<open>ccmDecrypt\<close> with the same key and nonce, and
  \<^verbatim>\<open>ccmDecrypt\<close> returns data only for a blob and tag that \<^verbatim>\<open>ccmEncrypt\<close> makes of it.\<close>

theorem bitlk_key_wrapping:
  assumes "length tag = 16"
  shows "ccmDecrypt key nonce tag c = Some p \<longleftrightarrow> ccmEncrypt key nonce p = Some (c @ tag)"
proof (cases "length nonce = 12 \<and> (length key = 16 \<or> length key = 32)")
  case True
  obtain ctx where ctx: "mbedtls_ccm_setkey key (length key * 8) = Inr ctx"
    using True setkey_enc_succeeds [of "length key * 8" key] by (auto simp: mbedtls_ccm_setkey_def)
  have "ccmDecrypt key nonce tag c = Some p \<longleftrightarrow>
      mbedtls_ccm_auth_decrypt ctx nonce [] c (replicate (length c) 0) tag 16 = (None, p)"
    using True assms ctx by (auto simp: ccmDecrypt_def bitlk_ccm_decrypt_def split: option.splits prod.splits)
  moreover have "ccmEncrypt key nonce p = Some (c @ tag) \<longleftrightarrow> mbedtls_ccm_encrypt_and_tag ctx nonce [] p 16 = Inr (c, tag)"
    using True assms ctx ccm_tag_size [of ctx CCM_ENCRYPT nonce "[]" p 16]
    by (auto simp: ccmEncrypt_def bitlk_ccm_encrypt_def mbedtls_ccm_encrypt_and_tag_def mbedtls_ccm_star_encrypt_and_tag_def
        split: sum.splits prod.splits)
  ultimately show ?thesis using ccm_decrypt_encrypt [OF assms] by simp
qed (auto simp: ccmDecrypt_def ccmEncrypt_def)

theorem bitlk_key_wrapping_witness:
  "\<exists>blob. ccmEncrypt (replicate 16 1) (replicate 12 2) (replicate 44 5) = Some blob \<and>
     ccmDecrypt (replicate 16 1) (replicate 12 2) (drop 44 blob) (take 44 blob) = Some (replicate 44 5)"
proof -
  obtain ctx where ctx: "mbedtls_ccm_setkey (replicate 16 1) 128 = Inr ctx"
    using setkey_enc_succeeds [of 128 "replicate 16 1"] by (auto simp: mbedtls_ccm_setkey_def)
  obtain c tag where c: "ccm_auth_crypt ctx CCM_ENCRYPT (replicate 12 2) [] (replicate 44 5) 16 = Inr (c, tag)" "length tag = 16"
    using ccm_tag_length [of 16 "replicate 12 2" "[]" "replicate 44 5" ctx CCM_ENCRYPT] by auto
  then have "length c = 44" using ccm_auth_crypt_inverse(2) [of CCM_ENCRYPT CCM_DECRYPT, OF _ c(1)] by simp
  moreover have e: "ccmEncrypt (replicate 16 1) (replicate 12 2) (replicate 44 5) = Some (c @ tag)"
    using ctx c(1) by (simp add: ccmEncrypt_def bitlk_ccm_encrypt_def mbedtls_ccm_encrypt_and_tag_def mbedtls_ccm_star_encrypt_and_tag_def)
  ultimately show ?thesis
    using bitlk_key_wrapping [OF c(2), of "replicate 16 1" "replicate 12 2" c "replicate 44 5"] by simp
qed

end
