(* ===== verification/ExfatBase.thy ===== *)
theory ExfatBase
  imports Base "HOL-Library.Monad_Syntax"
begin

text \<open>
  What the theories on \<^verbatim>\<open>src/app/src/main/cpp/exfat\<close> share: the constants of \<^verbatim>\<open>exfatfs.h\<close>, the packed
  structures as byte lists with an accessor for each field, the in-core structures \<^verbatim>\<open>exfat_node\<close> and
  \<^verbatim>\<open>exfat\<close> as records, and the bitmap macros. A call of \<^verbatim>\<open>exfat_bug\<close> ends in \<^verbatim>\<open>abort()\<close>: the result of a
  function that can reach one is an \<open>option\<close>, and \<open>None\<close> says that it does not return. Return codes are
  the integers of the code, \<open>- EIO\<close> and so on; \<^verbatim>\<open>cluster_t\<close>, sizes and bitmap blocks keep their width
  (\<^verbatim>\<open>size_t\<close> is 64 bits), \<^verbatim>\<open>off_t\<close> values that the code never makes negative are natural numbers.
\<close>

unbundle bit_operations_syntax

section \<open>Constants\<close>

abbreviation (input) ENOENT :: int where "ENOENT \<equiv> 2"
abbreviation (input) EIO :: int where "EIO \<equiv> 5"
abbreviation (input) ENOMEM :: int where "ENOMEM \<equiv> 12"
abbreviation (input) EEXIST :: int where "EEXIST \<equiv> 17"
abbreviation (input) ENODEV :: int where "ENODEV \<equiv> 19"
abbreviation (input) ENOTDIR :: int where "ENOTDIR \<equiv> 20"
abbreviation (input) EISDIR :: int where "EISDIR \<equiv> 21"
abbreviation (input) EINVAL :: int where "EINVAL \<equiv> 22"
abbreviation (input) ENOSPC :: int where "ENOSPC \<equiv> 28"
abbreviation (input) ENOTEMPTY :: int where "ENOTEMPTY \<equiv> 39"

type_synonym cluster_t = u32
type_synonym ptr = nat

abbreviation (input) EXFAT_FIRST_DATA_CLUSTER :: cluster_t where "EXFAT_FIRST_DATA_CLUSTER \<equiv> 2"
abbreviation (input) EXFAT_CLUSTER_FREE :: cluster_t where "EXFAT_CLUSTER_FREE \<equiv> 0"
abbreviation (input) EXFAT_CLUSTER_BAD :: cluster_t where "EXFAT_CLUSTER_BAD \<equiv> 0xfffffff7"
abbreviation (input) EXFAT_CLUSTER_END :: cluster_t where "EXFAT_CLUSTER_END \<equiv> 0xffffffff"

abbreviation (input) EXFAT_STATE_MOUNTED :: u16 where "EXFAT_STATE_MOUNTED \<equiv> 2"

abbreviation (input) EXFAT_ENTRY_VALID :: u8 where "EXFAT_ENTRY_VALID \<equiv> 0x80"
abbreviation (input) EXFAT_ENTRY_BITMAP :: u8 where "EXFAT_ENTRY_BITMAP \<equiv> 0x81"
abbreviation (input) EXFAT_ENTRY_UPCASE :: u8 where "EXFAT_ENTRY_UPCASE \<equiv> 0x82"
abbreviation (input) EXFAT_ENTRY_LABEL :: u8 where "EXFAT_ENTRY_LABEL \<equiv> 0x83"
abbreviation (input) EXFAT_ENTRY_FILE :: u8 where "EXFAT_ENTRY_FILE \<equiv> 0x85"
abbreviation (input) EXFAT_ENTRY_FILE_INFO :: u8 where "EXFAT_ENTRY_FILE_INFO \<equiv> 0xc0"
abbreviation (input) EXFAT_ENTRY_FILE_NAME :: u8 where "EXFAT_ENTRY_FILE_NAME \<equiv> 0xc1"
abbreviation (input) EXFAT_ENTRY_FILE_TAIL :: u8 where "EXFAT_ENTRY_FILE_TAIL \<equiv> 0xe0"

abbreviation (input) EXFAT_ATTRIB_DIR :: u16 where "EXFAT_ATTRIB_DIR \<equiv> 0x10"
abbreviation (input) EXFAT_ATTRIB_ARCH :: u16 where "EXFAT_ATTRIB_ARCH \<equiv> 0x20"

abbreviation (input) EXFAT_NAME_MAX :: nat where "EXFAT_NAME_MAX \<equiv> 255"
abbreviation (input) EXFAT_ENAME_MAX :: nat where "EXFAT_ENAME_MAX \<equiv> 15"
abbreviation (input) EXFAT_UTF8_NAME_BUFFER_MAX :: nat where "EXFAT_UTF8_NAME_BUFFER_MAX \<equiv> EXFAT_NAME_MAX * 3 + 1"
abbreviation (input) EXFAT_UTF8_ENAME_BUFFER_MAX :: nat where "EXFAT_UTF8_ENAME_BUFFER_MAX \<equiv> EXFAT_ENAME_MAX * 3 + 1"
abbreviation (input) EXFAT_UPCASE_CHARS :: nat where "EXFAT_UPCASE_CHARS \<equiv> 0x10000"

definition DIV_ROUND_UP :: "nat \<Rightarrow> nat \<Rightarrow> nat" where
  "DIV_ROUND_UP x d = (x + d - 1) div d"

definition ROUND_UP :: "nat \<Rightarrow> nat \<Rightarrow> nat" where
  "ROUND_UP x d = DIV_ROUND_UP x d * d"

section \<open>The super block\<close>

text \<open>\<^verbatim>\<open>struct exfat_super_block\<close>: 512 packed bytes.\<close>

type_synonym exfat_super_block = bytes

definition oem_name :: "exfat_super_block \<Rightarrow> bytes" where
  "oem_name sb = take 8 (drop 3 sb)"

definition sector_count :: "exfat_super_block \<Rightarrow> u64" where
  "sector_count sb = get_unaligned_le64 (drop 0x48 sb)"

definition fat_sector_start :: "exfat_super_block \<Rightarrow> u32" where
  "fat_sector_start sb = get_unaligned_le32 (drop 0x50 sb)"

definition cluster_sector_start :: "exfat_super_block \<Rightarrow> u32" where
  "cluster_sector_start sb = get_unaligned_le32 (drop 0x58 sb)"

definition cluster_count :: "exfat_super_block \<Rightarrow> u32" where
  "cluster_count sb = get_unaligned_le32 (drop 0x5c sb)"

definition rootdir_cluster :: "exfat_super_block \<Rightarrow> u32" where
  "rootdir_cluster sb = get_unaligned_le32 (drop 0x60 sb)"

definition version_minor :: "exfat_super_block \<Rightarrow> u8" where
  "version_minor sb = sb ! 0x68"

definition version_major :: "exfat_super_block \<Rightarrow> u8" where
  "version_major sb = sb ! 0x69"

definition volume_state :: "exfat_super_block \<Rightarrow> u16" where
  "volume_state sb = get_unaligned_le16 (drop 0x6a sb)"

definition sector_bits :: "exfat_super_block \<Rightarrow> nat" where
  "sector_bits sb = unat (sb ! 0x6c)"

definition spc_bits :: "exfat_super_block \<Rightarrow> nat" where
  "spc_bits sb = unat (sb ! 0x6d)"

definition fat_count :: "exfat_super_block \<Rightarrow> u8" where
  "fat_count sb = sb ! 0x6e"

definition allocated_percent :: "exfat_super_block \<Rightarrow> u8" where
  "allocated_percent sb = sb ! 0x70"

text \<open>\<^verbatim>\<open>SECTOR_SIZE\<close> and \<^verbatim>\<open>CLUSTER_SIZE\<close>; \<^verbatim>\<open>exfat_mount\<close> bounds the two shifts by 25, so that the \<^verbatim>\<open>int\<close>
  of the code does not overflow.\<close>

definition SECTOR_SIZE :: "exfat_super_block \<Rightarrow> nat" where
  "SECTOR_SIZE sb = 2 ^ sector_bits sb"

definition CLUSTER_SIZE :: "exfat_super_block \<Rightarrow> nat" where
  "CLUSTER_SIZE sb = SECTOR_SIZE sb * 2 ^ spc_bits sb"

definition CLUSTER_INVALID :: "exfat_super_block \<Rightarrow> cluster_t \<Rightarrow> bool" where
  "CLUSTER_INVALID sb c \<longleftrightarrow>
     c < EXFAT_FIRST_DATA_CLUSTER \<or> c - EXFAT_FIRST_DATA_CLUSTER \<ge> cluster_count sb"

lemma CLUSTER_SIZE_pos [simp]: "0 < CLUSTER_SIZE sb"
  by (simp add: CLUSTER_SIZE_def SECTOR_SIZE_def)

lemma CLUSTER_INVALID_nat:
  "CLUSTER_INVALID sb c \<longleftrightarrow> unat c < 2 \<or> unat (cluster_count sb) + 2 \<le> unat c"
proof (cases "unat c < 2")
  case False
  then have "unat (c - 2) = unat c - 2"
    by (simp add: unat_sub word_le_nat_alt)
  with False show ?thesis
    by (auto simp: CLUSTER_INVALID_def word_le_nat_alt word_less_nat_alt)
qed (simp add: CLUSTER_INVALID_def word_less_nat_alt)

section \<open>Bitmaps\<close>

text \<open>\<^verbatim>\<open>bitmap_t\<close> is \<^verbatim>\<open>size_t\<close> on a little-endian machine.\<close>

type_synonym bitmap = "u64 list"

definition BMAP_SIZE :: "nat \<Rightarrow> nat" where
  "BMAP_SIZE count = ROUND_UP count 64 div 8"

definition BMAP_BLOCK :: "nat \<Rightarrow> nat" where
  "BMAP_BLOCK index = index div 8 div 8"

definition BMAP_MASK :: "nat \<Rightarrow> u64" where
  "BMAP_MASK index = push_bit (index mod 64) 1"

definition BMAP_GET :: "bitmap \<Rightarrow> nat \<Rightarrow> u64" where
  "BMAP_GET bmap index = bmap ! BMAP_BLOCK index AND BMAP_MASK index"

definition BMAP_SET :: "bitmap \<Rightarrow> nat \<Rightarrow> bitmap" where
  "BMAP_SET bmap index = bmap[BMAP_BLOCK index := bmap ! BMAP_BLOCK index OR BMAP_MASK index]"

definition BMAP_CLR :: "bitmap \<Rightarrow> nat \<Rightarrow> bitmap" where
  "BMAP_CLR bmap index = bmap[BMAP_BLOCK index := bmap ! BMAP_BLOCK index AND NOT (BMAP_MASK index)]"

text \<open>The set of indices a bitmap stands for.\<close>

definition bmap_bit :: "bitmap \<Rightarrow> nat \<Rightarrow> bool" where
  "bmap_bit bmap index \<longleftrightarrow> bit (bmap ! (index div 64)) (index mod 64)"

lemma BMAP_BLOCK_div: "BMAP_BLOCK index = index div 64"
  by (simp add: BMAP_BLOCK_def flip: div_mult2_eq)

lemma BMAP_GET_bit: "BMAP_GET bmap index = 0 \<longleftrightarrow> \<not> bmap_bit bmap index"
  by (simp add: BMAP_GET_def BMAP_MASK_def bmap_bit_def BMAP_BLOCK_div push_bit_eq_mult
      and_exp_eq_0_iff_not_bit)

lemma length_BMAP [simp]: "length (BMAP_SET bmap i) = length bmap" "length (BMAP_CLR bmap i) = length bmap"
  by (simp_all add: BMAP_SET_def BMAP_CLR_def)

lemma mod64_eq: "j div 64 = i div 64 \<Longrightarrow> j mod 64 = i mod 64 \<longleftrightarrow> j = (i::nat)"
  by (metis div_mult_mod_eq)

lemma bmap_bit_SET:
  assumes "i div 64 < length bmap"
  shows "bmap_bit (BMAP_SET bmap i) j \<longleftrightarrow> j = i \<or> bmap_bit bmap j"
proof (cases "j div 64 = i div 64")
  case True
  then show ?thesis
    using assms mod64_eq [OF True]
    by (auto simp: bmap_bit_def BMAP_SET_def BMAP_BLOCK_div BMAP_MASK_def bit_simps)
next
  case False
  then show ?thesis by (auto simp: bmap_bit_def BMAP_SET_def BMAP_BLOCK_div)
qed

lemma bmap_bit_CLR:
  assumes "i div 64 < length bmap"
  shows "bmap_bit (BMAP_CLR bmap i) j \<longleftrightarrow> j \<noteq> i \<and> bmap_bit bmap j"
proof (cases "j div 64 = i div 64")
  case True
  then show ?thesis
    using assms mod64_eq [OF True]
    by (auto simp: bmap_bit_def BMAP_CLR_def BMAP_BLOCK_div BMAP_MASK_def bit_simps)
next
  case False
  then show ?thesis by (auto simp: bmap_bit_def BMAP_CLR_def BMAP_BLOCK_div)
qed

section \<open>Words\<close>

lemma word_less_bits:
  assumes "unat (w :: 'a::len word) < 2 ^ k" "k \<le> n"
  shows "\<not> bit w n"
proof -
  from assms(2) have "(2::nat) ^ k \<le> 2 ^ n" by simp
  with assms(1) have "unat w < 2 ^ n" by linarith
  then have "\<not> bit (unat w) n" by (simp add: bit_iff_odd)
  then show ?thesis by (simp add: bit_unsigned_iff)
qed

end
