(* ===== verification/ExfatTime.thy ===== *)
theory ExfatTime
  imports ExfatBase "HOL-Library.Signed_Division"
begin

text \<open>The conversions between Unix time and exFAT's packed local time of \<^verbatim>\<open>exfat/time.c\<close>. \<^verbatim>\<open>time_t\<close> and
  \<^verbatim>\<open>long\<close> values are integers; \<^verbatim>\<open>exfat_timezone\<close>, a static variable there, is the argument \<open>tz\<close>.\<close>

section \<open>The code\<close>

abbreviation (input) SEC_IN_MIN :: int where "SEC_IN_MIN \<equiv> 60"
abbreviation (input) SEC_IN_HOUR :: int where "SEC_IN_HOUR \<equiv> 60 * SEC_IN_MIN"
abbreviation (input) SEC_IN_DAY :: int where "SEC_IN_DAY \<equiv> 24 * SEC_IN_HOUR"
abbreviation (input) SEC_IN_YEAR :: int where "SEC_IN_YEAR \<equiv> 365 * SEC_IN_DAY"
abbreviation (input) EXFAT_EPOCH_YEAR :: int where "EXFAT_EPOCH_YEAR \<equiv> 1980"
abbreviation (input) EPOCH_DIFF_YEAR :: int where "EPOCH_DIFF_YEAR \<equiv> EXFAT_EPOCH_YEAR - 1970"
abbreviation (input) EPOCH_DIFF_DAYS :: int where "EPOCH_DIFF_DAYS \<equiv> EPOCH_DIFF_YEAR * 365 + EPOCH_DIFF_YEAR div 4"

definition EPOCH_DIFF_SEC :: int where
  "EPOCH_DIFF_SEC = EPOCH_DIFF_DAYS * SEC_IN_DAY"

definition LEAP_YEARS :: "int \<Rightarrow> int" where
  "LEAP_YEARS year = (EXFAT_EPOCH_YEAR + year - 1) div 4 - (EXFAT_EPOCH_YEAR - 1) div 4"

definition IS_LEAP_YEAR :: "int \<Rightarrow> bool" where
  "IS_LEAP_YEAR year \<longleftrightarrow> (EXFAT_EPOCH_YEAR + year) mod 4 = 0"

definition days_in_year :: "int list" where
  "days_in_year = [0, 0, 31, 59, 90, 120, 151, 181, 212, 243, 273, 304, 334]"

definition exfat_exfat2unix :: "int \<Rightarrow> u16 \<Rightarrow> u16 \<Rightarrow> u8 \<Rightarrow> u8 \<Rightarrow> int" where
  "exfat_exfat2unix tz ndate ntime centisec tzoffset =
     (let day = uint (ndate AND 0x1f);
          month = uint (drop_bit 5 ndate AND 0xf);
          year = uint (drop_bit 9 ndate);
          twosec = uint (ntime AND 0x1f);
          min = uint (drop_bit 5 ntime AND 0x3f);
          hour = uint (drop_bit 11 ntime)
      in if day = 0 \<or> month = 0 \<or> month > 12 then 0
         else if hour > 23 \<or> min > 59 \<or> twosec > 29 then 0
         else if centisec > 199 then 0
         else
           let unix_time = EPOCH_DIFF_SEC + (year * SEC_IN_YEAR + LEAP_YEARS year * SEC_IN_DAY);
               unix_time = unix_time + days_in_year ! nat month * SEC_IN_DAY;
               unix_time = (if (EXFAT_EPOCH_YEAR + year) mod 4 = 0 \<and> month > 2 then unix_time + SEC_IN_DAY else unix_time);
               unix_time = unix_time + (day - 1) * SEC_IN_DAY;
               unix_time = unix_time + hour * SEC_IN_HOUR + min * SEC_IN_MIN + twosec * 2 + uint centisec div 100
           in if tzoffset AND 0x80 \<noteq> 0 then unix_time - sint (push_bit 1 tzoffset) * 15 * 60 sdiv 2
              else unix_time + tz)"

text \<open>The loop over the months: the month and the days left in it.\<close>

fun find_month :: "bool \<Rightarrow> int \<Rightarrow> nat list \<Rightarrow> nat \<times> int" where
  "find_month leap days [] = (0, days)"
| "find_month leap days (i # is) =
     (let leap_day = of_bool (leap \<and> i = 2);
          leap_sub = of_bool (leap \<and> i \<ge> 3)
      in if i = 12 \<or> days - leap_sub < days_in_year ! (i + 1) + leap_day
         then (i, days - (days_in_year ! i + leap_sub))
         else find_month leap days is)"

definition int32 :: "int \<Rightarrow> int" where
  "int32 x = sint (word_of_int x :: u32)"

definition exfat_unix2exfat :: "int \<Rightarrow> int \<Rightarrow> u16 \<times> u16 \<times> u8 \<times> u8" where
  "exfat_unix2exfat tz unix_time =
     (let shift = EPOCH_DIFF_SEC + tz;
          unix_time = (if unix_time < shift then shift else unix_time);
          unix_time = unix_time - shift;
          days = int32 (unix_time sdiv SEC_IN_DAY);
          year = word_of_int (int32 (4 * days) sdiv (4 * 365 + 1)) :: u16;
          days = int32 (days - (uint year * 365 + LEAP_YEARS (uint year)));
          (month, days) = find_month (IS_LEAP_YEAR (uint year)) days [1..<13];
          day = word_of_int (days + 1) :: u16;
          hour = word_of_int ((unix_time mod SEC_IN_DAY) div SEC_IN_HOUR) :: u16;
          min = word_of_int ((unix_time mod SEC_IN_HOUR) div SEC_IN_MIN) :: u16;
          twosec = word_of_int ((unix_time mod SEC_IN_MIN) div 2) :: u16
      in (day OR push_bit 5 (word_of_nat month) OR push_bit 9 year,
          twosec OR push_bit 5 min OR push_bit 11 hour,
          word_of_int ((unix_time mod 2) * 100),
          word_of_int ((- tz) sdiv 60 sdiv 15) OR 0x80))"

section \<open>Years, months and days\<close>

lemma LEAP_YEARS_eq: "LEAP_YEARS y = (y + 3) div 4"
  by (simp add: LEAP_YEARS_def)

lemma IS_LEAP_YEAR_eq: "IS_LEAP_YEAR y \<longleftrightarrow> y mod 4 = 0"
  unfolding IS_LEAP_YEAR_def by presburger

lemma year_of_days:
  assumes "0 \<le> D" "D < 46752"
  defines "y \<equiv> (4 * D) div 1461"
  defines "d \<equiv> D - (y * 365 + LEAP_YEARS y)"
  shows "0 \<le> y" "y < 128" "0 \<le> d" "d < 365 + of_bool (IS_LEAP_YEAR y)"
proof -
  define s where "s = (4 * D) mod 1461"
  have s: "4 * D = 1461 * y + s" "0 \<le> s" "s < 1461" by (auto simp: s_def y_def)
  show y: "0 \<le> y" "y < 128" using s assms(1,2) by linarith+
  define q r where "q = y div 4" "r = y mod 4"
  have y4: "y = 4 * q + r" "0 \<le> r" "r < 4" by (auto simp: q_r_def)
  then have l: "LEAP_YEARS y = q + of_bool (r \<noteq> 0)" "IS_LEAP_YEAR y \<longleftrightarrow> r = 0"
    by (auto simp: LEAP_YEARS_eq IS_LEAP_YEAR_eq)
  define b :: int where "b = of_bool (r \<noteq> 0)"
  have "4 * d = r + s - 4 * b"
    unfolding d_def l(1) [folded b_def] using s(1) y4(1) by (simp add: algebra_simps)
  then show "0 \<le> d" "d < 365 + of_bool (IS_LEAP_YEAR y)"
    using s(2,3) y4(2,3) unfolding l(2) by (cases "r = 0"; simp add: b_def)+
qed

definition find_month_ok :: "bool \<Rightarrow> int \<Rightarrow> bool" where
  "find_month_ok leap d =
     (let (m, r) = find_month leap d [1..<13]
      in 1 \<le> m \<and> m \<le> 12 \<and> 0 \<le> r \<and> r < 31 \<and> days_in_year ! m + of_bool (leap \<and> m > 2) + r = d)"

lemma find_month_all: "list_all (find_month_ok True) [0..365]" "list_all (find_month_ok False) [0..364]"
  by code_simp+

lemma find_month_correct:
  assumes "0 \<le> d" "d < 365 + of_bool leap" "find_month leap d [1..<13] = (m, r)"
  shows "1 \<le> m" "m \<le> 12" "0 \<le> r" "r < 31" "days_in_year ! m + of_bool (leap \<and> m > 2) + r = d"
proof -
  have "find_month_ok leap d"
    using assms(1,2) find_month_all by (cases leap) (simp_all add: list_all_iff)
  then show "1 \<le> m" "m \<le> 12" "0 \<le> r" "r < 31" "days_in_year ! m + of_bool (leap \<and> m > 2) + r = d"
    using assms(3) by (simp_all add: find_month_ok_def)
qed

section \<open>Packed fields\<close>

text \<open>Three fields in one word, the lowest \<open>a\<close> bits wide and the middle one \<open>b\<close>.\<close>

lemma pack_fields:
  fixes x y z :: u16
  assumes "unat x < 2 ^ a" "unat y < 2 ^ b" "unat z < 2 ^ c" "a + b + c \<le> 16"
  defines "w \<equiv> x OR push_bit a y OR push_bit (a + b) z"
  shows "w AND mask a = x" "drop_bit a w AND mask b = y" "drop_bit (a + b) w = z"
proof -
  note nb = word_less_bits [OF assms(1)] word_less_bits [OF assms(2)] word_less_bits [OF assms(3)]
  have n: "bit x i = False" if "a \<le> i" for i using nb(1) [OF that] by simp
  have m: "bit y i = False" if "b \<le> i" for i using nb(2) [OF that] by simp
  have k: "bit z i = False" if "c \<le> i" for i using nb(3) [OF that] by simp
  show "w AND mask a = x"
    by (rule bit_word_eqI, case_tac "n < a") (simp_all add: w_def bit_simps n)
  show "drop_bit a w AND mask b = y"
    using assms(4) by (intro bit_word_eqI, case_tac "n < b") (auto simp: w_def bit_simps n m)
  show "drop_bit (a + b) w = z"
    using assms(4) by (intro bit_word_eqI, case_tac "n < c") (auto simp: w_def bit_simps n m k)
qed

definition tzoffset_ok :: "int \<Rightarrow> bool" where
  "tzoffset_ok k =
     (let t = word_of_int k OR 0x80 :: u8 in t AND 0x80 \<noteq> 0 \<and> sint (push_bit 1 t) * 15 * 60 sdiv 2 = k * 900)"

lemma tzoffset_all: "list_all tzoffset_ok [-64..63]"
  by code_simp

lemma tzoffset_correct:
  assumes "tz mod 900 = 0" "- 56700 \<le> tz" "tz \<le> 57600"
  defines "t \<equiv> word_of_int ((- tz) sdiv 60 sdiv 15) OR 0x80 :: u8"
  shows "t AND 0x80 \<noteq> 0" "sint (push_bit 1 t) * 15 * 60 sdiv 2 = - tz"
proof -
  obtain k where k: "tz = - (k * 900)" using assms(1) by (metis add.inverse_inverse dvd_def mod_0_imp_dvd mult.commute mult_minus_right)
  have "(- tz) sdiv 60 sdiv 15 = k" 
    by (simp add: k signed_divide_int_def sgn_mult abs_mult sgn_if)
  moreover have "tzoffset_ok k"
    using tzoffset_all [unfolded list_all_iff set_upto] assms(2,3) unfolding k by (elim bspec) simp
  ultimately show "t AND 0x80 \<noteq> 0" "sint (push_bit 1 t) * 15 * 60 sdiv 2 = - tz"
    unfolding t_def tzoffset_ok_def Let_def by (simp_all only: k minus_minus not_False_eq_True)
qed

section \<open>The round trip\<close>

lemma int32_small: "- (2 ^ 31) \<le> x \<Longrightarrow> x < 2 ^ 31 \<Longrightarrow> int32 x = x"
  by (simp add: int32_def signed_of_int signed_take_bit_int_eq_self)

lemma sdiv_nonneg: "0 \<le> (a::int) \<Longrightarrow> 0 < b \<Longrightarrow> a sdiv b = a div b"
  by (cases "a = 0") (simp_all add: signed_divide_int_def)

lemma unat_word_of_int_less: "0 \<le> x \<Longrightarrow> x < int n \<Longrightarrow> n \<le> 2 ^ 16 \<Longrightarrow> unat (word_of_int x :: u16) < n"
  by (simp add: unat_eq_nat_uint unsigned_of_int take_bit_int_eq_self)

lemma uint_word_of_int_16: "0 \<le> x \<Longrightarrow> x < 2 ^ 16 \<Longrightarrow> uint (word_of_int x :: u16) = x"
  by (simp add: unsigned_of_int take_bit_int_eq_self)

lemma pack_uint:
  assumes "w = word_of_int x OR push_bit a (word_of_int y) OR push_bit (a + b) (word_of_int z :: u16)"
    and "0 \<le> x" "x < 2 ^ a" "0 \<le> y" "y < 2 ^ b" "0 \<le> z" "z < 2 ^ c" "a + b + c \<le> 16"
  shows "uint (w AND mask a) = x" "uint (drop_bit a w AND mask b) = y" "uint (drop_bit (a + b) w) = z"
proof -
  have p: "(2::nat) ^ a \<le> 2 ^ 16" "(2::nat) ^ b \<le> 2 ^ 16" "(2::nat) ^ c \<le> 2 ^ 16"
    using assms(8) by (simp_all add: power_increasing del: power_numeral)
  have u: "uint (word_of_int v :: u16) = v \<and> unat (word_of_int v :: u16) < 2 ^ n"
    if "0 \<le> v" "v < 2 ^ n" "(2::nat) ^ n \<le> 2 ^ 16" for v n
  proof -
    have "(2::int) ^ n \<le> 2 ^ 16" using that(3) by (metis of_nat_le_iff of_nat_numeral of_nat_power)
    with that show ?thesis by (simp add: uint_word_of_int_16 unat_word_of_int_less)
  qed
  note u3 = u [OF assms(2,3) p(1)] u [OF assms(4,5) p(2)] u [OF assms(6,7) p(3)]
  then show "uint (w AND mask a) = x" "uint (drop_bit a w AND mask b) = y" "uint (drop_bit (a + b) w) = z"
    using pack_fields [OF conjunct2 [OF u3(1)] conjunct2 [OF u3(2)] conjunct2 [OF u3(3)] assms(8)]
    unfolding assms(1) by simp_all
qed

text \<open>What \<^verbatim>\<open>exfat_unix2exfat\<close> stores for a time in the range of the format, in numbers.\<close>

lemma unix2exfat_fields:
  assumes "T = t - (EPOCH_DIFF_SEC + tz)" "0 \<le> T" "T < 46752 * 86400"
  defines "y \<equiv> (4 * (T div 86400)) div 1461"
  defines "d \<equiv> T div 86400 - (y * 365 + LEAP_YEARS y)"
  assumes "find_month (IS_LEAP_YEAR y) d [1..<13] = (m, r)"
  shows "exfat_unix2exfat tz t =
    (word_of_int (r + 1) OR push_bit 5 (word_of_nat m) OR push_bit 9 (word_of_int y),
     word_of_int (T mod 60 div 2) OR push_bit 5 (word_of_int (T mod 3600 div 60)) OR
       push_bit 11 (word_of_int (T mod 86400 div 3600)),
     word_of_int (T mod 2 * 100), word_of_int ((- tz) sdiv 60 sdiv 15) OR 0x80)"
proof -
  have D: "0 \<le> T div 86400" "T div 86400 < 46752" using assms(2,3) by auto
  note yd = year_of_days [OF D, folded y_def, folded d_def]
  have 1: "\<not> t < EPOCH_DIFF_SEC + tz" "t - (EPOCH_DIFF_SEC + tz) = T" using assms(1,2) by auto
  have 2: "int32 (T sdiv 86400) = T div 86400" "int32 (4 * (T div 86400)) = 4 * (T div 86400)"
    using D assms(2) by (simp_all add: sdiv_nonneg int32_small)
  have 3: "(4 * (T div 86400)) sdiv (1460 + 1) = y" using D by (simp add: sdiv_nonneg y_def)
  have 4: "uint (word_of_int y :: u16) = y" using yd by (simp add: uint_word_of_int_16)
  have "d < 366" using yd(4) by (cases "IS_LEAP_YEAR y") auto
  with yd(3) have 5: "int32 d = d" by (intro int32_small) simp_all
  show ?thesis
    using assms(6) 5
    by (simp only: exfat_unix2exfat_def Let_def 1 2 3 4 d_def if_False prod.case mult_1 mult_numeral_left_semiring_numeral
        num.simps arith_simps)
qed

lemma seconds_split:
  fixes T :: int
  assumes "0 \<le> T"
  shows "T = T div 86400 * 86400 + T mod 86400 div 3600 * 3600 + T mod 3600 div 60 * 60 + T mod 60 div 2 * 2 + T mod 2"
proof -
  have "T mod 3600 = T mod 86400 mod 3600" "T mod 60 = T mod 3600 mod 60" "T mod 2 = T mod 60 mod 2"
    by (simp_all add: mod_mod_cancel)
  then show ?thesis by (metis add.assoc div_mult_mod_eq)
qed

lemma exfat2unix_fields:
  assumes "T = t - (EPOCH_DIFF_SEC + tz)" "0 \<le> T" "T < 46752 * 86400"
    and "tz mod 900 = 0" "- 56700 \<le> tz" "tz \<le> 57600"
    and "exfat_unix2exfat tz t = (date, time, centisec, tzoffset)"
  shows "exfat_exfat2unix tz' date time centisec tzoffset = t"
proof -
  define y where "y = (4 * (T div 86400)) div 1461"
  define d where "d = T div 86400 - (y * 365 + LEAP_YEARS y)"
  obtain m r where mr: "find_month (IS_LEAP_YEAR y) d [1..<13] = (m, r)" by fastforce
  have D: "0 \<le> T div 86400" "T div 86400 < 46752" using assms(2,3) by auto
  note yd = year_of_days [OF D, folded y_def, folded d_def]
  note mo = find_month_correct [OF yd(3,4) mr]
  note f = unix2exfat_fields [OF assms(1-3) mr [unfolded d_def y_def], folded y_def, unfolded assms(7) prod.inject]
  have masks: "(0x1f :: u16) = mask 5" "(0xf :: u16) = mask 4" "(0x3f :: u16) = mask 6"
    by (simp_all add: mask_eq_decr_exp)
  have date: "uint (date AND 0x1f) = r + 1" "uint (drop_bit 5 date AND 0xf) = int m" "uint (drop_bit 9 date) = y"
    unfolding masks using pack_uint [of date "r + 1" 5 "int m" 4 y 7] f mo yd(1,2) by simp_all
  have ft: "time = word_of_int (T mod 60 div 2) OR push_bit 5 (word_of_int (T mod 3600 div 60)) OR
      push_bit (5 + 6) (word_of_int (T mod 86400 div 3600))" using f by simp
  have r: "0 \<le> T mod 60 div 2" "T mod 60 div 2 < 2 ^ 5" "0 \<le> T mod 3600 div 60" "T mod 3600 div 60 < 2 ^ 6"
    "0 \<le> T mod 86400 div 3600" "T mod 86400 div 3600 < 2 ^ 5" "(5::nat) + 6 + 5 \<le> 16" by simp_all
  note time = pack_uint [OF ft r, folded masks]
  have cs: "\<not> centisec > 199" "uint centisec div 100 = T mod 2"
    using f by (cases "T mod 2 = 0"; simp add: mod2_eq_if)+
  note tz = tzoffset_correct [OF assms(4-6), folded f [THEN conjunct2, THEN conjunct2, THEN conjunct2]]
  have b: "\<not> T mod 86400 div 3600 > 23" "\<not> T mod 3600 div 60 > 59" "\<not> T mod 60 div 2 > 29" by simp_all
  have l: "(EXFAT_EPOCH_YEAR + y) mod 4 = 0 \<and> int m > 2 \<longleftrightarrow> IS_LEAP_YEAR y \<and> m > 2"
    by (auto simp: IS_LEAP_YEAR_def)
  have g: "\<not> (r + 1 = 0 \<or> int m = 0 \<or> int m > 12)" using mo(1-3) by auto
  have "T div 86400 = y * 365 + LEAP_YEARS y + days_in_year ! m + of_bool (IS_LEAP_YEAR y \<and> m > 2) + r"
    using mo(5) d_def by linarith
  with seconds_split [OF assms(2)] have "t - (EPOCH_DIFF_SEC + tz) = (y * 365 + LEAP_YEARS y + days_in_year ! m +
      of_bool (IS_LEAP_YEAR y \<and> m > 2) + r) * 86400 +
      T mod 86400 div 3600 * 3600 + T mod 3600 div 60 * 60 + T mod 60 div 2 * 2 + T mod 2"
    using assms(1) by (simp only:)
  then have e: "t = EPOCH_DIFF_SEC + tz + ((y * 365 + LEAP_YEARS y + days_in_year ! m +
      of_bool (IS_LEAP_YEAR y \<and> m > 2) + r) * 86400 +
      T mod 86400 div 3600 * 3600 + T mod 3600 div 60 * 60 + T mod 60 div 2 * 2 + T mod 2)"
    by (simp only: diff_eq_eq add.commute)
  have n: "nat (int m) = m" by simp
  show ?thesis
    unfolding exfat_exfat2unix_def Let_def date time(1,2) time(3) [simplified] l n
    by (simp only: if_not_P [OF g] b cs tz if_False if_True simp_thms e) (simp add: algebra_simps)
qed

text \<open>C34. Time stamps survive the conversion to exFAT's format and back: for every time from the exFAT
  epoch to the end of the 128 years the format holds, written under a time zone that is a whole number
  of quarters of an hour within the seven bits of the offset, \<^verbatim>\<open>exfat_exfat2unix\<close> gives back the time
  \<^verbatim>\<open>exfat_unix2exfat\<close> stored, to the second and whatever time zone the reader is in.\<close>

theorem exfat_time_roundtrip:
  assumes "EPOCH_DIFF_SEC + tz \<le> t" "t < EPOCH_DIFF_SEC + tz + 46752 * 86400"
    and "tz mod 900 = 0" "- 56700 \<le> tz" "tz \<le> 57600"
    and "exfat_unix2exfat tz t = (date, time, centisec, tzoffset)"
  shows "exfat_exfat2unix tz' date time centisec tzoffset = t"
  by (rule exfat2unix_fields [OF refl _ _ assms(3-6)]) (use assms(1,2) in simp_all)

theorem exfat_time_roundtrip_witness:
  "exfat_unix2exfat (- 19800) 1709210675 = (0x585d, 0x91d1, 100, 0x96) \<and>
   exfat_exfat2unix 0 0x585d 0x91d1 100 0x96 = 1709210675"
proof -
  have e: "exfat_unix2exfat (- 19800) 1709210675 = (0x585d, 0x91d1, 100, 0x96)"
    by code_simp
  then show ?thesis
    using exfat_time_roundtrip [OF _ _ _ _ _ e, of 0] by (simp add: EPOCH_DIFF_SEC_def)
qed

text \<open>The year is shifted into seven bits without a check: the first second after that range is stored
  as the exFAT epoch, 1980.\<close>

theorem unix2exfat_year_wraps:
  "exfat_unix2exfat 0 (EPOCH_DIFF_SEC + 46752 * 86400) = exfat_unix2exfat 0 EPOCH_DIFF_SEC"
  by code_simp

end
