(* ===== verification/ExfatDev.thy ===== *)
theory ExfatDev
  imports ExfatBase
begin

text \<open>
  The device under the exFAT code. \<^verbatim>\<open>exfat_pread\<close> and \<^verbatim>\<open>exfat_pwrite\<close> of \<^verbatim>\<open>exfat/io.c\<close> call
  \<^verbatim>\<open>ExFatNative.pread\<close> and \<^verbatim>\<open>pwrite\<close> in Kotlin, which turn byte ranges into whole blocks of a
  \<^verbatim>\<open>RawBlockDevice\<close> (an unaligned write reads the blocks, patches them and writes them back). The block
  device is an interface: the model holds its contents and says which calls throw, a throwing write
  having stored any prefix of its data. A failure is \<open>None\<close>, or \<open>False\<close> beside the device, for the \<open>-1\<close>
  of the code. The in-core structures of \<^verbatim>\<open>exfat.h\<close> follow.
\<close>

section \<open>A block device\<close>

record block_device =
  blockSize :: nat
  blockCount :: nat
  medium :: "nat \<Rightarrow> u8"
  rd_throws :: "nat \<Rightarrow> nat \<Rightarrow> bool"
  wr_throws :: "nat \<Rightarrow> nat \<Rightarrow> nat option"

definition peek :: "(nat \<Rightarrow> u8) \<Rightarrow> nat \<Rightarrow> nat \<Rightarrow> bytes" where
  "peek m off n = map m [off..<off + n]"

definition poke :: "(nat \<Rightarrow> u8) \<Rightarrow> nat \<Rightarrow> bytes \<Rightarrow> nat \<Rightarrow> u8" where
  "poke m off bs a = (if off \<le> a \<and> a < off + length bs then bs ! (a - off) else m a)"

definition readBlocks :: "block_device \<Rightarrow> nat \<Rightarrow> nat \<Rightarrow> bytes option" where
  "readBlocks d start n =
     (if blockCount d < start + n \<or> rd_throws d start n then None
      else Some (peek (medium d) (start * blockSize d) (n * blockSize d)))"

definition writeBlocks :: "block_device \<Rightarrow> nat \<Rightarrow> bytes \<Rightarrow> block_device \<times> bool" where
  "writeBlocks d start data =
     (if blockCount d * blockSize d < start * blockSize d + length data then (d, False)
      else
        case wr_throws d start (length data) of
          None \<Rightarrow> (d\<lparr>medium := poke (medium d) (start * blockSize d) data\<rparr>, True)
        | Some k \<Rightarrow> (d\<lparr>medium := poke (medium d) (start * blockSize d) (take k data)\<rparr>, False))"

section \<open>Byte ranges\<close>

definition numBlocks :: "block_device \<Rightarrow> nat \<Rightarrow> nat \<Rightarrow> nat" where
  "numBlocks d offset sz = (offset + sz - 1) div blockSize d + 1 - offset div blockSize d"

definition pread :: "block_device \<Rightarrow> nat \<Rightarrow> nat \<Rightarrow> bytes option" where
  "pread d offset sz =
     do {
       blocksData \<leftarrow> readBlocks d (offset div blockSize d) (numBlocks d offset sz);
       let blockOffset = offset mod blockSize d;
       if length blocksData < blockOffset + sz then None
       else Some (take sz (drop blockOffset blocksData))
     }"

definition pwrite :: "block_device \<Rightarrow> nat \<Rightarrow> bytes \<Rightarrow> block_device \<times> bool" where
  "pwrite d offset srcBuffer =
     (let sz = length srcBuffer;
          startBlock = offset div blockSize d;
          blockOffset = offset mod blockSize d
      in if blockOffset = 0 \<and> sz mod blockSize d = 0 then writeBlocks d startBlock srcBuffer
         else
           case readBlocks d startBlock (numBlocks d offset sz) of
             None \<Rightarrow> (d, False)
           | Some blocksData \<Rightarrow>
               if length blocksData < blockOffset + sz then (d, False)
               else writeBlocks d startBlock (overwrite blocksData blockOffset srcBuffer))"

text \<open>The JNI side. \<^verbatim>\<open>NewByteArray\<close> refuses sizes that are negative as a \<^verbatim>\<open>jsize\<close>.\<close>

definition exfat_pread :: "block_device \<Rightarrow> nat \<Rightarrow> nat \<Rightarrow> bytes option" where
  "exfat_pread d sz offset = (if 2 ^ 31 \<le> sz then None else pread d offset sz)"

definition exfat_pwrite :: "block_device \<Rightarrow> bytes \<Rightarrow> nat \<Rightarrow> block_device \<times> bool" where
  "exfat_pwrite d buffer offset = (if 2 ^ 31 \<le> length buffer then (d, False) else pwrite d offset buffer)"

definition exfat_get_size :: "block_device \<Rightarrow> nat" where
  "exfat_get_size d = blockCount d * blockSize d"

section \<open>What reads and writes do\<close>

lemma length_peek [simp]: "length (peek m off n) = n"
  by (simp add: peek_def)

lemma nth_peek [simp]: "i < n \<Longrightarrow> peek m off n ! i = m (off + i)"
  by (simp add: peek_def)

lemma peek_cong: "(\<And>a. off \<le> a \<Longrightarrow> a < off + n \<Longrightarrow> m a = m' a) \<Longrightarrow> peek m off n = peek m' off n"
  by (auto simp: peek_def)

lemma poke_Nil [simp]: "poke m off [] = m"
  by (auto simp: poke_def fun_eq_iff)

lemma peek_poke: "peek (poke m off bs) off (length bs) = bs"
  by (rule nth_equalityI) (auto simp: poke_def)

lemma peek_poke_disjoint:
  "off + length bs \<le> a \<or> a + n \<le> off \<Longrightarrow> peek (poke m off bs) a n = peek m a n"
  by (rule peek_cong) (auto simp: poke_def)

lemma take_drop_peek: "o' + k \<le> n \<Longrightarrow> take k (drop o' (peek m off n)) = peek m (off + o') k"
  by (rule nth_equalityI) (auto simp: add.assoc)

lemma exfat_pread_peek:
  assumes "exfat_pread d n off = Some bs"
  shows "bs = peek (medium d) off n"
proof -
  let ?s = "off div blockSize d" and ?o = "off mod blockSize d"
  from assms obtain data where
    data: "data = peek (medium d) (?s * blockSize d) (numBlocks d off n * blockSize d)"
      "?o + n \<le> length data" "bs = take n (drop ?o data)"
    by (auto simp: exfat_pread_def pread_def readBlocks_def Let_def split: if_splits)
  then show ?thesis by (simp add: take_drop_peek)
qed

lemma poke_take_overwrite:
  assumes "o' + length bs \<le> n"
  shows "poke m off (take k (overwrite (peek m off n) o' bs)) = poke m (off + o') (take (k - o') bs)"
  using assms by (auto simp: poke_def fun_eq_iff nth_overwrite diff_diff_left)

text \<open>A write either stores the whole buffer or reports failure with a prefix of it stored, and nothing
  but the medium changes.\<close>

lemma writeBlocks_result:
  assumes "writeBlocks d s data = (d', ok)"
  shows "\<exists>k. d' = d\<lparr>medium := poke (medium d) (s * blockSize d) (take k data)\<rparr> \<and> (ok \<longrightarrow> length data \<le> k)"
proof (cases "ok")
  case True
  with assms show ?thesis
    by (intro exI [of _ "length data"]) (auto simp: writeBlocks_def split: if_splits option.splits)
next
  case False
  with assms consider "d' = d" | k where "d' = d\<lparr>medium := poke (medium d) (s * blockSize d) (take k data)\<rparr>"
    by (auto simp: writeBlocks_def split: if_splits option.splits)
  then show ?thesis
    using False by cases (auto intro: exI [of _ 0])
qed

lemma exfat_pwrite_result:
  assumes "exfat_pwrite d bs off = (d', ok)"
  shows "\<exists>k. d' = d\<lparr>medium := poke (medium d) off (take k bs)\<rparr> \<and> (ok \<longrightarrow> length bs \<le> k)"
proof -
  let ?s = "off div blockSize d" and ?o = "off mod blockSize d" and ?n = "numBlocks d off (length bs)"
  consider (fail) "d' = d" "\<not> ok" | (aligned) "?o = 0" "writeBlocks d ?s bs = (d', ok)"
    | (rmw) "?o + length bs \<le> ?n * blockSize d"
        "writeBlocks d ?s (overwrite (peek (medium d) (?s * blockSize d) (?n * blockSize d)) ?o bs) = (d', ok)"
    using assms by (auto simp: exfat_pwrite_def pwrite_def Let_def readBlocks_def split: if_splits)
  then show ?thesis
  proof cases
    case fail
    then show ?thesis by (auto intro: exI [of _ 0])
  next
    case aligned
    then have "?s * blockSize d = off" by (simp add: minus_mod_eq_div_mult [symmetric])
    with writeBlocks_result [OF aligned(2)] show ?thesis by simp
  next
    case rmw
    have o: "?s * blockSize d + ?o = off" by simp
    from writeBlocks_result [OF rmw(2)] poke_take_overwrite [OF rmw(1), of "medium d" "?s * blockSize d"]
    obtain k where "d' = d\<lparr>medium := poke (medium d) off (take (k - ?o) bs)\<rparr>" "ok \<longrightarrow> ?n * blockSize d \<le> k"
      using rmw(1) by (auto simp: o)
    with rmw(1) show ?thesis by (intro exI [of _ "k - ?o"]) auto
  qed
qed

lemma exfat_pwrite_ok:
  assumes "exfat_pwrite d bs off = (d', True)"
  shows "d' = d\<lparr>medium := poke (medium d) off bs\<rparr>"
  using exfat_pwrite_result [OF assms] by auto

text \<open>A device that never throws serves every range that lies inside it.\<close>

definition healthy :: "block_device \<Rightarrow> bool" where
  "healthy d \<longleftrightarrow> 0 < blockSize d \<and> (\<forall>s n. \<not> rd_throws d s n) \<and> (\<forall>s n. wr_throws d s n = None)"

lemma numBlocks_span:
  assumes "0 < n" "0 < blockSize d"
  shows "off div blockSize d * blockSize d + numBlocks d off n * blockSize d = ((off + n - 1) div blockSize d + 1) * blockSize d"
    and "off mod blockSize d + n \<le> numBlocks d off n * blockSize d"
proof -
  let ?b = "blockSize d"
  have "off div ?b \<le> (off + n - 1) div ?b" using assms by (intro div_le_mono) simp
  then have e: "off div ?b + numBlocks d off n = (off + n - 1) div ?b + 1"
    by (simp add: numBlocks_def)
  then show a: "off div ?b * ?b + numBlocks d off n * ?b = ((off + n - 1) div ?b + 1) * ?b"
    by (simp only: add_mult_distrib [symmetric])
  have "off + n - 1 < ((off + n - 1) div ?b + 1) * ?b"
    using assms(2) by (simp add: dividend_less_div_times)
  with a have "off div ?b * ?b + off mod ?b + n \<le> off div ?b * ?b + numBlocks d off n * ?b"
    using assms(1) by simp
  then show "off mod ?b + n \<le> numBlocks d off n * ?b" by linarith
qed

lemma block_in_range:
  assumes "0 < n" "0 < (b::nat)" "off + n \<le> c * b"
  shows "(off + n - 1) div b + 1 \<le> c"
proof -
  have "off + n - 1 < c * b" using assms(1,3) by linarith
  then show ?thesis by (simp add: less_mult_imp_div_less Suc_leI)
qed

lemma exfat_pread_healthy:
  assumes "healthy d" "0 < n" "n < 2 ^ 31" "off + n \<le> exfat_get_size d"
  shows "exfat_pread d n off = Some (peek (medium d) off n)"
proof -
  have b: "0 < blockSize d" using assms(1) by (simp add: healthy_def)
  have "off div blockSize d \<le> (off + n - 1) div blockSize d" using assms(2) by (intro div_le_mono) simp
  then have "off div blockSize d + numBlocks d off n \<le> blockCount d"
    using block_in_range [OF assms(2) b, of off "blockCount d"] assms(4)
    by (simp add: numBlocks_def exfat_get_size_def)
  with numBlocks_span(2) [OF assms(2) b, of off] assms obtain bs where "exfat_pread d n off = Some bs"
    by (auto simp: exfat_pread_def pread_def readBlocks_def healthy_def Let_def)
  with exfat_pread_peek show ?thesis by fastforce
qed

lemma exfat_pwrite_healthy:
  assumes "healthy d" "bs \<noteq> []" "length bs < 2 ^ 31" "off + length bs \<le> exfat_get_size d"
  shows "exfat_pwrite d bs off = (d\<lparr>medium := poke (medium d) off bs\<rparr>, True)"
proof -
  have b: "0 < blockSize d" and n: "0 < length bs" using assms(1,2) by (simp_all add: healthy_def)
  let ?n = "numBlocks d off (length bs)"
  have "off div blockSize d \<le> (off + length bs - 1) div blockSize d" using n by (intro div_le_mono) linarith
  then have r: "off div blockSize d + ?n \<le> blockCount d"
    using block_in_range [OF n b, of off "blockCount d"] assms(4)
    by (simp add: numBlocks_def exfat_get_size_def)
  then have "off div blockSize d * blockSize d + ?n * blockSize d \<le> blockCount d * blockSize d"
    by (metis add_mult_distrib mult_le_mono1)
  moreover have "off div blockSize d * blockSize d \<le> off" by simp
  ultimately have "snd (exfat_pwrite d bs off)"
    using assms numBlocks_span(2) [OF n b, of off] r
    by (auto simp: exfat_pwrite_def pwrite_def readBlocks_def writeBlocks_def healthy_def exfat_get_size_def Let_def)
  then show ?thesis
    by (cases "exfat_pwrite d bs off") (auto dest: exfat_pwrite_ok)
qed

section \<open>In-core structures\<close>

text \<open>\<^verbatim>\<open>struct exfat_node\<close>. The links are addresses in a heap of nodes; \<^verbatim>\<open>NULL\<close> is \<open>None\<close>.\<close>

record exfat_node =
  parent :: "ptr option"
  child :: "ptr option"
  next_node :: "ptr option"
  prev_node :: "ptr option"
  references :: int
  fptr_index :: u32
  fptr_cluster :: cluster_t
  entry_offset :: nat
  start_cluster :: cluster_t
  attrib :: u16
  continuations :: u8
  is_contiguous :: bool
  is_cached :: bool
  is_dirty :: bool
  is_unlinked :: bool
  valid_size :: u64
  node_size :: u64
  mtime :: int
  atime :: int
  node_name :: "u16 list"

datatype exfat_mode = EXFAT_MODE_RO | EXFAT_MODE_RW | EXFAT_MODE_ANY

datatype exfat_repair = EXFAT_REPAIR_NO | EXFAT_REPAIR_ASK | EXFAT_REPAIR_YES

text \<open>\<^verbatim>\<open>struct exfat\<close>. A chunk or an upper case table that is not loaded is the empty list. \<open>now\<close> is what
  \<^verbatim>\<open>time(NULL)\<close> returns and \<open>exfat_timezone\<close> the static variable of \<^verbatim>\<open>time.c\<close>.\<close>

record exfat =
  dev :: block_device
  sb :: exfat_super_block
  upcase :: "u16 list"
  root :: ptr
  cmap_start_cluster :: cluster_t
  cmap_size :: u32
  chunk :: bitmap
  chunk_size :: u32
  cmap_dirty :: bool
  label :: bytes
  zero_cluster :: bytes
  dmask :: int
  fmask :: int
  uid :: int
  gid :: int
  ro :: int
  noatime :: bool
  repair :: exfat_repair
  now :: int
  exfat_timezone :: int

abbreviation is_dir :: "exfat_node \<Rightarrow> bool" where
  "is_dir node \<equiv> attrib node AND EXFAT_ATTRIB_DIR \<noteq> 0"

definition exfat_update_atime :: "exfat \<Rightarrow> exfat_node \<Rightarrow> exfat_node" where
  "exfat_update_atime ef node = node\<lparr>atime := now ef, is_dirty := True\<rparr>"

definition exfat_update_mtime :: "exfat \<Rightarrow> exfat_node \<Rightarrow> exfat_node" where
  "exfat_update_mtime ef node = node\<lparr>mtime := now ef, is_dirty := True\<rparr>"

end
