(* ===== verification/Utf.thy ===== *)
theory Utf
  imports ExfatBase
begin

text \<open>The conversions between UTF-16 file names and UTF-8 of \<^verbatim>\<open>exfat/utf.c\<close>. \<^verbatim>\<open>wchar_t\<close> is 32 bits wide; an output buffer
  is the list of units written to it, together with the room that is left.\<close>

section \<open>The code\<close>

datatype utf_error = EILSEQ | ENAMETOOLONG

text \<open>\<^verbatim>\<open>wchar_to_utf8\<close>: the bytes it appends, \<open>None\<close> for NULL.\<close>

definition wchar_to_utf8 :: "u32 \<Rightarrow> nat \<Rightarrow> bytes option" where
  "wchar_to_utf8 wc outsize =
     (let tail = (\<lambda>s. 0x80 OR (drop_bit s wc AND 0x3f)) in
      if wc \<le> 0x7f then
        if outsize < 1 then None else Some [ucast wc]
      else if wc \<le> 0x7ff then
        if outsize < 2 then None
        else Some (map ucast [0xc0 OR drop_bit 6 wc, tail 0])
      else if wc \<le> 0xffff then
        if outsize < 3 then None
        else Some (map ucast [0xe0 OR drop_bit 12 wc, tail 6, tail 0])
      else if wc \<le> 0x1fffff then
        if outsize < 4 then None
        else Some (map ucast [0xf0 OR drop_bit 18 wc, tail 12, tail 6, tail 0])
      else if wc \<le> 0x3ffffff then
        if outsize < 5 then None
        else Some (map ucast [0xf8 OR drop_bit 24 wc, tail 18, tail 12, tail 6, tail 0])
      else if wc \<le> 0x7fffffff then
        if outsize < 6 then None
        else Some (map ucast [0xfc OR drop_bit 30 wc, tail 24, tail 18, tail 12, tail 6, tail 0])
      else None)"

text \<open>\<^verbatim>\<open>utf16_to_wchar\<close> and \<^verbatim>\<open>utf8_to_wchar\<close>: the character and the rest of the input.\<close>

definition utf16_to_wchar :: "u16 list \<Rightarrow> (u32 \<times> u16 list) option" where
  "utf16_to_wchar input =
     (if input ! 0 AND 0xfc00 = 0xd800 then
        if length input < 2 \<or> input ! 1 AND 0xfc00 \<noteq> 0xdc00 then None
        else
          let wc = push_bit 10 (ucast (input ! 0 AND 0x3ff));
              wc = wc OR ucast (input ! 1 AND 0x3ff);
              wc = wc + 0x10000
          in Some (wc, drop 2 input)
      else Some (ucast (input ! 0), drop 1 input))"

function utf16_to_utf8_loop :: "u16 list \<Rightarrow> nat \<Rightarrow> utf_error + bytes" where
  "utf16_to_utf8_loop input outsize =
     (if input = [] then if outsize = 0 then Inl ENAMETOOLONG else Inr [0]
      else
        (case utf16_to_wchar input of
           None \<Rightarrow> Inl EILSEQ
         | Some (wc, rest) \<Rightarrow>
             (case wchar_to_utf8 wc outsize of
                None \<Rightarrow> Inl ENAMETOOLONG
              | Some bs \<Rightarrow>
                  if wc = 0 then Inr bs
                  else map_sum id (\<lambda>out. bs @ out) (utf16_to_utf8_loop rest (outsize - length bs)))))"
  by pat_completeness auto
termination
  by (relation "measure (\<lambda>(input, _). length input)")
    (auto simp: utf16_to_wchar_def Let_def split: if_splits)

definition exfat_utf16_to_utf8 :: "u16 list \<Rightarrow> nat \<Rightarrow> utf_error + bytes" where
  "exfat_utf16_to_utf8 input outsize = utf16_to_utf8_loop input outsize"

definition utf8_lead :: "u8 \<Rightarrow> (u32 \<times> nat) option" where
  "utf8_lead b =
     (if b AND 0xe0 = 0xc0 then Some (push_bit 6 (ucast b AND 0x1f), 2)
      else if b AND 0xf0 = 0xe0 then Some (push_bit 12 (ucast b AND 0x0f), 3)
      else if b AND 0xf8 = 0xf0 then Some (push_bit 18 (ucast b AND 0x07), 4)
      else if b AND 0xfc = 0xf8 then Some (push_bit 24 (ucast b AND 0x03), 5)
      else if b AND 0xfe = 0xfc then Some (push_bit 30 (ucast b AND 0x01), 6)
      else None)"

text \<open>The loop over the continuation bytes, with \<open>k\<close> of them left.\<close>

fun utf8_tail :: "nat \<Rightarrow> u32 \<Rightarrow> bytes \<Rightarrow> (u32 \<times> bytes) option" where
  "utf8_tail 0 wc input = Some (wc, input)"
| "utf8_tail (Suc k) wc [] = None"
| "utf8_tail (Suc k) wc (b # input) =
     (if b AND 0xc0 \<noteq> 0x80 then None
      else utf8_tail k (wc OR push_bit (k * 6) (ucast b AND 0x3f)) input)"

definition utf8_to_wchar :: "bytes \<Rightarrow> (u32 \<times> bytes) option" where
  "utf8_to_wchar input =
     (if input ! 0 AND 0x80 = 0 then Some (ucast (input ! 0), drop 1 input)
      else
        (case utf8_lead (input ! 0) of
           None \<Rightarrow> None
         | Some (wc, n) \<Rightarrow> if length input < n then None else utf8_tail (n - 1) wc (drop 1 input)))"

definition wchar_to_utf16 :: "u32 \<Rightarrow> nat \<Rightarrow> u16 list option" where
  "wchar_to_utf16 wc outsize =
     (if wc \<le> 0xffff then if outsize = 0 then None else Some [ucast wc]
      else if outsize < 2 then None
      else
        let wc = wc - 0x10000
        in Some [ucast (0xd800 OR (drop_bit 10 wc AND 0x3ff)), ucast (0xdc00 OR (wc AND 0x3ff))])"

lemma utf8_tail_length: "utf8_tail k wc input = Some (wc', rest) \<Longrightarrow> length rest \<le> length input"
  by (induction k wc input rule: utf8_tail.induct) (auto split: if_splits)

function utf8_to_utf16_loop :: "bytes \<Rightarrow> nat \<Rightarrow> utf_error + u16 list" where
  "utf8_to_utf16_loop input outsize =
     (if input = [] then if outsize = 0 then Inl ENAMETOOLONG else Inr [0]
      else
        (case utf8_to_wchar input of
           None \<Rightarrow> Inl EILSEQ
         | Some (wc, rest) \<Rightarrow>
             (case wchar_to_utf16 wc outsize of
                None \<Rightarrow> Inl ENAMETOOLONG
              | Some us \<Rightarrow>
                  map_sum id (\<lambda>out. us @ out)
                    (if wc = 0 then if outsize - length us = 0 then Inl ENAMETOOLONG else Inr [0]
                     else utf8_to_utf16_loop rest (outsize - length us)))))"
  by pat_completeness auto
termination
proof (relation "measure (\<lambda>(input, _). length input)")
  fix input outsize x wc rest us
  assume "input \<noteq> []" "utf8_to_wchar input = Some x" "(wc, rest) = x"
  then have "length rest \<le> length (drop 1 input)"
    by (auto simp: utf8_to_wchar_def dest!: utf8_tail_length split: if_splits option.splits)
  with \<open>input \<noteq> []\<close> show "((rest, outsize - length us), input, outsize) \<in> measure (\<lambda>(input, _). length input)"
    by (cases input) auto
qed simp

definition exfat_utf8_to_utf16 :: "bytes \<Rightarrow> nat \<Rightarrow> utf_error + u16 list" where
  "exfat_utf8_to_utf16 input outsize = utf8_to_utf16_loop input outsize"

text \<open>\<^verbatim>\<open>exfat_utf16_length\<close> of a string with a terminator.\<close>

fun exfat_utf16_length :: "u16 list \<Rightarrow> nat" where
  "exfat_utf16_length [] = 0"
| "exfat_utf16_length (c # str) = (if c = 0 then 0 else Suc (exfat_utf16_length str))"

declare utf16_to_utf8_loop.simps [simp del] utf8_to_utf16_loop.simps [simp del]

section \<open>One character\<close>

lemma mask6: "(0x3f :: 'a::len word) = mask 6"
  by (simp add: mask_eq_decr_exp)

text \<open>A continuation byte gives back its payload (a check over the 64 payloads).\<close>

definition utf8_cont_ok :: "nat \<Rightarrow> bool" where
  "utf8_cont_ok k \<longleftrightarrow>
     (let b = ucast (0x80 OR word_of_nat k :: u32) :: u8
      in b AND 0xc0 = 0x80 \<and> (ucast b :: u32) AND 0x3f = word_of_nat k)"

lemma utf8_cont_all: "list_all utf8_cont_ok [0..<64]"
  by code_simp

lemma utf8_cont:
  "(ucast (0x80 OR (y AND 0x3f) :: u32) :: u8) AND 0xc0 = 0x80"
  "ucast (ucast (0x80 OR (y AND 0x3f) :: u32) :: u8) AND 0x3f = y AND 0x3f"
proof -
  have "unat (y AND 0x3f) < 64"
    using word_and_le1 [of y "0x3f"] by (simp add: word_le_nat_alt)
  then have "utf8_cont_ok (unat (y AND 0x3f))"
    using utf8_cont_all by (simp add: list_all_iff)
  then show "(ucast (0x80 OR (y AND 0x3f) :: u32) :: u8) AND 0xc0 = 0x80"
    "ucast (ucast (0x80 OR (y AND 0x3f) :: u32) :: u8) AND 0x3f = y AND 0x3f"
    by (simp_all add: utf8_cont_ok_def Let_def)
qed

text \<open>A lead byte gives back its payload and the length of the sequence (a check over the 32, 16 and 8 payloads).\<close>

definition utf8_lead_ok :: "u32 \<Rightarrow> nat \<Rightarrow> nat \<Rightarrow> nat \<Rightarrow> bool" where
  "utf8_lead_ok pre n s k \<longleftrightarrow>
     (let b = ucast (pre OR word_of_nat k) :: u8
      in b AND 0x80 \<noteq> 0 \<and> utf8_lead b = Some (push_bit s (word_of_nat k), n))"

lemma utf8_lead_all:
  "list_all (utf8_lead_ok 0xc0 2 6) [0..<32]" "list_all (utf8_lead_ok 0xe0 3 12) [0..<16]"
  "list_all (utf8_lead_ok 0xf0 4 18) [0..<8]"
  by code_simp+

lemma utf8_lead_encode:
  assumes "list_all (utf8_lead_ok pre n s) [0..<k]" "unat (x :: u32) < k"
  shows "(ucast (pre OR x) :: u8) AND 0x80 \<noteq> 0" "utf8_lead (ucast (pre OR x)) = Some (push_bit s x, n)"
  using assms by (force simp: list_all_iff utf8_lead_ok_def Let_def)+

lemma utf8_join:
  "push_bit 6 (drop_bit 6 wc) OR (wc AND 0x3f) = (wc :: u32)"
  "push_bit 12 (drop_bit 12 wc) OR push_bit 6 (drop_bit 6 wc AND 0x3f) OR (wc AND 0x3f) = (wc :: u32)"
  "push_bit 18 (drop_bit 18 wc) OR push_bit 12 (drop_bit 12 wc AND 0x3f) OR
     push_bit 6 (drop_bit 6 wc AND 0x3f) OR (wc AND 0x3f) = (wc :: u32)"
  unfolding mask6
  subgoal by (rule bit_word_eqI) (auto simp: bit_simps)
  subgoal by (rule bit_word_eqI, case_tac "n < 6"; case_tac "n < 12"; auto simp: bit_simps)
  subgoal by (rule bit_word_eqI, case_tac "n < 6"; case_tac "n < 12"; case_tac "n < 18"; auto simp: bit_simps)
  done

lemma unat_drop_bit_less: "unat wc < m * 2 ^ s \<Longrightarrow> unat (drop_bit s wc :: u32) < m"
  unfolding unat_drop_bit_eq by (simp add: drop_bit_eq_div less_mult_imp_div_less)

lemma utf8_tail_Cons:
  "0 < k \<Longrightarrow> utf8_tail k wc (b # input) =
     (if b AND 0xc0 \<noteq> 0x80 then None
      else utf8_tail (k - 1) (wc OR push_bit ((k - 1) * 6) (ucast b AND 0x3f)) input)"
  by (cases k) auto

lemma utf8_to_wchar_seq:
  assumes "(b AND 0x80 :: u8) \<noteq> 0" "utf8_lead b = Some (x, Suc (length t))"
  shows "utf8_to_wchar (b # t @ r) = utf8_tail (length t) x (t @ r)"
  using assms by (simp add: utf8_to_wchar_def)

lemma utf8_to_wchar_encode:
  assumes "wchar_to_utf8 wc n = Some bs" "wc \<le> 0x10ffff"
  shows "utf8_to_wchar (bs @ r) = Some (wc, r)" "wc \<noteq> 0 \<Longrightarrow> 0 \<notin> set bs"
proof -
  let ?t = "\<lambda>s. ucast (0x80 OR (drop_bit s wc AND 0x3f)) :: u8"
  have c: "?t s \<noteq> 0" for s
    using utf8_cont(1) [of "drop_bit s wc"] by auto
  note c0 = c [of 0, simplified]
  have lz: "b \<noteq> 0" if "b AND 0x80 \<noteq> (0::u8)" for b using that by auto
  note enc = assms(1) [unfolded wchar_to_utf8_def Let_def]
  consider "wc \<le> 0x7f" | "\<not> wc \<le> 0x7f" "wc \<le> 0x7ff" | "\<not> wc \<le> 0x7ff" "wc \<le> 0xffff"
    | "\<not> wc \<le> 0xffff" "wc \<le> 0x1fffff"
    using assms(2) by unat_arith
  then have "utf8_to_wchar (bs @ r) = Some (wc, r) \<and> (wc \<noteq> 0 \<longrightarrow> 0 \<notin> set bs)"
  proof cases
    case 1
    then have "unat wc < 2 ^ 7" by unat_arith
    note nb = word_less_bits [OF this]
    have "(ucast wc :: u8) AND 0x80 = 0"
      using nb [of 7] and_exp_eq_0_iff_not_bit [of "ucast wc :: u8" 7] by (simp add: bit_simps)
    moreover have "ucast (ucast wc :: u8) = wc"
      by (rule bit_word_eqI) (use nb in \<open>auto simp: bit_simps not_less intro: ccontr\<close>)
    moreover have "bs = [ucast wc]" using 1 enc by (simp split: if_splits)
    ultimately show ?thesis by (auto simp: utf8_to_wchar_def)
  next
    case 2
    then have "unat (drop_bit 6 wc) < 32"
      by (intro unat_drop_bit_less) (simp add: word_le_nat_alt)
    note lead = utf8_lead_encode [OF utf8_lead_all(1) this]
    have "bs = ucast (0xc0 OR drop_bit 6 wc) # [?t 0]" using 2 enc by (simp split: if_splits)
    with utf8_to_wchar_seq [of _ _ "[?t 0]" r] lead show ?thesis
      by (simp add: utf8_tail_Cons utf8_cont utf8_join or.assoc c c0 lz [OF lead(1)] lz [OF lead(1), symmetric] c [symmetric] c0 [symmetric] del: push_bit_and)
  next
    case 3
    have "unat (drop_bit 12 wc) < 16" "\<not> wc \<le> 0x7f"
      using 3 unat_drop_bit_less [of wc 16 12] by (simp_all add: word_le_nat_alt)
    note lead = utf8_lead_encode [OF utf8_lead_all(2) this(1)] and n = this(2)
    have "bs = ucast (0xe0 OR drop_bit 12 wc) # [?t 6, ?t 0]" using 3 n enc by (auto split: if_split_asm)
    with utf8_to_wchar_seq [of _ _ "[?t 6, ?t 0]" r] lead show ?thesis
      by (simp add: utf8_tail_Cons utf8_cont utf8_join or.assoc c c0 lz [OF lead(1)] lz [OF lead(1), symmetric] c [symmetric] c0 [symmetric] del: push_bit_and)
  next
    case 4
    have "unat (drop_bit 18 wc) < 8"
      using 4(2) by (intro unat_drop_bit_less) (simp add: word_le_nat_alt)
    note lead = utf8_lead_encode [OF utf8_lead_all(3) this]
    have n: "\<not> wc \<le> 0x7f" "\<not> wc \<le> 0x7ff" using 4(1) by (simp_all add: word_le_nat_alt)
    have "bs = ucast (0xf0 OR drop_bit 18 wc) # [?t 12, ?t 6, ?t 0]" using 4 n enc by (auto split: if_split_asm)
    with utf8_to_wchar_seq [of _ _ "[?t 12, ?t 6, ?t 0]" r] lead show ?thesis
      by (simp add: utf8_tail_Cons utf8_cont utf8_join or.assoc c c0 lz [OF lead(1)] lz [OF lead(1), symmetric] c [symmetric] c0 [symmetric] del: push_bit_and)
  qed
  then show "utf8_to_wchar (bs @ r) = Some (wc, r)" "wc \<noteq> 0 \<Longrightarrow> 0 \<notin> set bs" by simp_all
qed

section \<open>UTF-16\<close>

text \<open>Decoding a unit or a surrogate pair: a code point of at most U+10FFFF, whose encoding is the units
  that were read.\<close>

lemma surrogate_split:
  assumes "(a :: u16) AND 0xfc00 = c"
  shows "c OR (a AND 0x3ff) = a"
proof -
  have "(a AND 0xfc00) OR (a AND 0x3ff) = a AND mask 16"
    by (simp add: bit.conj_disj_distrib [symmetric] mask_eq_decr_exp)
  also have "a AND mask 16 = a"
    by (rule bit_word_eqI) (simp add: bit_simps)
  finally show ?thesis using assms by simp
qed

lemma mask10: "(0x3ff :: 'a::len word) = mask 10" and mask20: "(0xfffff :: u32) = mask 20"
  by (simp_all add: mask_eq_decr_exp)

lemma pair_value:
  fixes a b :: u16
  defines "v \<equiv> push_bit 10 (ucast (a AND 0x3ff)) OR ucast (b AND 0x3ff) :: u32"
  shows "v \<le> 0xfffff" "drop_bit 10 v AND 0x3ff = ucast (a AND 0x3ff)" "v AND 0x3ff = ucast (b AND 0x3ff)"
proof -
  have "v AND 0xfffff = v"
    unfolding v_def mask10 mask20 by (rule bit_word_eqI) (auto simp: bit_simps)
  then show "v \<le> 0xfffff" by (metis word_and_le1)
  show "drop_bit 10 v AND 0x3ff = ucast (a AND 0x3ff)" "v AND 0x3ff = ucast (b AND 0x3ff)"
    unfolding v_def mask10 by (rule bit_word_eqI; auto simp: bit_simps)+
qed

lemma unat_ucast_16_32 [simp]: "unat (ucast (a :: u16) :: u32) = unat a"
  using unsigned_less [of a, where ?'a = nat] by (simp add: unsigned_ucast_eq take_bit_nat_eq_self)

lemma ucast_16_32_16 [simp]: "ucast (ucast (a :: u16) :: u32) = a"
  by (rule bit_word_eqI) (simp add: bit_simps)

lemma utf16_to_wchar_units:
  assumes "utf16_to_wchar input = Some (wc, rest)" "input \<noteq> []"
  obtains us where "input = us @ rest" "us \<noteq> []" "wc \<le> 0x10ffff" "wc = 0 \<longleftrightarrow> us = [0]" "length us = (if wc \<le> 0xffff then 1 else 2)"
    "\<And>n. wchar_to_utf16 wc n = (if length us \<le> n then Some us else None)"
proof (cases "input ! 0 AND 0xfc00 = 0xd800")
  case False
  obtain a r where i: "input = a # r" using assms(2) by (cases input) auto
  with False assms(1) have "wc = ucast a" "rest = r" by (auto simp: utf16_to_wchar_def)
  moreover have "(ucast a :: u32) \<le> 0xffff" "(ucast a :: u32) \<le> 0x10ffff"
    using unsigned_less [of a, where ?'a = nat] by (simp_all add: word_le_nat_alt)
  moreover have "(ucast a :: u32) = 0 \<longleftrightarrow> a = 0"
    by (metis unat_eq_0 unat_ucast_16_32)
  ultimately show ?thesis
    using i by (intro that [of "[a]"]) (auto simp: wchar_to_utf16_def)
next
  case True
  with assms obtain a b r where i: "input = a # b # r"
    by (cases input; cases "tl input") (auto simp: utf16_to_wchar_def split: if_splits)
  with True assms(1) have b: "b AND 0xfc00 = 0xdc00" and "rest = r"
    and wc: "wc = (push_bit 10 (ucast (a AND 0x3ff)) OR ucast (b AND 0x3ff)) + 0x10000"
    by (auto simp: utf16_to_wchar_def Let_def split: if_splits)
  define v :: u32 where "v = push_bit 10 (ucast (a AND 0x3ff)) OR ucast (b AND 0x3ff)"
  note v = pair_value [of a b, folded v_def]
  have w: "wc = v + 0x10000" using wc by (simp add: v_def)
  have "unat wc = unat v + 0x10000"
    using v(1) by (simp add: w unat_word_ariths word_le_nat_alt)
  then have wb: "wc \<le> 0x10ffff" "\<not> wc \<le> 0xffff" "wc \<noteq> 0"
    using v(1) by (auto simp: word_le_nat_alt)
  have "wchar_to_utf16 wc n = (if 2 \<le> n then Some [a, b] else None)" for n
    using wb(2) surrogate_split [OF b] surrogate_split [of a] True i
    by (simp add: wchar_to_utf16_def w v unsigned_or_eq)
  with wb show ?thesis
    using i \<open>rest = r\<close> by (intro that [of "[a, b]"]) auto
qed

section \<open>Round trip and output size\<close>

lemma wchar_to_utf8_length:
  assumes "wchar_to_utf8 wc n = Some bs" "wc \<le> 0x10ffff"
  shows "length bs \<le> n" "bs \<noteq> []" "length bs \<le> (if wc \<le> 0xffff then 3 else 4)"
proof -
  have w: "wc \<le> 0x1fffff" using assms(2) by (simp add: word_le_nat_alt)
  with assms(1) show "length bs \<le> n" "bs \<noteq> []" "length bs \<le> (if wc \<le> 0xffff then 3 else 4)"
    by (auto simp: wchar_to_utf8_def Let_def split: if_splits)
qed

lemma wchar_to_utf8_room:
  assumes "(if wc \<le> 0xffff then 3 else 4) \<le> n" "wc \<le> 0x10ffff"
  shows "wchar_to_utf8 wc n \<noteq> None"
proof -
  have "wc \<le> 0x1fffff" using assms(2) by (simp add: word_le_nat_alt)
  with assms(1) show ?thesis by (auto simp: wchar_to_utf8_def Let_def split: if_splits)
qed

lemma utf_roundtrip_loop:
  assumes "utf16_to_utf8_loop input n = Inr bytes" "0 \<notin> set input" "length input < m"
  shows "\<exists>s. bytes = s @ [0] \<and> 0 \<notin> set s \<and> length s < n \<and> utf8_to_utf16_loop s m = Inr (input @ [0])"
  using assms
proof (induction input n arbitrary: m bytes rule: utf16_to_utf8_loop.induct)
  case (1 input n)
  show ?case
  proof (cases "input = []")
    case True
    with "1.prems" show ?thesis
      by (auto simp: utf16_to_utf8_loop.simps [of _ n] utf8_to_utf16_loop.simps [of "[]"] split: if_splits)
  next
    case False
    with "1.prems"(1) obtain wc rest bs where
      d: "utf16_to_wchar input = Some (wc, rest)" and e: "wchar_to_utf8 wc n = Some bs"
      by (auto simp: utf16_to_utf8_loop.simps [of _ n] split: option.splits)
    obtain us where us: "input = us @ rest" "us \<noteq> []" "wc \<le> 0x10ffff" "wc = 0 \<longleftrightarrow> us = [0]"
        "\<And>n. wchar_to_utf16 wc n = (if length us \<le> n then Some us else None)"
      using utf16_to_wchar_units [OF d False] by blast
    have wc: "wc \<noteq> 0" using us "1.prems"(2) by auto
    with "1.prems"(1) False d e obtain out where
      out: "utf16_to_utf8_loop rest (n - length bs) = Inr out" "bytes = bs @ out"
      by (cases "utf16_to_utf8_loop rest (n - length bs)") (auto simp: utf16_to_utf8_loop.simps [of input n])
    have "length rest < m - length us" using us(1,2) "1.prems"(3) by auto
    with "1.IH" [OF False d refl e wc out(1)] us(1) "1.prems"(2) obtain s where
      s: "out = s @ [0]" "0 \<notin> set s" "length s < n - length bs" 
        "utf8_to_utf16_loop s (m - length us) = Inr (rest @ [0])" by auto
    note l = wchar_to_utf8_length [OF e us(3)]
    have "utf8_to_utf16_loop (bs @ s) m = Inr (input @ [0])"
      using l(2) utf8_to_wchar_encode(1) [OF e us(3), of s] us(1,5) wc s(4) "1.prems"(3)
      by (simp add: utf8_to_utf16_loop.simps [of "bs @ s"])
    with s l utf8_to_wchar_encode(2) [OF e us(3) wc] out(2) show ?thesis
      by (intro exI [of _ "bs @ s"]) auto
  qed
qed

section \<open>Legal names\<close>

text \<open>A name is legal when, up to its terminator, every high surrogate is followed by a low one (\<^verbatim>\<open>utf16_to_wchar\<close>
  lets a low surrogate stand alone).\<close>

fun utf16_legal :: "u16 list \<Rightarrow> bool" where
  "utf16_legal [] = True"
| "utf16_legal [a] = (a AND 0xfc00 \<noteq> 0xd800)"
| "utf16_legal (a # b # r) =
     (a = 0 \<or> (if a AND 0xfc00 = 0xd800 then b AND 0xfc00 = 0xdc00 \<and> utf16_legal r else utf16_legal (b # r)))"

lemma utf16_legal_wchar:
  assumes "input \<noteq> []"
  shows "utf16_legal input \<longleftrightarrow>
    (case utf16_to_wchar input of None \<Rightarrow> False | Some (wc, rest) \<Rightarrow> wc = 0 \<or> utf16_legal rest)"
proof -
  obtain a r where i: "input = a # r" using assms by (cases input) auto
  have z: "(ucast a :: u32) = 0 \<longleftrightarrow> a = 0" by (metis unat_eq_0 unat_ucast_16_32)
  show ?thesis
  proof (cases r)
    case Nil
    then show ?thesis by (simp add: i utf16_to_wchar_def)
  next
    case (Cons b q)
    show ?thesis
    proof (cases "a AND 0xfc00 = 0xd800 \<and> b AND 0xfc00 = 0xdc00")
      case True
      then have d: "utf16_to_wchar input = Some
          ((push_bit 10 (ucast (a AND 0x3ff)) OR ucast (b AND 0x3ff)) + 0x10000, q)" (is "_ = Some (?wc, q)")
        by (simp add: i Cons utf16_to_wchar_def)
      then obtain us where "input = us @ q" "?wc = 0 \<longleftrightarrow> us = [0]"
        using utf16_to_wchar_units [OF d assms] by blast
      then have "?wc \<noteq> 0" using i Cons by auto
      moreover have "a \<noteq> 0" using True by auto
      ultimately show ?thesis using True d by (simp add: i Cons)
    next
      case False
      then show ?thesis using z by (auto simp: i Cons utf16_to_wchar_def)
    qed
  qed
qed

lemma utf16_to_utf8_legal:
  assumes "3 * length input < n"
  shows "(\<exists>s. utf16_to_utf8_loop input n = Inr s) \<longleftrightarrow> utf16_legal input"
  using assms
proof (induction input n rule: utf16_to_utf8_loop.induct)
  case (1 input n)
  show ?case
  proof (cases "input = [] \<or> utf16_to_wchar input = None")
    case True
    then show ?thesis
      using "1.prems" utf16_legal_wchar [of input] by (auto simp: utf16_to_utf8_loop.simps [of input n])
  next
    case False
    then obtain wc rest where d: "utf16_to_wchar input = Some (wc, rest)" and ne: "input \<noteq> []" by auto
    obtain us where us: "input = us @ rest" "us \<noteq> []" "wc \<le> 0x10ffff" "length us = (if wc \<le> 0xffff then 1 else 2)"
      using utf16_to_wchar_units [OF d ne] by blast
    have "(if wc \<le> 0xffff then 3 else 4) \<le> n" using us "1.prems" by (auto split: if_splits)
    then obtain bs where e: "wchar_to_utf8 wc n = Some bs"
      using wchar_to_utf8_room us(3) by blast
    note l = wchar_to_utf8_length [OF e us(3)]
    have r: "3 * length rest < n - length bs" using us "1.prems" l(3) by (auto split: if_splits)
    show ?thesis
    proof (cases "wc = 0")
      case True
      then show ?thesis
        using ne d e utf16_legal_wchar [OF ne] by (simp add: utf16_to_utf8_loop.simps [of input n])
    next
      case False
      then show ?thesis
        using "1.IH" [OF ne d refl e False r] ne d e utf16_legal_wchar [OF ne]
        by (cases "utf16_to_utf8_loop rest (n - length bs)") (auto simp: utf16_to_utf8_loop.simps [of input n])
    qed
  qed
qed

text \<open>C33. File names survive the two conversions: when \<^verbatim>\<open>exfat_utf16_to_utf8\<close> accepts a name without a
  terminator inside, its output is a NUL-terminated string without a NUL inside, and
  \<^verbatim>\<open>exfat_utf8_to_utf16\<close> of that string gives the name back, with its terminator, whenever the output
  buffer holds one unit more than the name.\<close>

theorem utf_name_roundtrip:
  assumes "exfat_utf16_to_utf8 input n = Inr bytes" "0 \<notin> set input" "length input < m"
  shows "\<exists>s. bytes = s @ [0] \<and> 0 \<notin> set s \<and> length s < n \<and> exfat_utf8_to_utf16 s m = Inr (input @ [0])"
  using utf_roundtrip_loop [OF assms [unfolded exfat_utf16_to_utf8_def]]
  by (simp add: exfat_utf8_to_utf16_def)

theorem utf_name_roundtrip_witness:
  "\<exists>s. [0x61, 0xc3, 0xa9, 0xe2, 0x82, 0xac, 0xf0, 0x9f, 0x98, 0x80, 0] = s @ [0] \<and> 0 \<notin> set s \<and> length s < 16 \<and>
     exfat_utf8_to_utf16 s 6 = Inr ([0x61, 0xe9, 0x20ac, 0xd83d, 0xde00] @ [0])"
  by (rule utf_name_roundtrip) (simp_all add: exfat_utf16_to_utf8_def utf16_to_utf8_loop.simps
      utf16_to_wchar_def wchar_to_utf8_def)

text \<open>Sequences that UTF-8 rules out are accepted in the other direction: \<^verbatim>\<open>C0 AF\<close> is an overlong slash, and
  the code points above U+10FFFF that the five- and six-byte forms reach are cut down to a surrogate
  pair of another character.\<close>

theorem utf8_overlong_accepted:
  "exfat_utf8_to_utf16 [0xc0, 0xaf] n = (if 2 \<le> n then Inr [0x2f, 0] else Inl ENAMETOOLONG)"
  "exfat_utf8_to_utf16 [0xf4, 0x90, 0x80, 0x80] 3 = exfat_utf8_to_utf16 [0xf0, 0x90, 0x80, 0x80] 3"
  by (simp_all add: exfat_utf8_to_utf16_def utf8_to_utf16_loop.simps utf8_to_wchar_def utf8_lead_def
      utf8_tail_Cons wchar_to_utf16_def)

end
