(* ===== verification/ExfatUtils.thy ===== *)
theory ExfatUtils
  imports ExfatDev Utf
begin

text \<open>\<^verbatim>\<open>exfat/utils.c\<close>: the name of a node as UTF-8, the checksums of directory entries and of the boot region, the
  hash of a name, the attributes reported for a node and the search for a mount option.\<close>

section \<open>The code\<close>

record stat_buf =
  st_mode :: int
  st_nlink :: nat
  st_uid :: int
  st_gid :: int
  st_size :: u64
  st_blocks :: nat
  st_mtime :: int
  st_atime :: int
  st_ctime :: int

definition exfat_stat :: "exfat \<Rightarrow> exfat_node \<Rightarrow> stat_buf" where
  "exfat_stat ef node =
     \<lparr>st_mode = (if is_dir node then 0x4000 OR (0x1ff AND NOT (dmask ef)) else 0x8000 OR (0x1ff AND NOT (fmask ef))),
      st_nlink = 1, st_uid = uid ef, st_gid = gid ef, st_size = node_size node,
      st_blocks = ROUND_UP (unat (node_size node)) (CLUSTER_SIZE (sb ef)) div 512,
      st_mtime = mtime node, st_atime = atime node, st_ctime = mtime node\<rparr>"

text \<open>\<^verbatim>\<open>exfat_get_name\<close>: the buffer, \<open>None\<close> where the code calls \<^verbatim>\<open>exfat_bug\<close>.\<close>

definition exfat_get_name :: "exfat_node \<Rightarrow> bytes option" where
  "exfat_get_name node =
     (case exfat_utf16_to_utf8 (take EXFAT_NAME_MAX (node_name node)) EXFAT_UTF8_NAME_BUFFER_MAX of
        Inl _ \<Rightarrow> None
      | Inr buffer \<Rightarrow> Some buffer)"

definition add_checksum_byte :: "u16 \<Rightarrow> u8 \<Rightarrow> u16" where
  "add_checksum_byte csum byte = (push_bit 15 csum OR drop_bit 1 csum) + ucast byte"

definition add_checksum_bytes :: "u16 \<Rightarrow> bytes \<Rightarrow> u16" where
  "add_checksum_bytes csum buffer = foldl add_checksum_byte csum buffer"

definition exfat_start_checksum :: "bytes \<Rightarrow> u16" where
  "exfat_start_checksum entry =
     foldl (\<lambda>csum i. if i \<noteq> 2 \<and> i \<noteq> 3 then add_checksum_byte csum (entry ! i) else csum) 0 [0..<32]"

definition exfat_add_checksum :: "bytes \<Rightarrow> u16 \<Rightarrow> u16" where
  "exfat_add_checksum entry csum = add_checksum_bytes csum entry"

definition exfat_calc_checksum :: "bytes list \<Rightarrow> u16" where
  "exfat_calc_checksum entries =
     foldl (\<lambda>csum entry. exfat_add_checksum entry csum) (exfat_start_checksum (hd entries)) (tl entries)"

definition vbr_add :: "u32 \<Rightarrow> u8 \<Rightarrow> u32" where
  "vbr_add csum byte = (push_bit 31 csum OR drop_bit 1 csum) + ucast byte"

definition exfat_vbr_start_checksum :: "bytes \<Rightarrow> u32" where
  "exfat_vbr_start_checksum sector =
     foldl (\<lambda>csum i. if i \<noteq> 0x6a \<and> i \<noteq> 0x6b \<and> i \<noteq> 0x70 then vbr_add csum (sector ! i) else csum)
       0 [0..<length sector]"

definition exfat_vbr_add_checksum :: "bytes \<Rightarrow> u32 \<Rightarrow> u32" where
  "exfat_vbr_add_checksum sector csum = foldl vbr_add csum sector"

definition exfat_calc_name_hash :: "exfat \<Rightarrow> u16 list \<Rightarrow> nat \<Rightarrow> u16" where
  "exfat_calc_name_hash ef name n =
     foldl (\<lambda>hash i.
         let c = upcase ef ! unat (name ! i);
             hash = (push_bit 15 hash OR drop_bit 1 hash) + (c AND 0xff)
         in (push_bit 15 hash OR drop_bit 1 hash) + drop_bit 8 c)
       0 [0..<n]"

text \<open>\<^verbatim>\<open>strstr\<close> as the positions where the option name occurs, and \<^verbatim>\<open>exfat_match_option\<close>: an occurrence
  counts when it stands between commas or at the ends.\<close>

definition occurs_at :: "string \<Rightarrow> string \<Rightarrow> nat \<Rightarrow> bool" where
  "occurs_at s t p \<longleftrightarrow> take (length t) (drop p s) = t"

definition exfat_match_option :: "string \<Rightarrow> string \<Rightarrow> bool" where
  "exfat_match_option options option_name =
     list_ex (\<lambda>p. occurs_at options option_name p \<and> (p = 0 \<or> options ! (p - 1) = CHR 0x2C) \<and>
         (p + length option_name = length options \<or> options ! (p + length option_name) = CHR 0x2C))
       [0..<length options]"

section \<open>Names\<close>

lemma length_take_name [simp]: "3 * length (take EXFAT_NAME_MAX (node_name node)) < EXFAT_UTF8_NAME_BUFFER_MAX"
  by (simp add: min_def)

text \<open>C35. The name buffer of 766 bytes is always large enough: \<^verbatim>\<open>exfat_get_name\<close> ends in \<^verbatim>\<open>abort()\<close> exactly when
  the name, up to its terminator, holds a high surrogate that no low surrogate follows. Such a name on
  a disk is not rejected when the directory is read.\<close>

theorem exfat_get_name_aborts_iff:
  "exfat_get_name node = None \<longleftrightarrow> \<not> utf16_legal (take EXFAT_NAME_MAX (node_name node))"
  using utf16_to_utf8_legal [OF length_take_name, of node]
  by (auto simp: exfat_get_name_def exfat_utf16_to_utf8_def split: sum.splits)

section \<open>Checksums\<close>

lemma rot15: "push_bit 15 s OR drop_bit 1 s = word_rotr 1 (s :: u16)"
proof (rule bit_word_eqI)
  fix n assume "n < LENGTH(16)"
  then consider "n < 15" | "n = 15" by fastforce
  then show "bit (push_bit 15 s OR drop_bit 1 s) n = bit (word_rotr 1 s) n"
    using bit_imp_le_length [of s 16] by cases (auto simp: bit_simps)
qed

lemma word_rotr_inj: "word_rotr k s = word_rotr k s' \<longleftrightarrow> s = s'"
  by (metis word_rot_gal)

lemma add_checksum_byte_inj:
  "add_checksum_byte s b = add_checksum_byte s' b \<longleftrightarrow> s = s'"
  "add_checksum_byte s b = add_checksum_byte s b' \<longleftrightarrow> b = b'"
proof -
  show "add_checksum_byte s b = add_checksum_byte s' b \<longleftrightarrow> s = s'"
    unfolding add_checksum_byte_def rot15 by (simp add: word_rotr_inj)
  have "ucast (ucast c :: u16) = c" for c :: u8
    by (rule bit_word_eqI) (simp add: bit_simps)
  then have "ucast b = (ucast b' :: u16) \<longleftrightarrow> b = b'" by metis
  then show "add_checksum_byte s b = add_checksum_byte s b' \<longleftrightarrow> b = b'"
    by (simp add: add_checksum_byte_def)
qed

lemma foldl_checksum_inj: "foldl add_checksum_byte s bs = foldl add_checksum_byte s' bs \<longleftrightarrow> s = s'"
  by (induction bs arbitrary: s s') (simp_all add: add_checksum_byte_inj)

lemma foldl_checksum_one_byte:
  assumes "i < length bs" "b \<noteq> bs ! i"
  shows "foldl add_checksum_byte s (bs[i := b]) \<noteq> foldl add_checksum_byte s bs"
proof -
  let ?s = "foldl add_checksum_byte s (take i bs)"
  have "foldl add_checksum_byte s (bs[i := b]) = foldl add_checksum_byte (add_checksum_byte ?s b) (drop (Suc i) bs)"
    unfolding upd_conv_take_nth_drop [OF assms(1)] by simp
  moreover have "foldl add_checksum_byte s bs = foldl add_checksum_byte (add_checksum_byte ?s (bs ! i)) (drop (Suc i) bs)"
    by (subst id_take_nth_drop [OF assms(1)]) simp
  ultimately show ?thesis using assms(2) by (simp add: foldl_checksum_inj add_checksum_byte_inj(2))
qed

text \<open>The checksum of an entry set as one pass over its bytes without the two of the checksum field.\<close>

definition entry_bytes :: "bytes list \<Rightarrow> bytes" where
  "entry_bytes entries = take 2 (hd entries) @ drop 4 (hd entries) @ concat (tl entries)"

lemma exfat_start_checksum_fold:
  assumes "length e = 32"
  shows "exfat_start_checksum e = foldl add_checksum_byte 0 (take 2 e @ drop 4 e)"
proof -
  have d: "drop 4 e = map ((!) e) [4..<32]"
    using assms by (intro nth_equalityI) (simp_all del: upt_rec_numeral)
  have t: "take 2 e = [e ! 0, e ! 1]"
    using assms by (intro nth_equalityI) (auto simp: less_Suc_eq numeral_2_eq_2)
  have u: "[0..<32] = [0, 1, 2, 3] @ [4..<32]"
    using upt_add_eq_append [of 0 4 28] by (simp add: upt_rec [of _ 4] del: upt_rec_numeral)
  have "foldl (\<lambda>csum i. if i \<noteq> 2 \<and> i \<noteq> 3 then add_checksum_byte csum (e ! i) else csum) s [4..<32]
      = foldl add_checksum_byte s (map ((!) e) [4..<32])" for s
    unfolding foldl_map by (rule foldl_cong) auto
  then show ?thesis
    unfolding exfat_start_checksum_def u d t by (simp del: upt_rec_numeral)
qed

lemma exfat_calc_checksum_fold:
  assumes "entries \<noteq> []" "length (hd entries) = 32"
  shows "exfat_calc_checksum entries = foldl add_checksum_byte 0 (entry_bytes entries)"
proof -
  have "foldl (\<lambda>csum entry. exfat_add_checksum entry csum) s es = foldl add_checksum_byte s (concat es)" for s es
    by (induction es arbitrary: s) (simp_all add: exfat_add_checksum_def add_checksum_bytes_def)
  then show ?thesis
    by (simp add: exfat_calc_checksum_def exfat_start_checksum_fold [OF assms(2)] entry_bytes_def)
qed

text \<open>C36. The checksum of a directory entry set notices every change of a single byte: two entry sets of the
  same shape whose checked bytes (all but the two of the checksum field itself) differ in exactly one
  place have different checksums.\<close>

theorem exfat_calc_checksum_detects:
  assumes "entries \<noteq> []" "entries' \<noteq> []" "length (hd entries) = 32" "length (hd entries') = 32"
    and "i < length (entry_bytes entries)" "b \<noteq> entry_bytes entries ! i"
    and "entry_bytes entries' = (entry_bytes entries)[i := b]"
  shows "exfat_calc_checksum entries' \<noteq> exfat_calc_checksum entries"
  unfolding exfat_calc_checksum_fold [OF assms(1,3)] exfat_calc_checksum_fold [OF assms(2,4)] assms(7)
  by (rule foldl_checksum_one_byte [OF assms(5,6)])

theorem exfat_calc_checksum_detects_witness:
  "exfat_calc_checksum [replicate 32 0, replicate 31 0 @ [1]] \<noteq> exfat_calc_checksum [replicate 32 0, replicate 32 0]"
  by (rule exfat_calc_checksum_detects [where i = 61 and b = 1])
    (simp, simp, simp, simp, code_simp+)

end
