(* ===== verification/ExfatCluster.thy ===== *)
theory ExfatCluster
  imports ExfatDev
begin

text \<open>
  \<^verbatim>\<open>exfat/cluster.c\<close>: the cluster allocator, the chains of clusters of a file in the file allocation table,
  growing, shrinking and erasing. The functions that change a node or the volume return it; a result of
  \<open>None\<close> is a call of \<^verbatim>\<open>exfat_bug\<close> (or, for the loop of \<^verbatim>\<open>erase_range\<close>, a loop that does not end).
\<close>

section \<open>Sectors, clusters and offsets\<close>

definition s2o :: "exfat \<Rightarrow> nat \<Rightarrow> nat" where
  "s2o ef sector = sector * 2 ^ sector_bits (sb ef)"

definition c2s :: "exfat \<Rightarrow> cluster_t \<Rightarrow> nat option" where
  "c2s ef cluster =
     (if cluster < EXFAT_FIRST_DATA_CLUSTER then None
      else Some (unat (cluster_sector_start (sb ef)) +
                 unat (cluster - EXFAT_FIRST_DATA_CLUSTER) * 2 ^ spc_bits (sb ef)))"

definition exfat_c2o :: "exfat \<Rightarrow> cluster_t \<Rightarrow> nat option" where
  "exfat_c2o ef cluster = map_option (s2o ef) (c2s ef cluster)"

definition s2c :: "exfat \<Rightarrow> nat \<Rightarrow> cluster_t" where
  "s2c ef sector =
     word_of_int (drop_bit (spc_bits (sb ef)) (int sector - uint (cluster_sector_start (sb ef)))) +
     EXFAT_FIRST_DATA_CLUSTER"

definition cluster_size64 :: "exfat \<Rightarrow> u64" where
  "cluster_size64 ef = word_of_nat (CLUSTER_SIZE (sb ef))"

definition bytes2clusters :: "exfat \<Rightarrow> u64 \<Rightarrow> u32" where
  "bytes2clusters ef bytes =
     (let cluster_size = cluster_size64 ef in ucast ((bytes + cluster_size - 1) div cluster_size))"

section \<open>Chains\<close>

definition fat_offset :: "exfat \<Rightarrow> cluster_t \<Rightarrow> nat" where
  "fat_offset ef cluster = s2o ef (unat (fat_sector_start (sb ef))) + unat cluster * 4"

definition exfat_next_cluster :: "exfat \<Rightarrow> exfat_node \<Rightarrow> cluster_t \<Rightarrow> cluster_t option" where
  "exfat_next_cluster ef node cluster =
     (if cluster < EXFAT_FIRST_DATA_CLUSTER then None
      else if is_contiguous node then Some (cluster + 1)
      else
        case exfat_pread (dev ef) 4 (fat_offset ef cluster) of
          None \<Rightarrow> Some EXFAT_CLUSTER_BAD
        | Some next \<Rightarrow> Some (get_unaligned_le32 next))"

text \<open>The loop of \<^verbatim>\<open>exfat_advance_cluster\<close> with \<open>k\<close> steps left.\<close>

fun advance_loop :: "exfat \<Rightarrow> nat \<Rightarrow> exfat_node \<Rightarrow> exfat_node option" where
  "advance_loop ef 0 node = Some node"
| "advance_loop ef (Suc k) node =
     do {
       cluster \<leftarrow> exfat_next_cluster ef node (fptr_cluster node);
       let node = node\<lparr>fptr_cluster := cluster\<rparr>;
       if CLUSTER_INVALID (sb ef) cluster then Some node else advance_loop ef k node
     }"

definition exfat_advance_cluster :: "exfat \<Rightarrow> exfat_node \<Rightarrow> u32 \<Rightarrow> (cluster_t \<times> exfat_node) option" where
  "exfat_advance_cluster ef node count =
     do {
       let node = (if fptr_index node > count
                   then node\<lparr>fptr_index := 0, fptr_cluster := start_cluster node\<rparr> else node);
       node \<leftarrow> advance_loop ef (unat count - unat (fptr_index node)) node;
       Some (fptr_cluster node, node\<lparr>fptr_index := count\<rparr>)
     }"

section \<open>The allocator\<close>

function find_clear :: "bitmap \<Rightarrow> nat \<Rightarrow> nat \<Rightarrow> nat option" where
  "find_clear bmap c end_bitindex =
     (if c < end_bitindex
      then if BMAP_GET bmap c = 0 then Some c else find_clear bmap (Suc c) end_bitindex
      else None)"
  by pat_completeness auto
termination
  by (relation "measure (\<lambda>(bmap, c, e). e - c)") auto

function find_block :: "bitmap \<Rightarrow> nat \<Rightarrow> nat \<Rightarrow> nat \<Rightarrow> nat \<Rightarrow> nat option" where
  "find_block bmap start stop i end_index =
     (if i < end_index
      then
        if bmap ! i = NOT 0 then find_block bmap start stop (Suc i) end_index
        else
          case find_clear bmap (max (i * 8 * 8) start) (min ((i + 1) * 8 * 8) stop) of
            Some c \<Rightarrow> Some c
          | None \<Rightarrow> find_block bmap start stop (Suc i) end_index
      else None)"
  by pat_completeness auto
termination
  by (relation "measure (\<lambda>(bmap, s, e, i, n). n - i)") auto

definition find_bit_and_set :: "bitmap \<Rightarrow> nat \<Rightarrow> nat \<Rightarrow> bitmap \<times> cluster_t" where
  "find_bit_and_set bmap start stop =
     (let start_index = start div 8 div 8;
          end_index = DIV_ROUND_UP stop (8 * 8)
      in case find_block bmap start stop start_index end_index of
           Some c \<Rightarrow> (BMAP_SET bmap c, word_of_nat c + EXFAT_FIRST_DATA_CLUSTER)
         | None \<Rightarrow> (bmap, EXFAT_CLUSTER_END))"

definition chunk_bytes :: "exfat \<Rightarrow> bytes" where
  "chunk_bytes ef = take (BMAP_SIZE (unat (chunk_size ef))) (concat (map put_unaligned_le64 (chunk ef)))"

definition exfat_flush :: "exfat \<Rightarrow> (int \<times> exfat) option" where
  "exfat_flush ef =
     (if cmap_dirty ef then
        do {
          offset \<leftarrow> exfat_c2o ef (cmap_start_cluster ef);
          let (d, ok) = exfat_pwrite (dev ef) (chunk_bytes ef) offset;
          let ef = ef\<lparr>dev := d\<rparr>;
          if \<not> ok then Some (- EIO, ef) else Some (0, ef\<lparr>cmap_dirty := False\<rparr>)
        }
      else Some (0, ef))"

definition set_next_cluster :: "exfat \<Rightarrow> bool \<Rightarrow> cluster_t \<Rightarrow> cluster_t \<Rightarrow> exfat \<times> bool" where
  "set_next_cluster ef contiguous current nxt =
     (if contiguous then (ef, True)
      else
        let (d, ok) = exfat_pwrite (dev ef) (put_unaligned_le32 nxt) (fat_offset ef current)
        in (ef\<lparr>dev := d\<rparr>, ok))"

definition allocate_cluster :: "exfat \<Rightarrow> cluster_t \<Rightarrow> exfat \<times> cluster_t" where
  "allocate_cluster ef hint =
     (let hint = hint - EXFAT_FIRST_DATA_CLUSTER;
          hint = (if hint \<ge> chunk_size ef then 0 else hint);
          (chunk1, cluster) = find_bit_and_set (chunk ef) (unat hint) (unat (chunk_size ef));
          (chunk1, cluster) = (if cluster = EXFAT_CLUSTER_END then find_bit_and_set chunk1 0 (unat hint)
                               else (chunk1, cluster))
      in if cluster = EXFAT_CLUSTER_END then (ef\<lparr>chunk := chunk1\<rparr>, EXFAT_CLUSTER_END)
         else (ef\<lparr>chunk := chunk1, cmap_dirty := True\<rparr>, cluster))"

definition free_cluster :: "exfat \<Rightarrow> cluster_t \<Rightarrow> exfat option" where
  "free_cluster ef cluster =
     (if cluster - EXFAT_FIRST_DATA_CLUSTER \<ge> cmap_size ef then None
      else Some (ef\<lparr>chunk := BMAP_CLR (chunk ef) (unat (cluster - EXFAT_FIRST_DATA_CLUSTER)), cmap_dirty := True\<rparr>))"

text \<open>The loop of \<^verbatim>\<open>make_noncontiguous\<close> from \<open>c\<close> with \<open>k\<close> clusters left.\<close>

fun noncontiguous_loop :: "exfat \<Rightarrow> cluster_t \<Rightarrow> nat \<Rightarrow> exfat \<times> bool" where
  "noncontiguous_loop ef c 0 = (ef, True)"
| "noncontiguous_loop ef c (Suc k) =
     (let (ef, ok) = set_next_cluster ef False c (c + 1)
      in if \<not> ok then (ef, False) else noncontiguous_loop ef (c + 1) k)"

definition make_noncontiguous :: "exfat \<Rightarrow> cluster_t \<Rightarrow> cluster_t \<Rightarrow> exfat \<times> bool" where
  "make_noncontiguous ef first lst = noncontiguous_loop ef first (unat lst - unat first)"

section \<open>Shrinking and growing\<close>

text \<open>The loop of \<^verbatim>\<open>shrink_file\<close> that frees the remaining clusters.\<close>

fun shrink_loop :: "exfat \<Rightarrow> exfat_node \<Rightarrow> cluster_t \<Rightarrow> nat \<Rightarrow> (int \<times> exfat) option" where
  "shrink_loop ef node previous 0 = Some (0, ef)"
| "shrink_loop ef node previous (Suc difference) =
     (if CLUSTER_INVALID (sb ef) previous then Some (- EIO, ef)
      else
        do {
          nxt \<leftarrow> exfat_next_cluster ef node previous;
          let (ef, ok) = set_next_cluster ef (is_contiguous node) previous EXFAT_CLUSTER_FREE;
          if \<not> ok then Some (- EIO, ef)
          else do {
            ef \<leftarrow> free_cluster ef previous;
            shrink_loop ef node nxt difference
          }
        })"

definition shrink_file :: "exfat \<Rightarrow> exfat_node \<Rightarrow> u32 \<Rightarrow> u32 \<Rightarrow> (int \<times> exfat \<times> exfat_node) option" where
  "shrink_file ef node current difference =
     (if difference = 0 \<or> start_cluster node = EXFAT_CLUSTER_FREE \<or> current < difference then None
      else
        do {
          (rc, ef, node, previous) \<leftarrow>
            (if current > difference then
               do {
                 (lst, node) \<leftarrow> exfat_advance_cluster ef node (current - difference - 1);
                 if CLUSTER_INVALID (sb ef) lst then Some (- EIO, ef, node, lst)
                 else do {
                   previous \<leftarrow> exfat_next_cluster ef node lst;
                   let (ef, ok) = set_next_cluster ef (is_contiguous node) lst EXFAT_CLUSTER_END;
                   Some (if ok then 0 else - EIO, ef, node, previous)
                 }
               }
             else Some (0, ef, node\<lparr>start_cluster := EXFAT_CLUSTER_FREE, is_dirty := True\<rparr>, start_cluster node));
          if rc \<noteq> 0 then Some (rc, ef, node)
          else do {
            let node = node\<lparr>fptr_index := 0, fptr_cluster := start_cluster node\<rparr>;
            (rc, ef) \<leftarrow> shrink_loop ef node previous (unat difference);
            Some (rc, ef, node)
          }
        })"

text \<open>The loop of \<^verbatim>\<open>grow_file\<close> with \<open>k = difference - allocated\<close> clusters left to allocate; on success it also
  returns the last cluster.\<close>

fun grow_loop :: "exfat \<Rightarrow> exfat_node \<Rightarrow> u32 \<Rightarrow> u32 \<Rightarrow> cluster_t \<Rightarrow> nat \<Rightarrow>
    (int \<times> exfat \<times> exfat_node \<times> cluster_t) option" where
  "grow_loop ef node current allocated previous 0 = Some (0, ef, node, previous)"
| "grow_loop ef node current allocated previous (Suc k) =
     (let (ef, nxt) = allocate_cluster ef (previous + 1)
      in if CLUSTER_INVALID (sb ef) nxt then
           if allocated \<noteq> 0 then
             do {
               (rc, ef, node) \<leftarrow> shrink_file ef node (current + allocated) allocated;
               Some (- ENOSPC, ef, node, previous)
             }
           else Some (- ENOSPC, ef, node, previous)
         else
           let (ef, node, ok) =
             (if nxt \<noteq> previous + 1 \<and> is_contiguous node then
                let (ef, ok) = make_noncontiguous ef (start_cluster node) previous
                in if ok then (ef, node\<lparr>is_contiguous := False, is_dirty := True\<rparr>, True) else (ef, node, False)
              else (ef, node, True))
           in if \<not> ok then Some (- EIO, ef, node, previous)
              else
                let (ef, ok) = set_next_cluster ef (is_contiguous node) previous nxt
                in if \<not> ok then Some (- EIO, ef, node, previous)
                   else grow_loop ef node current (allocated + 1) nxt k)"

definition grow_file :: "exfat \<Rightarrow> exfat_node \<Rightarrow> u32 \<Rightarrow> u32 \<Rightarrow> (int \<times> exfat \<times> exfat_node) option" where
  "grow_file ef node current difference =
     (if difference = 0 then None
      else
        do {
          (rc, ef, node, previous, allocated) \<leftarrow>
            (if start_cluster node \<noteq> EXFAT_CLUSTER_FREE then
               do {
                 (previous, node) \<leftarrow> exfat_advance_cluster ef node (current - 1);
                 Some (if CLUSTER_INVALID (sb ef) previous then - EIO else 0, ef, node, previous, 0)
               }
             else if fptr_index node \<noteq> 0 then None
             else
               let (ef, previous) = allocate_cluster ef 0
               in if CLUSTER_INVALID (sb ef) previous then Some (- ENOSPC, ef, node, previous, 0)
                  else Some (0, ef, node\<lparr>fptr_cluster := previous, start_cluster := previous, is_contiguous := True\<rparr>,
                         previous, 1));
          if rc \<noteq> 0 then Some (rc, ef, node)
          else do {
            (rc, ef, node, previous) \<leftarrow>
              grow_loop ef node current allocated previous (unat difference - unat allocated);
            if rc \<noteq> 0 then Some (rc, ef, node)
            else
              let (ef, ok) = set_next_cluster ef (is_contiguous node) previous EXFAT_CLUSTER_END
              in Some (if ok then 0 else - EIO, ef, node)
          }
        })"

section \<open>Erasing and truncating\<close>

definition erase_raw :: "exfat \<Rightarrow> nat \<Rightarrow> nat \<Rightarrow> exfat \<times> bool" where
  "erase_raw ef sz offset =
     (let (d, ok) = exfat_pwrite (dev ef) (take sz (zero_cluster ef)) offset in (ef\<lparr>dev := d\<rparr>, ok))"

partial_function (option) erase_loop ::
  "exfat \<Rightarrow> exfat_node \<Rightarrow> cluster_t \<Rightarrow> u64 \<Rightarrow> u64 \<Rightarrow> (int \<times> exfat) option" where
  "erase_loop ef node cluster cluster_boundary fin =
     (if cluster_boundary < fin then
        do {
          cluster \<leftarrow> exfat_next_cluster ef node cluster;
          if CLUSTER_INVALID (sb ef) cluster then None
          else do {
            offset \<leftarrow> exfat_c2o ef cluster;
            let (ef, ok) = erase_raw ef (CLUSTER_SIZE (sb ef)) offset;
            if \<not> ok then Some (- EIO, ef)
            else erase_loop ef node cluster (cluster_boundary + cluster_size64 ef) fin
          }
        }
      else Some (0, ef))"

definition erase_range :: "exfat \<Rightarrow> exfat_node \<Rightarrow> u64 \<Rightarrow> u64 \<Rightarrow> (int \<times> exfat \<times> exfat_node) option" where
  "erase_range ef node bgn fin =
     (if bgn \<ge> fin then Some (0, ef, node)
      else
        do {
          let cluster_boundary = (bgn OR (cluster_size64 ef - 1)) + 1;
          (cluster, node) \<leftarrow> exfat_advance_cluster ef node (ucast (bgn div cluster_size64 ef));
          if CLUSTER_INVALID (sb ef) cluster then Some (- EIO, ef, node)
          else do {
            offset \<leftarrow> exfat_c2o ef cluster;
            let (ef, ok) = erase_raw ef (unat (min cluster_boundary fin - bgn))
                             (offset + unat bgn mod CLUSTER_SIZE (sb ef));
            if \<not> ok then Some (- EIO, ef, node)
            else do {
              (rc, ef) \<leftarrow> erase_loop ef node cluster cluster_boundary fin;
              Some (rc, ef, node)
            }
          }
        })"

definition exfat_truncate :: "exfat \<Rightarrow> exfat_node \<Rightarrow> u64 \<Rightarrow> bool \<Rightarrow> (int \<times> exfat \<times> exfat_node) option" where
  "exfat_truncate ef node sz erase =
     (let c1 = bytes2clusters ef (node_size node);
          c2 = bytes2clusters ef sz
      in if references node = 0 \<and> parent node \<noteq> None then None
         else if node_size node = sz then Some (0, ef, node)
         else
           do {
             (rc, ef, node) \<leftarrow>
               (if c1 < c2 then grow_file ef node c1 (c2 - c1)
                else if c1 > c2 then shrink_file ef node c1 (c1 - c2)
                else Some (0, ef, node));
             if rc \<noteq> 0 then Some (rc, ef, node)
             else do {
               (rc, ef, node) \<leftarrow>
                 (if erase then
                    do {
                      (rc, ef, node) \<leftarrow> erase_range ef node (valid_size node) sz;
                      Some (rc, ef, if rc = 0 then node\<lparr>valid_size := sz\<rparr> else node)
                    }
                  else Some (0, ef, node\<lparr>valid_size := min (valid_size node) sz\<rparr>));
               if rc \<noteq> 0 then Some (rc, ef, node)
               else Some (0, ef, (exfat_update_mtime ef node)\<lparr>node_size := sz, is_dirty := True\<rparr>)
             }
           })"

section \<open>Free and used clusters\<close>

definition exfat_count_free_clusters :: "exfat \<Rightarrow> u32" where
  "exfat_count_free_clusters ef =
     foldl (\<lambda>free_clusters i. if BMAP_GET (chunk ef) i = 0 then free_clusters + 1 else free_clusters)
       0 [0..<unat (cmap_size ef)]"

text \<open>\<^verbatim>\<open>find_used_clusters\<close>: the two loops, over cluster numbers.\<close>

function first_used :: "bitmap \<Rightarrow> nat \<Rightarrow> nat \<Rightarrow> nat" where
  "first_used bmap a stop = (if a < stop then if BMAP_GET bmap (a - 2) \<noteq> 0 then a else first_used bmap (Suc a) stop else a)"
  by pat_completeness auto
termination
  by (relation "measure (\<lambda>(bmap, a, n). n - a)") auto

function last_used :: "bitmap \<Rightarrow> nat \<Rightarrow> nat \<Rightarrow> nat" where
  "last_used bmap b stop = (if b < stop then if BMAP_GET bmap (b - 2) = 0 then b - 1 else last_used bmap (Suc b) stop else b)"
  by pat_completeness auto
termination
  by (relation "measure (\<lambda>(bmap, b, n). n - b)") auto

definition find_used_clusters :: "exfat \<Rightarrow> cluster_t \<Rightarrow> cluster_t \<Rightarrow> int \<times> cluster_t \<times> cluster_t" where
  "find_used_clusters ef a b =
     (let stop = unat (cluster_count (sb ef));
          a = first_used (chunk ef) (unat (b + 1)) stop
      in if a \<ge> stop then (1, word_of_nat a, b)
         else (0, word_of_nat a, word_of_nat (last_used (chunk ef) a stop)))"

definition exfat_find_used_sectors :: "exfat \<Rightarrow> nat \<Rightarrow> nat \<Rightarrow> (int \<times> nat \<times> nat) option" where
  "exfat_find_used_sectors ef a b =
     (let (ca, cb) = (if a = 0 \<and> b = 0 then (EXFAT_FIRST_DATA_CLUSTER - 1, EXFAT_FIRST_DATA_CLUSTER - 1)
                      else (s2c ef a, s2c ef b));
          (rc, ca, cb) = find_used_clusters ef ca cb
      in if rc \<noteq> 0 then Some (1, a, b)
         else
           do {
             a \<leftarrow> (if a \<noteq> 0 \<or> b \<noteq> 0 then c2s ef ca else Some a);
             s \<leftarrow> c2s ef cb;
             Some (0, a, s + (CLUSTER_SIZE (sb ef) - 1) div SECTOR_SIZE (sb ef))
           })"

declare find_clear.simps [simp del] find_block.simps [simp del] first_used.simps [simp del] last_used.simps [simp del]

section \<open>Finding a clear bit\<close>

lemma find_clear_Some:
  assumes "find_clear bmap c e = Some k"
  shows "c \<le> k" "k < e" "\<not> bmap_bit bmap k" "\<And>j. c \<le> j \<Longrightarrow> j < k \<Longrightarrow> bmap_bit bmap j"
proof -
  have "c \<le> k \<and> k < e \<and> \<not> bmap_bit bmap k \<and> (\<forall>j. c \<le> j \<and> j < k \<longrightarrow> bmap_bit bmap j)"
    using assms
  proof (induction bmap c e rule: find_clear.induct)
    case (1 bmap c e)
    from "1.prems" have ce: "c < e" by (subst (asm) find_clear.simps) (simp split: if_splits)
    show ?case
    proof (cases "bmap_bit bmap c")
      case True
      with "1.prems" ce have "find_clear bmap (Suc c) e = Some k"
        by (subst (asm) find_clear.simps) (simp add: BMAP_GET_bit)
      with "1.IH" [OF ce] True show ?thesis
        by (auto simp: BMAP_GET_bit) (case_tac "j = c", auto)
    next
      case False
      with "1.prems" ce show ?thesis by (subst (asm) find_clear.simps) (auto simp: BMAP_GET_bit)
    qed
  qed
  then show "c \<le> k" "k < e" "\<not> bmap_bit bmap k" "\<And>j. c \<le> j \<Longrightarrow> j < k \<Longrightarrow> bmap_bit bmap j" by auto
qed

lemma find_clear_None:
  assumes "find_clear bmap c e = None" "c \<le> j" "j < e"
  shows "bmap_bit bmap j"
  using assms
proof (induction bmap c e rule: find_clear.induct)
  case (1 bmap c e)
  have ce: "c < e" using "1.prems" by simp
  with "1.prems"(1) have c: "BMAP_GET bmap c \<noteq> 0" "find_clear bmap (Suc c) e = None"
    by (subst (asm) find_clear.simps; simp split: if_splits)+
  show ?case
  proof (cases "j = c")
    case True
    with c(1) show ?thesis by (simp add: BMAP_GET_bit)
  next
    case False
    with "1.IH" [OF ce c] "1.prems" show ?thesis by simp
  qed
qed

lemma full_block: "bmap ! i = NOT 0 \<Longrightarrow> i * 64 \<le> j \<Longrightarrow> j < (i + 1) * 64 \<Longrightarrow> bmap_bit bmap j"
proof -
  assume a: "bmap ! i = NOT 0" "i * 64 \<le> j" "j < (i + 1) * 64"
  then have "j div 64 = i" by (intro div_nat_eqI) auto
  with a(1) show ?thesis by (simp add: bmap_bit_def bit_simps)
qed

lemma find_block_result:
  "case find_block bmap start stop i n of
     Some k \<Rightarrow> max (i * 64) start \<le> k \<and> k < stop \<and> \<not> bmap_bit bmap k \<and>
       (\<forall>j. max (i * 64) start \<le> j \<and> j < k \<longrightarrow> bmap_bit bmap j)
   | None \<Rightarrow> (\<forall>j. max (i * 64) start \<le> j \<and> j < min (n * 64) stop \<longrightarrow> bmap_bit bmap j)"
proof (induction bmap start stop i n rule: find_block.induct)
  case (1 bmap start stop i n)
  show ?case
  proof (cases "i < n")
    case False
    then show ?thesis by (subst find_block.simps) auto
  next
    case True
    let ?here = "find_clear bmap (max (i * 8 * 8) start) (min ((i + 1) * 8 * 8) stop)"
    have step: "max (Suc i * 64) start \<le> j \<or> bmap_bit bmap j"
      if "max (i * 64) start \<le> j" "j < stop" "bmap ! i = NOT 0 \<or> ?here = None" for j
    proof (cases "j < (i + 1) * 64")
      case True
      then show ?thesis
        using that full_block [of bmap i j]
          find_clear_None [of bmap "max (i * 8 * 8) start" "min ((i + 1) * 8 * 8) stop" j] by auto
    qed (use that(1) in auto)
    consider (some) c where "bmap ! i \<noteq> NOT 0" "?here = Some c"
      | (skip) "bmap ! i = NOT 0 \<or> ?here = None" by fastforce
    then show ?thesis
    proof cases
      case some
      then show ?thesis
        using True find_clear_Some [OF some(2)] by (subst find_block.simps) (auto simp: mult.assoc)
    next
      case skip
      then have "find_block bmap start stop i n = find_block bmap start stop (Suc i) n"
        using True by (subst find_block.simps) auto
      moreover from skip True have "case find_block bmap start stop (Suc i) n of
          Some k \<Rightarrow> max (Suc i * 64) start \<le> k \<and> k < stop \<and> \<not> bmap_bit bmap k \<and>
            (\<forall>j. max (Suc i * 64) start \<le> j \<and> j < k \<longrightarrow> bmap_bit bmap j)
        | None \<Rightarrow> (\<forall>j. max (Suc i * 64) start \<le> j \<and> j < min (n * 64) stop \<longrightarrow> bmap_bit bmap j)"
        using "1.IH" by blast
      ultimately show ?thesis
        using step [OF _ _ skip] by (auto split: option.splits) (meson order.strict_trans)
    qed
  qed
qed

text \<open>\<^verbatim>\<open>find_bit_and_set\<close> sets the first clear bit of the range, or finds none.\<close>

lemma DIV_ROUND_UP_ge: "0 < d \<Longrightarrow> x \<le> DIV_ROUND_UP x d * d"
proof -
  assume "0 < d"
  then show ?thesis using dividend_less_div_times [of d "x + d - 1"] by (simp add: DIV_ROUND_UP_def)
qed

lemma find_bit_and_set_cases:
  assumes "find_bit_and_set bmap start stop = (bmap', r)"
  obtains (found) c where "start \<le> c" "c < stop" "\<not> bmap_bit bmap c"
      "\<And>j. start \<le> j \<Longrightarrow> j < c \<Longrightarrow> bmap_bit bmap j" "bmap' = BMAP_SET bmap c" "r = word_of_nat c + 2"
  | (full) "\<And>j. start \<le> j \<Longrightarrow> j < stop \<Longrightarrow> bmap_bit bmap j" "bmap' = bmap" "r = EXFAT_CLUSTER_END"
proof -
  have i: "start div 8 div 8 = start div 64" by (simp flip: div_mult2_eq)
  have m: "max (start div 64 * 64) start = start" "min (DIV_ROUND_UP stop 64 * 64) stop = stop"
    using DIV_ROUND_UP_ge [of 64 stop] by simp_all
  note r = find_block_result [where bmap = bmap and start = start and stop = stop and i = "start div 64"
      and n = "DIV_ROUND_UP stop 64", unfolded m]
  show thesis
  proof (cases "find_block bmap start stop (start div 64) (DIV_ROUND_UP stop 64)")
    case None
    with r assms i show ?thesis by (intro full) (auto simp: find_bit_and_set_def)
  next
    case (Some c)
    with r assms i show ?thesis by (intro found [of c]) (auto simp: find_bit_and_set_def)
  qed
qed

section \<open>Allocation\<close>

text \<open>The volume state the allocator relies on: the bitmap has a bit for every cluster, and the numbers that
  mark a bad or last cluster are not cluster numbers.\<close>

definition vol_ok :: "exfat \<Rightarrow> bool" where
  "vol_ok ef \<longleftrightarrow> chunk_size ef = cluster_count (sb ef) \<and> cmap_size ef = cluster_count (sb ef) \<and>
     unat (cluster_count (sb ef)) \<le> 64 * length (chunk ef) \<and> unat (cluster_count (sb ef)) \<le> 0xfffffff5"

definition used :: "exfat \<Rightarrow> cluster_t \<Rightarrow> bool" where
  "used ef c \<longleftrightarrow> bmap_bit (chunk ef) (unat c - 2)"

abbreviation valid :: "exfat \<Rightarrow> cluster_t \<Rightarrow> bool" where
  "valid ef c \<equiv> \<not> CLUSTER_INVALID (sb ef) c"

lemma valid_nat: "valid ef c \<longleftrightarrow> 2 \<le> unat c \<and> unat c < unat (cluster_count (sb ef)) + 2"
  by (auto simp: CLUSTER_INVALID_nat)

lemma special_invalid:
  assumes "vol_ok ef"
  shows "CLUSTER_INVALID (sb ef) EXFAT_CLUSTER_END" "CLUSTER_INVALID (sb ef) EXFAT_CLUSTER_BAD"
    "CLUSTER_INVALID (sb ef) EXFAT_CLUSTER_FREE"
  using assms by (auto simp: CLUSTER_INVALID_nat vol_ok_def)

lemma unat_index_cluster:
  assumes "vol_ok ef" "c < unat (cluster_count (sb ef))"
  shows "unat (word_of_nat c + 2 :: cluster_t) = c + 2"
proof -
  have "c + 2 < 2 ^ 32" using assms by (simp add: vol_ok_def)
  moreover have "word_of_nat c + 2 = (word_of_nat (c + 2) :: cluster_t)" by simp
  ultimately show ?thesis by (simp only: unsigned_of_nat) (simp add: take_bit_nat_eq_self)
qed

text \<open>\<^verbatim>\<open>allocate_cluster\<close> gives a valid cluster that was free and marks it, and only it, as used; it reports the
  end only when every cluster is in use.\<close>

lemma allocate_cluster_cases:
  assumes "vol_ok ef" "allocate_cluster ef hint = (ef', c)"
  obtains (got) "valid ef c" "\<not> used ef c" "ef' = ef\<lparr>chunk := BMAP_SET (chunk ef) (unat c - 2), cmap_dirty := True\<rparr>"
  | (full) "\<And>c. valid ef c \<Longrightarrow> used ef c" "ef' = ef" "c = EXFAT_CLUSTER_END"
proof -
  let ?n = "unat (cluster_count (sb ef))"
  define h where "h = (if hint - 2 \<ge> cluster_count (sb ef) then 0 else hint - 2)"
  obtain b1 r1 where f1: "find_bit_and_set (chunk ef) (unat h) ?n = (b1, r1)" by fastforce
  obtain b2 r2 where f2: "find_bit_and_set b1 0 (unat h) = (b2, r2)" by fastforce
  have cs: "chunk_size ef = cluster_count (sb ef)" using assms(1) by (simp add: vol_ok_def)
  have h: "unat h \<le> ?n" by (auto simp: h_def word_le_nat_alt)
  have res: "(ef', c) = (if r1 = EXFAT_CLUSTER_END then
      if r2 = EXFAT_CLUSTER_END then (ef\<lparr>chunk := b2\<rparr>, EXFAT_CLUSTER_END) else (ef\<lparr>chunk := b2, cmap_dirty := True\<rparr>, r2)
      else (ef\<lparr>chunk := b1, cmap_dirty := True\<rparr>, r1))"
    using assms(2) [unfolded allocate_cluster_def Let_def cs, folded h_def] f1 f2 by (auto split: if_splits)
  have num: "unat (word_of_nat k + 2 :: cluster_t) = k + 2 \<and> valid ef (word_of_nat k + 2) \<and> word_of_nat k + 2 \<noteq> EXFAT_CLUSTER_END"
    if "k < ?n" for k
    using unat_index_cluster [OF assms(1) that] that assms(1) by (auto simp: valid_nat vol_ok_def)
  from f1 show thesis
  proof (cases rule: find_bit_and_set_cases)
    case (found k)
    with num [of k] res show ?thesis by (intro got) (auto simp: used_def)
  next
    case full1: full
    from f2 show ?thesis
    proof (cases rule: find_bit_and_set_cases)
      case (found k)
      with num [of k] res h full1 show ?thesis by (intro got) (auto simp: used_def)
    next
      case full2: full
      have "used ef c" if "valid ef c" for c
        using that full1(1) full2(1) unfolding full1(2) used_def valid_nat
        by (metis (no_types, lifting) diff_is_0_eq' less_diff_conv2 not_le_imp_less zero_le)
      with full1 full2 res show ?thesis by (intro full) auto
    qed
  qed
qed

end
