(* ===== verification/ExfatChain.thy ===== *)
theory ExfatChain
  imports ExfatCluster
begin

text \<open>
  What the functions of \<^verbatim>\<open>cluster.c\<close> do to files. A file owns a list of clusters: its chain, followed through
  the file allocation table or, for a contiguous file, by counting up. The lemmas say that looking up a
  cluster through the cached file pointer is a walk along the chain, that shrinking cuts the chain and
  frees the rest, that growing appends clusters that were free, and that neither touches anything
  outside the file's own clusters and the free ones, whatever the device does.
\<close>

section \<open>The file allocation table\<close>

definition fat :: "exfat \<Rightarrow> cluster_t \<Rightarrow> cluster_t" where
  "fat ef c = get_unaligned_le32 (peek (medium (dev ef)) (fat_offset ef c) 4)"

text \<open>A device that serves every access to the table.\<close>

definition fat_ready :: "exfat \<Rightarrow> bool" where
  "fat_ready ef \<longleftrightarrow> healthy (dev ef) \<and> (\<forall>c. valid ef c \<longrightarrow> fat_offset ef c + 4 \<le> exfat_get_size (dev ef))"

text \<open>A step from \<open>ef\<close> to \<open>ef'\<close> that stays within the clusters \<open>S\<close>: on the device it writes only their table
  entries, in the bitmap it changes only their bits, and nothing else of the volume changes.\<close>

definition frame :: "exfat \<Rightarrow> exfat" where
  "frame ef = ef\<lparr>dev := (dev ef)\<lparr>medium := (\<lambda>_. 0)\<rparr>, chunk := [], cmap_dirty := False\<rparr>"

definition in_fat_entries :: "exfat \<Rightarrow> cluster_t set \<Rightarrow> nat \<Rightarrow> bool" where
  "in_fat_entries ef S a \<longleftrightarrow> (\<exists>c\<in>S. fat_offset ef c \<le> a \<and> a < fat_offset ef c + 4)"

definition within :: "cluster_t set \<Rightarrow> exfat \<Rightarrow> exfat \<Rightarrow> bool" where
  "within S ef ef' \<longleftrightarrow>
     frame ef' = frame ef \<and> length (chunk ef') = length (chunk ef) \<and>
     (\<forall>a. medium (dev ef') a = medium (dev ef) a \<or> in_fat_entries ef S a) \<and>
     (\<forall>c. valid ef c \<and> c \<notin> S \<longrightarrow> used ef' c = used ef c)"

lemma frame_eqD:
  assumes "frame ef' = frame ef"
  shows "sb ef' = sb ef" "chunk_size ef' = chunk_size ef" "cmap_size ef' = cmap_size ef"
    "blockSize (dev ef') = blockSize (dev ef)" "blockCount (dev ef') = blockCount (dev ef)"
    "rd_throws (dev ef') = rd_throws (dev ef)" "wr_throws (dev ef') = wr_throws (dev ef)"
    "zero_cluster ef' = zero_cluster ef" "ro ef' = ro ef" "noatime ef' = noatime ef" "now ef' = now ef"
  using arg_cong [OF assms, of sb] arg_cong [OF assms, of chunk_size] arg_cong [OF assms, of cmap_size]
    arg_cong [OF assms, of "\<lambda>x. blockSize (dev x)"] arg_cong [OF assms, of "\<lambda>x. blockCount (dev x)"]
    arg_cong [OF assms, of "\<lambda>x. rd_throws (dev x)"] arg_cong [OF assms, of "\<lambda>x. wr_throws (dev x)"]
    arg_cong [OF assms, of zero_cluster] arg_cong [OF assms, of ro] arg_cong [OF assms, of noatime]
    arg_cong [OF assms, of now]
  by (simp_all add: frame_def)

lemma fat_offset_cong: "sb ef' = sb ef \<Longrightarrow> fat_offset ef' = fat_offset ef"
  by (simp add: fat_offset_def [abs_def] s2o_def)

lemma withinD:
  assumes "within S ef ef'"
  shows "frame ef' = frame ef" "length (chunk ef') = length (chunk ef)"
    "\<And>a. \<not> in_fat_entries ef S a \<Longrightarrow> medium (dev ef') a = medium (dev ef) a"
    "\<And>c. valid ef c \<Longrightarrow> c \<notin> S \<Longrightarrow> used ef' c = used ef c"
  using assms unfolding within_def by blast+

lemma within_refl [simp]: "within S ef ef"
  by (simp add: within_def)

lemma within_sb: "within S ef ef' \<Longrightarrow> sb ef' = sb ef"
  by (rule frame_eqD(1) [OF withinD(1)])

lemma within_offset: "within S ef ef' \<Longrightarrow> fat_offset ef' = fat_offset ef"
  by (rule fat_offset_cong [OF within_sb])

lemma within_mono:
  assumes "within S ef ef'" "S \<subseteq> T"
  shows "within T ef ef'"
proof -
  have "in_fat_entries ef T a" if "in_fat_entries ef S a" for a
    using that assms(2) by (auto simp: in_fat_entries_def)
  with assms show ?thesis unfolding within_def by blast
qed

lemma within_trans:
  assumes "within S ef ef1" "within S ef1 ef2"
  shows "within S ef ef2"
proof -
  note s = within_sb [OF assms(1)] within_offset [OF assms(1)]
  have "in_fat_entries ef1 S = in_fat_entries ef S" by (simp add: in_fat_entries_def [abs_def] s)
  with withinD [OF assms(1)] withinD [OF assms(2)] s show ?thesis
    unfolding within_def by metis
qed

lemma within_vol_ok:
  assumes "within S ef ef'"
  shows "vol_ok ef' = vol_ok ef"
  using withinD(2) [OF assms] frame_eqD [OF withinD(1) [OF assms]] by (simp add: vol_ok_def)

lemma within_fat_ready:
  assumes "within S ef ef'"
  shows "fat_ready ef' = fat_ready ef"
  using frame_eqD [OF withinD(1) [OF assms]] within_offset [OF assms]
  by (simp add: fat_ready_def healthy_def exfat_get_size_def)

lemma within_fat:
  assumes "within S ef ef'" "c \<notin> S"
  shows "fat ef' c = fat ef c"
proof -
  have "\<not> in_fat_entries ef S a" if a: "fat_offset ef c \<le> a" "a < fat_offset ef c + 4" for a
  proof
    assume "in_fat_entries ef S a"
    then obtain c' where c': "c' \<in> S" "fat_offset ef c' \<le> a" "a < fat_offset ef c' + 4"
      by (auto simp: in_fat_entries_def)
    with a have "unat c = unat c'" by (auto simp: fat_offset_def)
    with c'(1) assms(2) show False by (metis word_unat_eq_iff)
  qed
  with withinD(3) [OF assms(1)]
  have "peek (medium (dev ef')) (fat_offset ef c) 4 = peek (medium (dev ef)) (fat_offset ef c) 4"
    by (intro peek_cong) simp
  with within_offset [OF assms(1)] show ?thesis by (simp add: fat_def)
qed

text \<open>Marking one cluster in the bitmap, and writing one table entry.\<close>

lemma valid_block: "vol_ok ef \<Longrightarrow> valid ef c \<Longrightarrow> (unat c - 2) div 64 < length (chunk ef)"
  by (auto simp: vol_ok_def valid_nat less_mult_imp_div_less)

lemma unat_index_eq: "valid ef c \<Longrightarrow> valid ef c' \<Longrightarrow> unat c - 2 = unat c' - 2 \<longleftrightarrow> c = c'"
  by (auto simp: valid_nat word_unat_eq_iff)

lemma set_next_cluster_result:
  assumes "set_next_cluster ef contiguous c n = (ef', ok)" "vol_ok ef" "valid ef c"
  shows "within {c} ef ef'" "used ef' = used ef" "\<not> ok \<Longrightarrow> \<not> fat_ready ef"
    "ok \<Longrightarrow> fat ef' = (if contiguous then fat ef else (fat ef)(c := n))"
proof -
  let ?bs = "put_unaligned_le32 n" and ?o = "fat_offset ef c"
  have all: "within {c} ef ef' \<and> used ef' = used ef \<and> (\<not> ok \<longrightarrow> \<not> fat_ready ef) \<and>
      (ok \<longrightarrow> fat ef' = (if contiguous then fat ef else (fat ef)(c := n)))"
  proof (cases contiguous)
    case True
    then show ?thesis using assms(1) by (simp add: set_next_cluster_def)
  next
    case False
    then obtain d where d: "exfat_pwrite (dev ef) ?bs ?o = (d, ok)" and ef': "ef' = ef\<lparr>dev := d\<rparr>"
      using assms(1) by (auto simp: set_next_cluster_def split: prod.splits)
    then obtain k where k: "d = (dev ef)\<lparr>medium := poke (medium (dev ef)) ?o (take k ?bs)\<rparr>" "ok \<longrightarrow> 4 \<le> k"
      using exfat_pwrite_result [OF d] by auto
    have w: "within {c} ef ef'"
      by (auto simp: within_def ef' k(1) frame_def used_def in_fat_entries_def poke_def)
    have "fat ef' = (fat ef)(c := n)" if ok
    proof
      fix c'
      have "fat ef' c = n"
        using that k ef' within_offset [OF w] peek_poke [of "medium (dev ef)" ?o ?bs] by (simp add: fat_def)
      then show "fat ef' c' = ((fat ef)(c := n)) c'"
        using within_fat [OF w, of c'] by (cases "c' = c") auto
    qed
    moreover have "ok" if "fat_ready ef"
      using that assms(3) d exfat_pwrite_healthy [of "dev ef" ?bs ?o]
      by (auto simp: fat_ready_def put_unaligned_le32_def)
    ultimately show ?thesis using w False by (auto simp: ef' used_def [abs_def])
  qed
  then show "within {c} ef ef'" "used ef' = used ef" "\<not> ok \<Longrightarrow> \<not> fat_ready ef"
    "ok \<Longrightarrow> fat ef' = (if contiguous then fat ef else (fat ef)(c := n))" by auto
qed

lemma free_cluster_result:
  assumes "vol_ok ef" "valid ef c"
  obtains ef' where "free_cluster ef c = Some ef'" "within {c} ef ef'" "fat ef' = fat ef"
    "\<And>c'. valid ef c' \<Longrightarrow> used ef' c' \<longleftrightarrow> used ef c' \<and> c' \<noteq> c"
proof -
  have i: "unat (c - 2) = unat c - 2" using assms(2) by (simp add: valid_nat unat_sub word_le_nat_alt)
  let ?ef = "ef\<lparr>chunk := BMAP_CLR (chunk ef) (unat c - 2), cmap_dirty := True\<rparr>"
  note clr = bmap_bit_CLR [OF valid_block [OF assms]]
  have "free_cluster ef c = Some ?ef"
    using assms i by (auto simp: free_cluster_def vol_ok_def word_le_nat_alt valid_nat)
  moreover have "used ?ef c' \<longleftrightarrow> used ef c' \<and> c' \<noteq> c" if "valid ef c'" for c'
    using clr unat_index_eq [OF that assms(2)] by (auto simp: used_def)
  moreover from this have "within {c} ef ?ef"
    by (simp add: within_def frame_def)
  moreover have "fat ?ef = fat ef" by (simp add: fat_def [abs_def] fat_offset_def s2o_def)
  ultimately show thesis using that by blast
qed

lemma allocate_cluster_result:
  assumes "vol_ok ef" "allocate_cluster ef hint = (ef', c)" "valid ef' c"
  shows "valid ef c" "\<not> used ef c" "within {c} ef ef'" "fat ef' = fat ef"
    "\<And>c'. valid ef c' \<Longrightarrow> used ef' c' \<longleftrightarrow> used ef c' \<or> c' = c"
proof -
  have got: "valid ef c" "\<not> used ef c" "ef' = ef\<lparr>chunk := BMAP_SET (chunk ef) (unat c - 2), cmap_dirty := True\<rparr>"
    using assms(3) special_invalid [OF assms(1)]
    by (cases rule: allocate_cluster_cases [OF assms(1,2)]; simp)+
  note set = bmap_bit_SET [OF valid_block [OF assms(1) got(1)]]
  show "valid ef c" "\<not> used ef c" by fact+
  show u: "used ef' c' \<longleftrightarrow> used ef c' \<or> c' = c" if "valid ef c'" for c'
    using set unat_index_eq [OF that got(1)] by (auto simp: used_def got(3))
  then show "within {c} ef ef'"
    by (simp add: within_def frame_def got(3))
  show "fat ef' = fat ef" by (simp add: got(3) fat_def [abs_def] fat_offset_def s2o_def)
qed

section \<open>The clusters of a file\<close>

definition succ_cluster :: "exfat \<Rightarrow> exfat_node \<Rightarrow> cluster_t \<Rightarrow> cluster_t" where
  "succ_cluster ef node c = (if is_contiguous node then c + 1 else fat ef c)"

abbreviation chain :: "exfat \<Rightarrow> exfat_node \<Rightarrow> cluster_t list \<Rightarrow> bool" where
  "chain ef node cs \<equiv> successively (\<lambda>a b. succ_cluster ef node a = b) cs"

definition owns :: "exfat \<Rightarrow> exfat_node \<Rightarrow> cluster_t list \<Rightarrow> bool" where
  "owns ef node cs \<longleftrightarrow>
     (if cs = [] then start_cluster node = EXFAT_CLUSTER_FREE else start_cluster node = hd cs) \<and>
     distinct cs \<and> (\<forall>c\<in>set cs. valid ef c \<and> used ef c) \<and> chain ef node cs"

text \<open>The cached file pointer stands on the cluster it names.\<close>

definition fptr_ok :: "exfat_node \<Rightarrow> cluster_t list \<Rightarrow> bool" where
  "fptr_ok node cs \<longleftrightarrow>
     (if cs = [] then fptr_index node = 0
      else unat (fptr_index node) < length cs \<and> fptr_cluster node = cs ! unat (fptr_index node))"

lemma successively_cong_nodes:
  assumes "\<And>c. c \<in> set (butlast cs) \<Longrightarrow> f c = g c"
  shows "successively (\<lambda>a b. f a = b) cs = successively (\<lambda>a b. g a = b) cs"
  using assms by (induction cs rule: induct_list012) auto

lemma chain_cong:
  "(\<And>c. c \<in> set (butlast cs) \<Longrightarrow> succ_cluster ef node c = succ_cluster ef' node' c) \<Longrightarrow>
   chain ef node cs = chain ef' node' cs"
  by (rule successively_cong_nodes)

lemma chain_nth: "chain ef node cs \<Longrightarrow> Suc i < length cs \<Longrightarrow> succ_cluster ef node (cs ! i) = cs ! Suc i"
  by (rule successively_nth)

lemma chain_append_iff:
  "cs \<noteq> [] \<Longrightarrow> ds \<noteq> [] \<Longrightarrow>
   chain ef node (cs @ ds) \<longleftrightarrow> chain ef node cs \<and> chain ef node ds \<and> succ_cluster ef node (last cs) = hd ds"
  by (auto simp: successively_append_iff)

lemma chain_within:
  assumes "within S ef ef'" "set (butlast cs) \<inter> S = {}"
  shows "chain ef' node cs = chain ef node cs"
proof (rule chain_cong)
  fix c assume "c \<in> set (butlast cs)"
  with assms(2) have "c \<notin> S" by blast
  with within_fat [OF assms(1)] show "succ_cluster ef' node c = succ_cluster ef node c"
    by (simp add: succ_cluster_def)
qed

lemma within_owns:
  assumes "within S ef ef'" "owns ef node cs" "set cs \<inter> S = {}"
  shows "owns ef' node cs"
proof -
  have "valid ef' c \<and> used ef' c" if "c \<in> set cs" for c
    using that assms withinD(4) [OF assms(1), of c] by (auto simp: owns_def within_sb [OF assms(1)])
  moreover have "chain ef' node cs = chain ef node cs"
    using assms(3) by (intro chain_within [OF assms(1)]) (auto dest: in_set_butlastD)
  ultimately show ?thesis using assms(2) by (simp add: owns_def)
qed

text \<open>One step along the chain. A failing read shows up as the bad-cluster mark.\<close>

lemma exfat_next_cluster_result:
  assumes "valid ef c"
  obtains n where "exfat_next_cluster ef node c = Some n"
    "n = succ_cluster ef node c \<or> n = EXFAT_CLUSTER_BAD \<and> \<not> fat_ready ef"
proof -
  have c: "\<not> c < 2" using assms by (simp add: CLUSTER_INVALID_def)
  show thesis
  proof (cases "is_contiguous node")
    case True
    with c show ?thesis by (intro that [of "c + 1"]) (auto simp: exfat_next_cluster_def succ_cluster_def)
  next
    case False
    show ?thesis
    proof (cases "exfat_pread (dev ef) 4 (fat_offset ef c)")
      case None
      then have "\<not> fat_ready ef"
        using assms exfat_pread_healthy [of "dev ef" 4 "fat_offset ef c"] by (auto simp: fat_ready_def)
      with None False c show ?thesis by (intro that [of EXFAT_CLUSTER_BAD]) (auto simp: exfat_next_cluster_def)
    next
      case (Some bs)
      with exfat_pread_peek [OF Some] False c show ?thesis
        by (intro that [of "fat ef c"]) (auto simp: exfat_next_cluster_def succ_cluster_def fat_def)
    qed
  qed
qed

lemma advance_loop_result:
  assumes "vol_ok ef" "chain ef node cs" "\<forall>c\<in>set cs. valid ef c" "i + k < length cs" "fptr_cluster node = cs ! i"
  shows "\<exists>c. advance_loop ef k node = Some (node\<lparr>fptr_cluster := c\<rparr>) \<and>
    (c = cs ! (i + k) \<or> CLUSTER_INVALID (sb ef) c \<and> \<not> fat_ready ef)"
  using assms
proof (induction k arbitrary: i node)
  case 0
  then show ?case by (intro exI [of _ "cs ! i"]) simp
next
  case (Suc k)
  then have v: "valid ef (cs ! i)" by simp
  obtain n where n: "exfat_next_cluster ef node (cs ! i) = Some n"
      "n = succ_cluster ef node (cs ! i) \<or> n = EXFAT_CLUSTER_BAD \<and> \<not> fat_ready ef"
    using exfat_next_cluster_result [OF v] .
  show ?case
  proof (cases "n = EXFAT_CLUSTER_BAD \<and> \<not> fat_ready ef")
    case True
    with n(1) Suc.prems(5) special_invalid(2) [OF Suc.prems(1)] show ?thesis by auto
  next
    case False
    with n(2) chain_nth [OF Suc.prems(2), of i] Suc.prems(4) have nn: "n = cs ! Suc i" by auto
    let ?node = "node\<lparr>fptr_cluster := n\<rparr>"
    have "chain ef ?node cs" using Suc.prems(2) by (simp add: succ_cluster_def [abs_def])
    from Suc.IH [OF Suc.prems(1) this Suc.prems(3), of "Suc i"] Suc.prems(4) nn
    obtain c where "advance_loop ef k ?node = Some (?node\<lparr>fptr_cluster := c\<rparr>)"
        "c = cs ! (Suc i + k) \<or> CLUSTER_INVALID (sb ef) c \<and> \<not> fat_ready ef" by auto
    moreover have "valid ef n" using Suc.prems(3,4) nn by auto
    ultimately show ?thesis using n(1) Suc.prems(5) by (intro exI [of _ c]) simp
  qed
qed

lemma exfat_advance_cluster_result:
  assumes "vol_ok ef" "owns ef node cs" "fptr_ok node cs" "unat count < length cs"
  obtains c where "exfat_advance_cluster ef node count = Some (c, node\<lparr>fptr_index := count, fptr_cluster := c\<rparr>)"
    "c = cs ! unat count \<or> CLUSTER_INVALID (sb ef) c \<and> \<not> fat_ready ef"
proof -
  define node1 where "node1 = (if fptr_index node > count
      then node\<lparr>fptr_index := 0, fptr_cluster := start_cluster node\<rparr> else node)"
  have ne: "cs \<noteq> []" using assms(4) by auto
  have i: "unat (fptr_index node1) \<le> unat count" "fptr_cluster node1 = cs ! unat (fptr_index node1)"
    using assms(2,3) ne by (auto simp: node1_def owns_def fptr_ok_def word_less_nat_alt hd_conv_nth)
  have ch: "chain ef node1 cs" "\<forall>c\<in>set cs. valid ef c"
    using assms(2) by (auto simp: owns_def node1_def succ_cluster_def [abs_def])
  obtain c where c: "advance_loop ef (unat count - unat (fptr_index node1)) node1 = Some (node1\<lparr>fptr_cluster := c\<rparr>)"
      "c = cs ! unat count \<or> CLUSTER_INVALID (sb ef) c \<and> \<not> fat_ready ef"
    using advance_loop_result [OF assms(1) ch _ i(2), of "unat count - unat (fptr_index node1)"] i(1) assms(4)
    by auto
  moreover have "exfat_advance_cluster ef node count =
      Some (c, node\<lparr>fptr_index := count, fptr_cluster := c\<rparr>)"
    using c(1) by (auto simp: exfat_advance_cluster_def Let_def node1_def [symmetric]) (simp add: node1_def)
  ultimately show thesis using that by blast
qed

section \<open>Shrinking\<close>

lemma shrink_loop_result:
  assumes "vol_ok ef" "distinct cs" "\<forall>c\<in>set cs. valid ef c" "chain ef node cs" "cs \<noteq> [] \<Longrightarrow> previous = hd cs"
  shows "\<exists>rc ef'. shrink_loop ef node previous (length cs) = Some (rc, ef') \<and> within (set cs) ef ef' \<and>
    (rc = 0 \<or> rc = - EIO \<and> \<not> fat_ready ef) \<and>
    (rc = 0 \<longrightarrow> (\<forall>c. valid ef c \<longrightarrow> used ef' c = (used ef c \<and> c \<notin> set cs)))"
  using assms
proof (induction cs arbitrary: ef previous)
  case (Cons c cs)
  have v: "valid ef c" and p: "previous = c" using Cons.prems by auto
  obtain n where n: "exfat_next_cluster ef node c = Some n"
      "n = succ_cluster ef node c \<or> n = EXFAT_CLUSTER_BAD \<and> \<not> fat_ready ef"
    using exfat_next_cluster_result [OF v] .
  obtain ef1 ok where s: "set_next_cluster ef (is_contiguous node) c EXFAT_CLUSTER_FREE = (ef1, ok)" by fastforce
  note s1 = set_next_cluster_result [OF s Cons.prems(1) v]
  show ?case
  proof (cases ok)
    case False
    with n(1) s v p s1 within_mono [OF s1(1), of "set (c # cs)"] show ?thesis by auto
  next
    case True
    have v1: "valid ef1 c" "vol_ok ef1"
      using v Cons.prems(1) by (simp_all add: within_sb [OF s1(1)] within_vol_ok [OF s1(1)])
    obtain ef2 where f: "free_cluster ef1 c = Some ef2" "within {c} ef1 ef2" "fat ef2 = fat ef1"
        "\<And>c'. valid ef1 c' \<Longrightarrow> used ef2 c' \<longleftrightarrow> used ef1 c' \<and> c' \<noteq> c"
      by (rule free_cluster_result [OF v1(2,1)]) blast
    have w2: "within {c} ef ef2" using within_trans [OF s1(1) f(2)] .
    have u2: "used ef2 c' \<longleftrightarrow> used ef c' \<and> c' \<noteq> c" if "valid ef c'" for c'
      using that f(4) [of c'] s1(2) by (simp add: within_sb [OF s1(1)])
    have step: "shrink_loop ef node previous (length (c # cs)) = shrink_loop ef2 node n (length cs)"
      using n(1) s True v p f(1) by simp
    have ch2: "chain ef2 node cs = chain ef node cs"
      using Cons.prems(2) by (intro chain_within [OF w2]) (auto dest: in_set_butlastD)
    show ?thesis
    proof (cases "cs = [] \<or> n = hd cs")
      case True
      have "chain ef node cs" using Cons.prems(4) by (cases cs) auto
      with Cons.IH [of ef2 n] True Cons.prems ch2 obtain rc ef' where
        r: "shrink_loop ef2 node n (length cs) = Some (rc, ef')" "within (set cs) ef2 ef'"
          "rc = 0 \<or> rc = - EIO \<and> \<not> fat_ready ef"
          "rc = 0 \<longrightarrow> (\<forall>c. valid ef c \<longrightarrow> used ef' c = (used ef2 c \<and> c \<notin> set cs))"
        by (auto simp: within_vol_ok [OF w2] within_sb [OF w2] within_fat_ready [OF w2])
      have "within (set (c # cs)) ef ef'"
        by (rule within_trans [OF within_mono [OF w2] within_mono [OF r(2)]]) auto
      with r step u2 show ?thesis by auto
    next
      case False
      then have "n = EXFAT_CLUSTER_BAD" "\<not> fat_ready ef"
        using n(2) Cons.prems(4) by (cases cs; auto)+
      with special_invalid(2) [OF Cons.prems(1)] False w2
      have "shrink_loop ef2 node n (length cs) = Some (- EIO, ef2)"
        by (cases cs) (auto simp: within_sb)
      with step within_mono [OF w2, of "set (c # cs)"] \<open>\<not> fat_ready ef\<close> show ?thesis by auto
    qed
  qed
qed auto

definition terminated :: "exfat \<Rightarrow> exfat_node \<Rightarrow> cluster_t list \<Rightarrow> bool" where
  "terminated ef node cs \<longleftrightarrow> cs = [] \<or> is_contiguous node \<or> fat ef (last cs) = EXFAT_CLUSTER_END"

text \<open>The state after a cut of the chain \<open>cs\<close> to its first \<open>n\<close> clusters.\<close>

definition cropped :: "exfat \<Rightarrow> exfat_node \<Rightarrow> cluster_t list \<Rightarrow> nat \<Rightarrow> exfat \<Rightarrow> exfat_node \<Rightarrow> bool" where
  "cropped ef node cs n ef' node' \<longleftrightarrow>
     owns ef' node' (take n cs) \<and> fptr_ok node' (take n cs) \<and> terminated ef' node' (take n cs) \<and>
     (\<forall>c. valid ef c \<longrightarrow> used ef' c = (used ef c \<and> c \<notin> set (drop n cs))) \<and>
     (\<exists>s d. node' = node\<lparr>start_cluster := s, is_dirty := d, fptr_index := 0, fptr_cluster := s\<rparr>)"

lemma owns_take_terminated:
  assumes "owns ef node cs" "0 < n" "n \<le> length cs" "within {cs ! (n - 1)} ef ef'" "used ef' = used ef"
  shows "owns ef' node (take n cs)"
proof -
  let ?t = "take n cs" and ?d = "drop n cs"
  have ne: "?t \<noteq> []" using assms(2,3) by auto
  have o: "start_cluster node = hd cs" "distinct cs" "\<forall>c\<in>set cs. valid ef c \<and> used ef c" "chain ef node cs"
    using assms(1) ne by (auto simp: owns_def split: if_splits)
  have "chain ef node (?t @ ?d)" using o(4) by simp
  then have "chain ef node ?t" by (simp only: successively_append_iff)
  moreover have "last ?t = cs ! (n - 1)" using last_conv_nth [OF ne] assms(2,3) by simp
  then have "c \<noteq> cs ! (n - 1)" if "c \<in> set (butlast ?t)" for c
    using that o(2) ne by (metis append_butlast_last_id distinct_take distinct_append disjoint_iff list.set_intros(1))
  then have "chain ef' node ?t = chain ef node ?t"
    by (intro chain_within [OF assms(4)]) auto
  ultimately show ?thesis
    using o ne assms(2,5) by (auto simp: owns_def within_sb [OF assms(4)] hd_take dest: in_set_takeD)
qed

lemma crop_result:
  assumes "vol_ok ef" "owns ef node cs" "0 < n" "n < length cs" "c = cs ! (n - 1)"
    and "p = hd (drop n cs) \<or> p = EXFAT_CLUSTER_BAD \<and> \<not> fat_ready ef"
    and "set_next_cluster ef (is_contiguous node) c EXFAT_CLUSTER_END = (ef1, True)"
    and "node1 = node\<lparr>fptr_index := 0, fptr_cluster := start_cluster node\<rparr>"
  shows "\<exists>rc ef'. shrink_loop ef1 node1 p (length cs - n) = Some (rc, ef') \<and> within (set cs) ef ef' \<and>
    (rc = 0 \<or> rc = - EIO \<and> \<not> fat_ready ef) \<and> (rc = 0 \<longrightarrow> cropped ef node cs n ef' node1)"
proof -
  let ?t = "take n cs" and ?d = "drop n cs"
  have "cs \<noteq> []" using assms(4) by auto
  then have td: "?t \<noteq> []" "?d \<noteq> []" "distinct (?t @ ?d)" "set ?t \<inter> set ?d = {}" "chain ef node (?t @ ?d)"
    "\<forall>c\<in>set cs. valid ef c" "hd ?t = hd cs" "start_cluster node = hd cs"
    using assms(2-4) set_take_disj_set_drop_if_distinct [of cs n n] by (auto simp: owns_def hd_take)
  have cl: "c = last ?t" using assms(3-5) last_conv_nth [OF td(1)] by simp
  with td(1) have ct: "c \<in> set ?t" "c = last ?t" by simp_all
  then have v: "valid ef c" "c \<notin> set ?d" using td(4,6) by (auto dest: in_set_takeD)
  note s1 = set_next_cluster_result [OF assms(7,1) v(1)]
  have "chain ef node ?d" using td(5) by (simp only: successively_append_iff)
  with chain_within [OF s1(1), of ?d node] v(2) have "chain ef1 node ?d" by (auto dest: in_set_butlastD)
  then have ch1: "chain ef1 node1 ?d" by (simp add: assms(8) succ_cluster_def [abs_def])
  have v1: "\<forall>c\<in>set ?d. valid ef1 c" "vol_ok ef1" "distinct ?d" 
    using td(3,6) assms(1) by (auto simp: within_sb [OF s1(1)] within_vol_ok [OF s1(1)] dest: in_set_dropD)
  show ?thesis
  proof (cases "p = hd ?d")
    case True
    from shrink_loop_result [OF v1(2,3,1) ch1, of p] True obtain rc ef' where
      r: "shrink_loop ef1 node1 p (length ?d) = Some (rc, ef')" "within (set ?d) ef1 ef'"
        "rc = 0 \<or> rc = - EIO \<and> \<not> fat_ready ef1"
        "rc = 0 \<longrightarrow> (\<forall>c. valid ef1 c \<longrightarrow> used ef' c = (used ef1 c \<and> c \<notin> set ?d))" by auto
    have "cropped ef node cs n ef' node1" if "rc = 0"
    proof -
      have "owns ef1 node ?t"
        using owns_take_terminated [OF assms(2,3) less_imp_le [OF assms(4)], of ef1] s1(1,2) assms(5) by simp
      from within_owns [OF r(2) this] td(4) have "owns ef' node1 ?t"
        by (simp add: owns_def assms(8) succ_cluster_def [abs_def])
      moreover have "fptr_ok node1 ?t"
        using td(1,7,8) assms(3,4) by (auto simp: fptr_ok_def assms(8) hd_conv_nth)
      moreover have "terminated ef' node1 ?t"
        using s1(4) within_fat [OF r(2) v(2)] ct(2) by (auto simp: terminated_def assms(8))
      moreover have "\<exists>s d. node1 = node\<lparr>start_cluster := s, is_dirty := d, fptr_index := 0, fptr_cluster := s\<rparr>"
        by (rule exI [of _ "start_cluster node"], rule exI [of _ "is_dirty node"]) (simp add: assms(8))
      ultimately show ?thesis
        using r(4) that s1(2) by (simp add: cropped_def within_sb [OF s1(1)])
    qed
    moreover have "within (set cs) ef ef'"
      by (rule within_trans [OF within_mono [OF s1(1)] within_mono [OF r(2)]])
        (use ct in \<open>auto dest: in_set_takeD in_set_dropD\<close>)
    ultimately show ?thesis using r by (auto simp: within_fat_ready [OF s1(1)])
  next
    case False
    with assms(6) special_invalid(2) [OF v1(2)] td(2)
    have "shrink_loop ef1 node1 p (length ?d) = Some (- EIO, ef1)" "\<not> fat_ready ef"
      by (cases ?d; auto)+
    moreover have "within (set cs) ef ef1"
      by (rule within_mono [OF s1(1)]) (use ct in \<open>auto dest: in_set_takeD\<close>)
    ultimately show ?thesis by auto
  qed
qed

lemma shrink_file_result:
  assumes "vol_ok ef" "owns ef node cs" "fptr_ok node cs" "length cs = unat current"
    and "0 < unat difference" "unat difference \<le> unat current"
  shows "\<exists>rc ef' node'. shrink_file ef node current difference = Some (rc, ef', node') \<and> within (set cs) ef ef' \<and>
    (rc = 0 \<or> rc = - EIO \<and> \<not> fat_ready ef) \<and>
    (rc = 0 \<longrightarrow> cropped ef node cs (unat current - unat difference) ef' node')"
proof -
  define n where "n = unat current - unat difference"
  have "cs \<noteq> []" using assms(4-6) by auto
  then have cs: "cs \<noteq> []" "distinct cs" "\<forall>c\<in>set cs. valid ef c" "\<forall>c\<in>set cs. used ef c" "chain ef node cs"
    "start_cluster node = hd cs"
    using assms(2) by (auto simp: owns_def)
  have "start_cluster node \<noteq> EXFAT_CLUSTER_FREE"
    using cs special_invalid(3) [OF assms(1)] by (metis hd_in_set)
  then have g: "\<not> (difference = 0 \<or> start_cluster node = EXFAT_CLUSTER_FREE \<or> current < difference)"
    using assms(5,6) by (auto simp: word_less_nat_alt)
  have dl: "length (drop n cs) = unat difference" using assms(4,6) by (simp add: n_def)
  show ?thesis
  proof (cases "current > difference")
    case False
    then have n0: "n = 0" using assms(6) by (simp add: n_def word_less_nat_alt)
    let ?node = "node\<lparr>start_cluster := EXFAT_CLUSTER_FREE, is_dirty := True, fptr_index := 0, fptr_cluster := EXFAT_CLUSTER_FREE\<rparr>"
    have "chain ef ?node cs" using cs(5) by (simp add: succ_cluster_def [abs_def])
    from shrink_loop_result [OF assms(1) cs(2,3) this, of "hd cs"] obtain rc ef' where
      r: "shrink_loop ef ?node (hd cs) (length cs) = Some (rc, ef')" "within (set cs) ef ef'"
        "rc = 0 \<or> rc = - EIO \<and> \<not> fat_ready ef"
        "rc = 0 \<longrightarrow> (\<forall>c. valid ef c \<longrightarrow> used ef' c = (used ef c \<and> c \<notin> set cs))" by auto
    have "shrink_file ef node current difference = Some (rc, ef', ?node)"
      using g False r(1) dl n0 cs(6) by (simp add: shrink_file_def)
    moreover have "rc = 0 \<longrightarrow> cropped ef node cs n ef' ?node"
      using r(4) n0 by (auto simp: cropped_def owns_def fptr_ok_def terminated_def)
    ultimately show ?thesis using r n_def by blast
  next
    case True
    let ?i = "current - difference - 1"
    have n: "0 < n" "n < length cs" "unat ?i = n - 1"
      using True assms(4,5,6)
      by (simp_all add: n_def word_less_nat_alt unat_sub word_le_nat_alt)
    have ul: "unat ?i < length cs" using n by simp
    obtain c where a: "exfat_advance_cluster ef node ?i = Some (c, node\<lparr>fptr_index := ?i, fptr_cluster := c\<rparr>)"
        "c = cs ! unat ?i \<or> CLUSTER_INVALID (sb ef) c \<and> \<not> fat_ready ef"
      using exfat_advance_cluster_result [OF assms(1-3) ul] .
    let ?node = "node\<lparr>fptr_index := ?i, fptr_cluster := c\<rparr>"
    show ?thesis
    proof (cases "CLUSTER_INVALID (sb ef) c")
      case True
      then have "c \<noteq> cs ! unat ?i" using cs(3) n by auto
      with a(2) have "\<not> fat_ready ef" by blast
      then show ?thesis using g \<open>current > difference\<close> a(1) True by (simp add: shrink_file_def)
    next
      case False
      with a(2) n(3) have c: "c = cs ! (n - 1)" by auto
      obtain p where p: "exfat_next_cluster ef ?node c = Some p"
          "p = succ_cluster ef ?node c \<or> p = EXFAT_CLUSTER_BAD \<and> \<not> fat_ready ef"
        using exfat_next_cluster_result [OF False] .
      have "succ_cluster ef ?node c = hd (drop n cs)"
        using chain_nth [OF cs(5), of "n - 1"] n by (simp add: c succ_cluster_def hd_drop_conv_nth)
      with p(2) have pn: "p = hd (drop n cs) \<or> p = EXFAT_CLUSTER_BAD \<and> \<not> fat_ready ef" by simp
      obtain ef1 ok where s: "set_next_cluster ef (is_contiguous node) c EXFAT_CLUSTER_END = (ef1, ok)" by fastforce
      let ?node1 = "node\<lparr>fptr_index := 0, fptr_cluster := start_cluster node\<rparr>"
      have run: "shrink_file ef node current difference =
          (if ok then map_option (\<lambda>(rc, ef'). (rc, ef', ?node1)) (shrink_loop ef1 ?node1 p (length cs - n))
           else Some (- EIO, ef1, ?node))"
        using g \<open>current > difference\<close> a(1) False p(1) s dl
        by (auto simp: shrink_file_def map_option_case split: option.splits)
      show ?thesis
      proof (cases ok)
        case True
        with crop_result [OF assms(1,2) n(1,2) c pn _ refl, of ef1] s run n_def show ?thesis by auto
      next
        case False
        with set_next_cluster_result [OF s assms(1) \<open>valid ef c\<close>] run within_mono [of "{c}" ef ef1 "set cs"] c n
        show ?thesis by auto
      qed
    qed
  qed
qed

section \<open>Growing\<close>

lemma unat_plus_1: "unat (a :: 'a::len word) + 1 < 2 ^ LENGTH('a) \<Longrightarrow> unat (a + 1) = unat a + 1"
  by (simp add: unat_word_ariths)

lemma contiguous_nth:
  assumes "successively (\<lambda>a b. a + 1 = b) cs" "\<forall>c\<in>set cs. valid ef c" "i < length cs"
  shows "unat (cs ! i) = unat (hd cs) + i"
  using assms(3)
proof (induction i)
  case 0
  then show ?case by (cases cs) auto
next
  case (Suc i)
  then have n: "cs ! Suc i = 1 + cs ! i" using successively_nth [OF assms(1), of i] by (simp add: add.commute)
  have "2 \<le> unat (cs ! Suc i)" using assms(2) Suc.prems nth_mem valid_nat by blast
  then have "1 + cs ! i \<noteq> 0" unfolding n by (metis not_numeral_le_zero unat_0)
  with Suc n show ?case by (simp add: unatSuc)
qed

lemma noncontiguous_loop_result:
  assumes "vol_ok ef" "successively (\<lambda>a b. a + 1 = b) cs" "\<forall>c\<in>set cs. valid ef c" "distinct cs" "cs \<noteq> []"
    and "noncontiguous_loop ef (hd cs) (length cs - 1) = (ef', ok)"
  shows "within (set cs) ef ef'" "used ef' = used ef" "\<not> ok \<Longrightarrow> \<not> fat_ready ef"
    "ok \<Longrightarrow> successively (\<lambda>a b. fat ef' a = b) cs"
proof -
  have "within (set cs) ef ef' \<and> used ef' = used ef \<and> (\<not> ok \<longrightarrow> \<not> fat_ready ef) \<and>
      (ok \<longrightarrow> successively (\<lambda>a b. fat ef' a = b) cs)"
    using assms
  proof (induction cs arbitrary: ef rule: induct_list012)
    case (3 c c2 cs)
    obtain ef1 ok1 where s: "set_next_cluster ef False c (c + 1) = (ef1, ok1)" by fastforce
    have v: "valid ef c" and c2: "c2 = c + 1" using "3.prems" by auto
    note s1 = set_next_cluster_result [OF s "3.prems"(1) v]
    show ?case
    proof (cases ok1)
      case False
      with "3.prems"(6) s s1 within_mono [OF s1(1), of "set (c # c2 # cs)"] show ?thesis by auto
    next
      case True
      then have run: "noncontiguous_loop ef1 (hd (c2 # cs)) (length (c2 # cs) - 1) = (ef', ok)"
        using "3.prems"(6) s c2 by simp
      have r: "within (set (c2 # cs)) ef1 ef'" "used ef' = used ef1" "\<not> ok \<longrightarrow> \<not> fat_ready ef1"
          "ok \<longrightarrow> successively (\<lambda>a b. fat ef' a = b) (c2 # cs)"
        using "3.IH"(2) [OF _ _ _ _ _ run] "3.prems"
        by (simp_all add: within_sb [OF s1(1)] within_vol_ok [OF s1(1)])
      have "fat ef' c = c2"
        using within_fat [OF r(1), of c] s1(4) True "3.prems"(4) c2 by simp
      moreover have "within (set (c # c2 # cs)) ef ef'"
        by (rule within_trans [OF within_mono [OF s1(1)] within_mono [OF r(1)]]) auto
      ultimately show ?thesis using r s1(2) by (simp add: within_fat_ready [OF s1(1)])
    qed
  qed auto
  then show "within (set cs) ef ef'" "used ef' = used ef" "\<not> ok \<Longrightarrow> \<not> fat_ready ef"
    "ok \<Longrightarrow> successively (\<lambda>a b. fat ef' a = b) cs" by blast+
qed

lemma make_noncontiguous_result:
  assumes "vol_ok ef" "successively (\<lambda>a b. a + 1 = b) cs" "\<forall>c\<in>set cs. valid ef c" "distinct cs" "cs \<noteq> []"
    and "make_noncontiguous ef (hd cs) (last cs) = (ef', ok)"
  shows "within (set cs) ef ef'" "used ef' = used ef" "\<not> ok \<Longrightarrow> \<not> fat_ready ef"
    "ok \<Longrightarrow> successively (\<lambda>a b. fat ef' a = b) cs"
proof -
  have "unat (last cs) - unat (hd cs) = length cs - 1"
    using contiguous_nth [OF assms(2,3), of "length cs - 1"] assms(5) by (simp add: last_conv_nth)
  then have "noncontiguous_loop ef (hd cs) (length cs - 1) = (ef', ok)"
    using assms(6) by (simp add: make_noncontiguous_def)
  note r = noncontiguous_loop_result [OF assms(1-5) this]
  show "within (set cs) ef ef'" "used ef' = used ef" "\<not> ok \<Longrightarrow> \<not> fat_ready ef"
    "ok \<Longrightarrow> successively (\<lambda>a b. fat ef' a = b) cs" by (fact r)+
qed

text \<open>Appending one cluster: what one turn of the loop of \<^verbatim>\<open>grow_file\<close> does with a cluster it got.\<close>

lemma extend_result:
  assumes "vol_ok ef" "owns ef node cs" "cs \<noteq> []"
    and "allocate_cluster ef (last cs + 1) = (ef1, nxt)" "valid ef1 nxt"
    and "(ef2, node2, ok2) =
      (if nxt \<noteq> last cs + 1 \<and> is_contiguous node then
         let (ef, ok) = make_noncontiguous ef1 (start_cluster node) (last cs)
         in if ok then (ef, node\<lparr>is_contiguous := False, is_dirty := True\<rparr>, True) else (ef, node, False)
       else (ef1, node, True))"
    and "set_next_cluster ef2 (is_contiguous node2) (last cs) nxt = (ef3, ok3)"
  shows "within (insert nxt (set cs)) ef ef2" "\<not> ok2 \<Longrightarrow> \<not> fat_ready ef"
    "within (insert nxt (set cs)) ef ef3" "\<not> ok3 \<Longrightarrow> \<not> fat_ready ef"
    "ok2 \<Longrightarrow> ok3 \<Longrightarrow> owns ef3 node2 (cs @ [nxt])"
    "\<And>c. valid ef c \<Longrightarrow> used ef3 c = (used ef c \<or> c = nxt)"
proof -
  let ?S = "insert nxt (set cs)"
  note a = allocate_cluster_result [OF assms(1,4,5)]
  have cs: "distinct cs" "\<forall>c\<in>set cs. valid ef c \<and> used ef c" "chain ef node cs" "start_cluster node = hd cs"
    using assms(2,3) by (auto simp: owns_def)
  have nn: "nxt \<notin> set cs" using cs(2) a(2) by auto
  have v1: "vol_ok ef1" "\<forall>c\<in>set cs. valid ef1 c"
    using assms(1) cs(2) by (simp_all add: within_vol_ok [OF a(3)] within_sb [OF a(3)])
  have two: "within (set cs) ef1 ef2 \<and> used ef2 = used ef1 \<and> (\<not> ok2 \<longrightarrow> \<not> fat_ready ef1) \<and>
      (ok2 \<longrightarrow> chain ef2 node2 cs \<and> (is_contiguous node2 \<longrightarrow> nxt = last cs + 1)) \<and> start_cluster node2 = start_cluster node"
  proof (cases "nxt \<noteq> last cs + 1 \<and> is_contiguous node")
    case True
    then have "successively (\<lambda>a b. a + 1 = b) cs" using cs(3) by (simp add: succ_cluster_def [abs_def])
    moreover obtain e ok where m: "make_noncontiguous ef1 (hd cs) (last cs) = (e, ok)" by fastforce
    ultimately show ?thesis
      using make_noncontiguous_result [OF v1(1) _ v1(2) cs(1) assms(3) m] assms(6) True
      by (cases ok) (auto simp: cs(4) succ_cluster_def [abs_def])
  next
    case False
    then have "ef2 = ef1" "node2 = node" "ok2" using assms(6) by (auto split: if_splits)
    moreover have "succ_cluster ef1 node = succ_cluster ef node"
      by (simp add: succ_cluster_def fun_eq_iff a(4))
    ultimately show ?thesis using False cs(3) by auto
  qed
  then have t: "within (set cs) ef1 ef2" by blast
  show w2: "within ?S ef ef2"
    by (rule within_trans [OF within_mono [OF a(3)] within_mono [OF t]]) auto
  show "\<not> ok2 \<Longrightarrow> \<not> fat_ready ef" using two by (simp add: within_fat_ready [OF a(3)])
  have l: "last cs \<in> set cs" "last cs \<notin> set (butlast cs)"
    using assms(3) cs(1) by (simp, metis append_butlast_last_id distinct_append disjoint_insert(1) list.simps(15))
  then have v2: "vol_ok ef2" "valid ef2 (last cs)"
    using assms(1) cs(2) by (simp_all add: within_vol_ok [OF w2] within_sb [OF w2])
  note s = set_next_cluster_result [OF assms(7) v2]
  show w3: "within ?S ef ef3"
    by (rule within_trans [OF w2 within_mono [OF s(1)]]) (use l in auto)
  show "\<not> ok3 \<Longrightarrow> \<not> fat_ready ef" using s(3) by (simp add: within_fat_ready [OF w2])
  show u: "used ef3 c = (used ef c \<or> c = nxt)" if "valid ef c" for c
    using two s(2) a(5) [OF that] by simp
  show "owns ef3 node2 (cs @ [nxt])" if "ok2" "ok3"
  proof -
    have "chain ef3 node2 cs"
      using two that(1) l(2) chain_within [OF s(1), of cs node2] by simp
    moreover have "succ_cluster ef3 node2 (last cs) = nxt"
      using two that s(4) by (auto simp: succ_cluster_def)
    ultimately have "chain ef3 node2 (cs @ [nxt])"
      using assms(3) by (simp add: chain_append_iff)
    then show ?thesis
      using two cs assms(3) nn a(1) u by (auto simp: owns_def within_sb [OF w3])
  qed
qed

text \<open>The loop. Fields of the node other than those that describe its clusters do not change.\<close>

definition node_frame :: "exfat_node \<Rightarrow> exfat_node" where
  "node_frame node = node\<lparr>start_cluster := 0, is_dirty := False, fptr_index := 0, fptr_cluster := 0, is_contiguous := False\<rparr>"

definition free_set :: "exfat \<Rightarrow> cluster_t set" where
  "free_set ef = {c. valid ef c \<and> \<not> used ef c}"

definition grown :: "exfat \<Rightarrow> exfat_node \<Rightarrow> cluster_t list \<Rightarrow> cluster_t list \<Rightarrow> exfat \<Rightarrow> exfat_node \<Rightarrow> bool" where
  "grown ef node cs new ef' node' \<longleftrightarrow>
     owns ef' node' (cs @ new) \<and> fptr_ok node' (cs @ new) \<and> set new \<subseteq> free_set ef \<and>
     (\<forall>c. valid ef c \<longrightarrow> used ef' c = (used ef c \<or> c \<in> set new)) \<and> node_frame node' = node_frame node"

definition undone :: "exfat \<Rightarrow> exfat_node \<Rightarrow> cluster_t list \<Rightarrow> nat \<Rightarrow> exfat \<Rightarrow> exfat_node \<Rightarrow> bool" where
  "undone ef node cs n ef' node' \<longleftrightarrow>
     owns ef' node' (take n cs) \<and> fptr_ok node' (take n cs) \<and> terminated ef' node' (take n cs) \<and>
     (\<forall>c. valid ef c \<longrightarrow> used ef' c = (used ef c \<and> c \<notin> set (drop n cs))) \<and> node_frame node' = node_frame node"

lemma cropped_undone: "cropped ef node cs n ef' node' \<Longrightarrow> undone ef node cs n ef' node'"
  by (auto simp: cropped_def undone_def node_frame_def)

lemma within_free_set:
  assumes "within S ef ef1" "S \<subseteq> set cs \<union> free_set ef" "free_set ef1 \<subseteq> free_set ef" "set cs1 \<subseteq> set cs \<union> free_set ef"
    and "within (set cs1 \<union> free_set ef1) ef1 ef2"
  shows "within (set cs \<union> free_set ef) ef ef2"
  by (rule within_trans [OF within_mono [OF assms(1)] within_mono [OF assms(5)]]) (use assms in auto)

text \<open>One turn that finds no free cluster gives back what the call has allocated.\<close>

lemma grow_loop_full:
  assumes "vol_ok ef" "owns ef node cs" "fptr_ok node cs" "cs \<noteq> []" "previous = last cs"
    and "length cs = unat current + unat allocated" "length cs < 2 ^ 32"
    and "allocated = 0 \<Longrightarrow> terminated ef node cs"
    and "allocate_cluster ef (last cs + 1) = (ef1, nxt)" "\<not> valid ef1 nxt"
  shows "\<exists>ef' node' previous'. grow_loop ef node current allocated previous (Suc k) = Some (- ENOSPC, ef', node', previous') \<and>
    within (set cs) ef ef' \<and> free_set ef = {} \<and> (fat_ready ef \<longrightarrow> undone ef node cs (unat current) ef' node')"
proof -
  have full: "\<And>c. valid ef c \<Longrightarrow> used ef c" "ef1 = ef"
    using assms(10) by (cases rule: allocate_cluster_cases [OF assms(1,9)]; auto)+
  then have f: "free_set ef = {}" by (auto simp: free_set_def)
  show ?thesis
  proof (cases "allocated = 0")
    case True
    then have "undone ef node cs (unat current) ef node"
      using assms(2,3,6,8) by (simp add: undone_def)
    with True f assms(5,9,10) full(2) show ?thesis by simp
  next
    case False
    then have u: "length cs = unat (current + allocated)" "0 < unat allocated"
      using assms(6,7) by (simp_all add: unat_word_ariths unat_gt_0)
    then have n: "unat (current + allocated) - unat allocated = unat current" using assms(6) by simp
    obtain rc ef' node' where r: "shrink_file ef node (current + allocated) allocated = Some (rc, ef', node')"
        "within (set cs) ef ef'" "rc = 0 \<or> rc = - EIO \<and> \<not> fat_ready ef" "rc = 0 \<longrightarrow> cropped ef node cs (unat current) ef' node'"
      using shrink_file_result [OF assms(1-3) u] u assms(6) unfolding n by auto
    then show ?thesis
      using False f assms(5,9,10) full(2) by (auto dest: cropped_undone)
  qed
qed

lemma grow_loop_result:
  assumes "vol_ok ef" "owns ef node cs" "fptr_ok node cs" "cs \<noteq> []" "previous = last cs"
    and "length cs = unat current + unat allocated" "length cs + k < 2 ^ 32"
    and "allocated = 0 \<Longrightarrow> terminated ef node cs"
  shows "\<exists>rc ef' node' previous'. grow_loop ef node current allocated previous k = Some (rc, ef', node', previous') \<and>
    within (set cs \<union> free_set ef) ef ef' \<and>
    (rc = 0 \<longrightarrow> (\<exists>new. length new = k \<and> previous' = last (cs @ new) \<and> grown ef node cs new ef' node')) \<and>
    (rc \<noteq> 0 \<and> fat_ready ef \<longrightarrow> rc = - ENOSPC \<and> card (free_set ef) < k \<and> undone ef node cs (unat current) ef' node')"
  using assms
proof (induction k arbitrary: ef node cs allocated previous)
  case 0
  then show ?case by (auto simp: grown_def intro!: exI [of _ "[]"])
next
  case (Suc k)
  obtain ef1 nxt where a: "allocate_cluster ef (last cs + 1) = (ef1, nxt)" by fastforce
  show ?case
  proof (cases "valid ef1 nxt")
    case False
    with grow_loop_full [OF Suc.prems(1-6) _ Suc.prems(8) a, of k] Suc.prems(7)
    obtain ef' node' previous' where
      r: "grow_loop ef node current allocated previous (Suc k) = Some (- ENOSPC, ef', node', previous')"
        "within (set cs) ef ef'" "free_set ef = {}" "fat_ready ef \<longrightarrow> undone ef node cs (unat current) ef' node'"
      by auto
    with within_mono [OF r(2), of "set cs \<union> free_set ef"] show ?thesis by simp
  next
    case True
    let ?m = "if nxt \<noteq> last cs + 1 \<and> is_contiguous node then
         let (ef, ok) = make_noncontiguous ef1 (start_cluster node) (last cs)
         in if ok then (ef, node\<lparr>is_contiguous := False, is_dirty := True\<rparr>, True) else (ef, node, False)
       else (ef1, node, True)"
    obtain ef2 node2 ok2 where m: "(ef2, node2, ok2) = ?m" by (cases ?m) simp
    obtain ef3 ok3 where s: "set_next_cluster ef2 (is_contiguous node2) (last cs) nxt = (ef3, ok3)" by fastforce
    note e = extend_result [OF Suc.prems(1,2,4) a True m s]
    have run: "grow_loop ef node current allocated previous (Suc k) =
        (if \<not> ok2 then Some (- EIO, ef2, node2, previous) else if \<not> ok3 then Some (- EIO, ef3, node2, previous)
         else grow_loop ef3 node2 current (allocated + 1) nxt k)"
      using a True m [symmetric] s Suc.prems(5) by (simp add: Let_def)
    note al = allocate_cluster_result [OF Suc.prems(1) a True]
    have fs: "free_set ef = insert nxt (free_set ef3)" "nxt \<notin> free_set ef3"
      using al(1,2) e(6) by (auto simp: free_set_def within_sb [OF e(3)])
    have S: "insert nxt (set cs) \<subseteq> set cs \<union> free_set ef" using fs by auto
    show ?thesis
    proof (cases "ok2 \<and> ok3")
      case False
      then show ?thesis
        using run e(2,4) within_mono [OF e(1) S] within_mono [OF e(3) S] by auto
    next
      case True
      let ?cs = "cs @ [nxt]"
      have al1: "unat (allocated + 1) = unat allocated + 1"
        using Suc.prems(6,7) by (intro unat_plus_1) simp
      have n2: "node_frame node2 = node_frame node" "fptr_index node2 = fptr_index node" "fptr_cluster node2 = fptr_cluster node"
        using m by (auto simp: node_frame_def split: if_splits prod.splits)
      have i: "vol_ok ef3" "owns ef3 node2 ?cs" "fptr_ok node2 ?cs"
        using Suc.prems(1,3,4) e(5) True n2 by (auto simp: within_vol_ok [OF e(3)] fptr_ok_def nth_append)
      have l: "?cs \<noteq> []" "nxt = last ?cs" "length ?cs = unat current + unat (allocated + 1)" "length ?cs + k < 2 ^ 32"
        "allocated + 1 = 0 \<Longrightarrow> terminated ef3 node2 ?cs"
        using al1 Suc.prems(6,7) by (auto dest: arg_cong [of _ _ unat])
      obtain rc ef' node' previous' where
        r: "grow_loop ef3 node2 current (allocated + 1) nxt k = Some (rc, ef', node', previous')"
          "within (set ?cs \<union> free_set ef3) ef3 ef'"
          "rc = 0 \<longrightarrow> (\<exists>new. length new = k \<and> previous' = last (?cs @ new) \<and> grown ef3 node2 ?cs new ef' node')"
          "rc \<noteq> 0 \<and> fat_ready ef3 \<longrightarrow> rc = - ENOSPC \<and> card (free_set ef3) < k \<and> undone ef3 node2 ?cs (unat current) ef' node'"
        using Suc.IH [OF i l] by blast
      have "within (set cs \<union> free_set ef) ef ef'"
        by (rule within_free_set [OF e(3) S _ _ r(2)]) (use fs in auto)
      moreover have "\<exists>new. length new = Suc k \<and> previous' = last (cs @ new) \<and> grown ef node cs new ef' node'" if "rc = 0"
      proof -
        from that r(3) obtain new where "length new = k" "previous' = last (?cs @ new)" "grown ef3 node2 ?cs new ef' node'"
          by blast
        then show ?thesis
          using fs e(6) n2(1)
          by (intro exI [of _ "nxt # new"]) (auto simp: grown_def within_sb [OF e(3)])
      qed
      moreover have "rc = - ENOSPC \<and> card (free_set ef) < Suc k \<and> undone ef node cs (unat current) ef' node'"
        if "rc \<noteq> 0" "fat_ready ef"
      proof -
        have u: "rc = - ENOSPC" "card (free_set ef3) < k" "undone ef3 node2 ?cs (unat current) ef' node'"
          using r(4) that by (auto simp: within_fat_ready [OF e(3)])
        have c: "unat current \<le> length cs" using Suc.prems(6) by simp
        have "undone ef node cs (unat current) ef' node'"
          using u(3) c n2(1) e(6) al(2) by (auto simp: undone_def within_sb [OF e(3)] dest: in_set_dropD)
        with u fs show ?thesis by simp
      qed
      ultimately show ?thesis using run True r(1) by auto
    qed
  qed
qed

text \<open>Closing the chain after the loop.\<close>

lemma last_notin_butlast: "distinct cs \<Longrightarrow> cs \<noteq> [] \<Longrightarrow> last cs \<notin> set (butlast cs)"
  by (metis append_butlast_last_id distinct_append disjoint_insert(1) list.simps(15))

lemma close_chain:
  assumes "vol_ok ef" "owns ef node cs" "cs \<noteq> []"
    and "set_next_cluster ef (is_contiguous node) (last cs) EXFAT_CLUSTER_END = (ef', ok)"
  shows "within (set cs) ef ef'" "used ef' = used ef" "\<not> ok \<Longrightarrow> \<not> fat_ready ef"
    "owns ef' node cs" "ok \<Longrightarrow> terminated ef' node cs"
proof -
  have v: "valid ef (last cs)" using assms(2,3) by (simp add: owns_def)
  note s = set_next_cluster_result [OF assms(4,1) v]
  show "within (set cs) ef ef'" by (rule within_mono [OF s(1)]) (use assms(3) in simp)
  show "used ef' = used ef" "\<not> ok \<Longrightarrow> \<not> fat_ready ef" by (fact s(2), fact s(3))
  have "chain ef' node cs = chain ef node cs"
    by (rule chain_within [OF s(1)]) (use assms(2,3) last_notin_butlast in \<open>auto simp: owns_def\<close>)
  with assms(2,3) s(2) show "owns ef' node cs" by (simp add: owns_def within_sb [OF s(1)])
  show "terminated ef' node cs" if ok
    using s(4) that assms(3) by (auto simp: terminated_def)
qed

text \<open>The first cluster of an empty file.\<close>

lemma first_cluster_result:
  assumes "vol_ok ef" "owns ef node []" "fptr_ok node []" "allocate_cluster ef 0 = (ef1, c)" "valid ef1 c"
  defines "node1 \<equiv> node\<lparr>fptr_cluster := c, start_cluster := c, is_contiguous := True\<rparr>"
  shows "vol_ok ef1" "owns ef1 node1 [c]" "fptr_ok node1 [c]" "within (free_set ef) ef ef1"
    "free_set ef = insert c (free_set ef1)" "c \<notin> free_set ef1"
    "\<And>c'. valid ef c' \<Longrightarrow> used ef1 c' = (used ef c' \<or> c' = c)" "node_frame node1 = node_frame node"
proof -
  note a = allocate_cluster_result [OF assms(1,4,5)]
  show "vol_ok ef1" using assms(1) by (simp add: within_vol_ok [OF a(3)])
  show "owns ef1 node1 [c]" using assms(5) a(1,5) by (simp add: owns_def node1_def)
  show "fptr_ok node1 [c]" using assms(3) by (simp add: fptr_ok_def node1_def)
  show "free_set ef = insert c (free_set ef1)" "c \<notin> free_set ef1"
    using a(1,2,5) by (auto simp: free_set_def within_sb [OF a(3)])
  then show "within (free_set ef) ef ef1" by (intro within_mono [OF a(3)]) simp
  show "used ef1 c' = (used ef c' \<or> c' = c)" if "valid ef c'" for c' using a(5) [OF that] .
  show "node_frame node1 = node_frame node" by (simp add: node_frame_def node1_def)
qed

definition grow_spec :: "exfat \<Rightarrow> exfat_node \<Rightarrow> cluster_t list \<Rightarrow> nat \<Rightarrow> int \<Rightarrow> exfat \<Rightarrow> exfat_node \<Rightarrow> bool" where
  "grow_spec ef node cs n rc ef' node' \<longleftrightarrow>
     within (set cs \<union> free_set ef) ef ef' \<and>
     (rc = 0 \<longrightarrow> (\<exists>new. length new = n \<and> grown ef node cs new ef' node' \<and> terminated ef' node' (cs @ new))) \<and>
     (rc \<noteq> 0 \<and> fat_ready ef \<longrightarrow>
        rc = - ENOSPC \<and> card (free_set ef) < n \<and> undone ef node cs (length cs) ef' node')"

text \<open>The loop and the closing of the chain, from a non-empty chain of \<open>current + allocated\<close> clusters.\<close>

lemma grow_tail_result:
  assumes "vol_ok ef" "owns ef node cs" "fptr_ok node cs" "cs \<noteq> []"
    and "length cs = unat current + unat allocated" "length cs + k < 2 ^ 32"
    and "allocated = 0 \<Longrightarrow> terminated ef node cs"
  shows "\<exists>rc ef' node'.
    do { (rc, ef, node, previous) \<leftarrow> grow_loop ef node current allocated (last cs) k;
         if rc \<noteq> 0 then Some (rc, ef, node)
         else let (ef, ok) = set_next_cluster ef (is_contiguous node) previous EXFAT_CLUSTER_END
              in Some (if ok then 0 else - EIO, ef, node) } = Some (rc, ef', node') \<and>
    within (set cs \<union> free_set ef) ef ef' \<and>
    (rc = 0 \<longrightarrow> (\<exists>new. length new = k \<and> grown ef node cs new ef' node' \<and> terminated ef' node' (cs @ new))) \<and>
    (rc \<noteq> 0 \<and> fat_ready ef \<longrightarrow> rc = - ENOSPC \<and> card (free_set ef) < k \<and> undone ef node cs (unat current) ef' node')"
proof -
  obtain rc ef1 node1 p where
    r: "grow_loop ef node current allocated (last cs) k = Some (rc, ef1, node1, p)"
      "within (set cs \<union> free_set ef) ef ef1"
      "rc = 0 \<longrightarrow> (\<exists>new. length new = k \<and> p = last (cs @ new) \<and> grown ef node cs new ef1 node1)"
      "rc \<noteq> 0 \<and> fat_ready ef \<longrightarrow> rc = - ENOSPC \<and> card (free_set ef) < k \<and> undone ef node cs (unat current) ef1 node1"
    using grow_loop_result [OF assms(1-4) refl assms(5-7)] by blast
  show ?thesis
  proof (cases "rc = 0")
    case False
    with r show ?thesis by simp
  next
    case True
    with r(3) obtain new where new: "length new = k" "p = last (cs @ new)" "grown ef node cs new ef1 node1" by blast
    obtain ef2 ok where s: "set_next_cluster ef1 (is_contiguous node1) p EXFAT_CLUSTER_END = (ef2, ok)" by fastforce
    have o: "vol_ok ef1" "owns ef1 node1 (cs @ new)" "cs @ new \<noteq> []"
      using assms(1,4) new(3) by (auto simp: within_vol_ok [OF r(2)] grown_def)
    note c = close_chain [OF o, folded new(2), OF s]
    have "within (set cs \<union> free_set ef) ef ef2"
      by (rule within_trans [OF r(2) within_mono [OF c(1)]]) (use new(3) in \<open>auto simp: grown_def\<close>)
    moreover have "grown ef node cs new ef2 node1" using new(3) c(2,4) by (simp add: grown_def)
    ultimately show ?thesis
      using r(1) True s new(1) c(3,5) by (auto simp: within_fat_ready [OF r(2)])
  qed
qed

lemma grow_file_result:
  assumes "vol_ok ef" "owns ef node cs" "fptr_ok node cs" "terminated ef node cs" "length cs = unat current"
    and "0 < unat difference" "unat current + unat difference < 2 ^ 32"
  shows "\<exists>rc ef' node'. grow_file ef node current difference = Some (rc, ef', node') \<and>
    grow_spec ef node cs (unat difference) rc ef' node'"
proof (cases "cs = []")
  case True
  have z: "start_cluster node = EXFAT_CLUSTER_FREE" "fptr_index node = 0" "difference \<noteq> 0" "unat current = 0"
    using assms(2,3,5,6) True by (auto simp: owns_def fptr_ok_def)
  obtain ef1 c where a: "allocate_cluster ef 0 = (ef1, c)" by fastforce
  show ?thesis
  proof (cases "valid ef1 c")
    case False
    then have "free_set ef = {}" "ef1 = ef"
      by (cases rule: allocate_cluster_cases [OF assms(1) a]; auto simp: free_set_def)+
    with False z a assms(2-4,6) True show ?thesis
      by (simp add: grow_file_def grow_spec_def undone_def)
  next
    case valid: True
    let ?node = "node\<lparr>fptr_cluster := c, start_cluster := c, is_contiguous := True\<rparr>"
    note f = first_cluster_result [OF assms(1) assms(2,3) [unfolded True] a valid]
    have l: "[c] \<noteq> []" "length [c] = unat current + unat (1::u32)" "length [c] + (unat difference - 1) < 2 ^ 32"
      "(1::u32) = 0 \<Longrightarrow> terminated ef1 ?node [c]" using z(4) assms(6,7) by auto
    from grow_tail_result [OF f(1-3) l] valid z a obtain rc ef' node' where
      r: "grow_file ef node current difference = Some (rc, ef', node')" "within (set [c] \<union> free_set ef1) ef1 ef'"
        "rc = 0 \<longrightarrow> (\<exists>new. length new = unat difference - 1 \<and> grown ef1 ?node [c] new ef' node' \<and> terminated ef' node' ([c] @ new))"
        "rc \<noteq> 0 \<and> fat_ready ef1 \<longrightarrow> rc = - ENOSPC \<and> card (free_set ef1) < unat difference - 1 \<and> undone ef1 ?node [c] (unat current) ef' node'"
      by (auto simp: grow_file_def)
    have "within (free_set ef) ef ef'"
      by (rule within_trans [OF f(4) within_mono [OF r(2)]]) (use f(5) in auto)
    moreover have "\<exists>new. length new = unat difference \<and> grown ef node [] new ef' node' \<and> terminated ef' node' new" if "rc = 0"
    proof -
      from that r(3) obtain new where "length new = unat difference - 1" "grown ef1 ?node [c] new ef' node'"
        "terminated ef' node' ([c] @ new)" by blast
      then show ?thesis
        using f(5,7,8) assms(6) by (intro exI [of _ "c # new"]) (auto simp: grown_def within_sb [OF f(4)])
    qed
    moreover have "rc = - ENOSPC \<and> card (free_set ef) < unat difference \<and> undone ef node [] 0 ef' node'"
      if "rc \<noteq> 0" "fat_ready ef"
    proof -
      have u: "rc = - ENOSPC" "card (free_set ef1) < unat difference - 1" "undone ef1 ?node [c] 0 ef' node'"
        using r(4) that z(4) by (auto simp: within_fat_ready [OF f(4)])
      moreover have "\<not> used ef c" using f(5) by (auto simp: free_set_def)
      ultimately have "undone ef node [] 0 ef' node'"
        using f(7,8) by (auto simp: undone_def within_sb [OF f(4)])
      with u f(5,6) show ?thesis by simp
    qed
    ultimately show ?thesis using r(1) True by (simp add: grow_spec_def)
  qed
next
  case False
  have "0 < unat current" using False assms(5) by (metis length_greater_0_conv)
  then have "unat (current - 1) = unat current - 1" by (simp add: unat_sub word_le_nat_alt)
  with \<open>0 < unat current\<close> have u: "unat (current - 1) = length cs - 1" "unat (current - 1) < length cs" "difference \<noteq> 0"
    using assms(5,6) by auto
  have st: "start_cluster node \<noteq> EXFAT_CLUSTER_FREE"
    using assms(2) False special_invalid(3) [OF assms(1)] by (metis hd_in_set owns_def)
  obtain c where a: "exfat_advance_cluster ef node (current - 1) =
        Some (c, node\<lparr>fptr_index := current - 1, fptr_cluster := c\<rparr>)"
      "c = cs ! unat (current - 1) \<or> CLUSTER_INVALID (sb ef) c \<and> \<not> fat_ready ef"
    using exfat_advance_cluster_result [OF assms(1-3) u(2)] .
  let ?node = "node\<lparr>fptr_index := current - 1, fptr_cluster := c\<rparr>"
  show ?thesis
  proof (cases "valid ef c")
    case False
    moreover have "valid ef (cs ! unat (current - 1))" using assms(2) u(2) by (auto simp: owns_def)
    ultimately have "\<not> fat_ready ef" using a(2) by auto
    with False a(1) st u(3) show ?thesis by (simp add: grow_file_def grow_spec_def)
  next
    case valid: True
    with a(2) have c: "c = cs ! (length cs - 1)" "c = last cs" using False u(1) by (auto simp: last_conv_nth)
    have o: "owns ef ?node cs" "fptr_ok ?node cs" "terminated ef ?node cs"
      using assms(2,4) u False c(1) by (auto simp: owns_def succ_cluster_def [abs_def] fptr_ok_def terminated_def)
    have n: "node_frame ?node = node_frame node" by (simp add: node_frame_def)
    have l: "length cs = unat current + unat (0::u32)" "length cs + unat difference < 2 ^ 32"
      using assms(5,7) by simp_all
    from grow_tail_result [OF assms(1) o(1,2) False l o(3)] valid st a(1) u(3) c(2) obtain rc ef' node' where
      r: "grow_file ef node current difference = Some (rc, ef', node')" "within (set cs \<union> free_set ef) ef ef'"
        "rc = 0 \<longrightarrow> (\<exists>new. length new = unat difference \<and> grown ef ?node cs new ef' node' \<and> terminated ef' node' (cs @ new))"
        "rc \<noteq> 0 \<and> fat_ready ef \<longrightarrow> rc = - ENOSPC \<and> card (free_set ef) < unat difference \<and> undone ef ?node cs (unat current) ef' node'"
      by (auto simp: grow_file_def)
    then show ?thesis
      using n assms(5) by (auto simp: grow_spec_def grown_def undone_def)
  qed
qed

section \<open>Resizing a file\<close>

text \<open>A file in order: it owns as many clusters as its size needs, its chain ends where it should, and the file
  pointer and the two sizes are consistent.\<close>

definition file_ok :: "exfat \<Rightarrow> exfat_node \<Rightarrow> cluster_t list \<Rightarrow> bool" where
  "file_ok ef node cs \<longleftrightarrow>
     owns ef node cs \<and> fptr_ok node cs \<and> terminated ef node cs \<and>
     length cs = DIV_ROUND_UP (unat (node_size node)) (CLUSTER_SIZE (sb ef)) \<and> valid_size node \<le> node_size node"

text \<open>Sizes whose number of clusters the code can compute: no overflow of 64 bits when rounding up, nor of 32
  bits in the number of clusters.\<close>

definition size_fits :: "exfat \<Rightarrow> u64 \<Rightarrow> bool" where
  "size_fits ef sz \<longleftrightarrow> CLUSTER_SIZE (sb ef) \<le> 2 ^ 25 \<and> unat sz + CLUSTER_SIZE (sb ef) \<le> 2 ^ 64 \<and>
     DIV_ROUND_UP (unat sz) (CLUSTER_SIZE (sb ef)) < 2 ^ 32"

lemma unat_cluster_size64: "CLUSTER_SIZE (sb ef) \<le> 2 ^ 25 \<Longrightarrow> unat (cluster_size64 ef) = CLUSTER_SIZE (sb ef)"
  by (simp add: cluster_size64_def unsigned_of_nat take_bit_nat_eq_self)

lemma unat_bytes2clusters:
  assumes "size_fits ef sz"
  shows "unat (bytes2clusters ef sz) = DIV_ROUND_UP (unat sz) (CLUSTER_SIZE (sb ef))"
proof -
  let ?c = "CLUSTER_SIZE (sb ef)"
  have c: "unat (cluster_size64 ef) = ?c" "0 < ?c" "unat sz + ?c \<le> 2 ^ 64"
    using assms by (simp_all add: size_fits_def unat_cluster_size64)
  have e: "unat (cluster_size64 ef - 1) = ?c - 1"
    using c by (simp add: unat_sub word_le_nat_alt Suc_leI)
  have "unat sz + (?c - 1) < 2 ^ 64" using c(2,3) by linarith
  then have "unat (sz + (cluster_size64 ef - 1)) = unat sz + (?c - 1)"
    by (simp add: unat_word_ariths(1) e)
  moreover have "sz + (cluster_size64 ef - 1) = sz + cluster_size64 ef - 1" by (rule add_diff_eq)
  ultimately have "unat (sz + cluster_size64 ef - 1) = unat sz + ?c - 1"
    using c(2) by (metis Nat.add_diff_assoc One_nat_def Suc_leI)
  then have "unat ((sz + cluster_size64 ef - 1) div cluster_size64 ef) = DIV_ROUND_UP (unat sz) ?c"
    by (simp add: unat_div c(1) DIV_ROUND_UP_def)
  then show ?thesis
    using assms by (simp add: bytes2clusters_def Let_def size_fits_def unsigned_ucast_eq take_bit_nat_eq_self)
qed

text \<open>The volume after a resize of the file from the clusters \<open>cs\<close> to \<open>cs'\<close>.\<close>

definition resized :: "exfat \<Rightarrow> exfat_node \<Rightarrow> cluster_t list \<Rightarrow> u64 \<Rightarrow> exfat \<Rightarrow> exfat_node \<Rightarrow> cluster_t list \<Rightarrow> bool" where
  "resized ef node cs sz ef' node' cs' \<longleftrightarrow>
     file_ok ef' node' cs' \<and> node_size node' = sz \<and> valid_size node' = min (valid_size node) sz \<and>
     take (length cs') cs = take (length cs) cs' \<and> set cs' \<subseteq> set cs \<union> free_set ef \<and>
     (\<forall>c. valid ef c \<longrightarrow> used ef' c = (used ef c \<and> c \<notin> set cs \<or> c \<in> set cs'))"

lemma resize_clusters:
  assumes "vol_ok ef" "file_ok ef node cs" "size_fits ef (node_size node)" "size_fits ef sz"
  defines "c1 \<equiv> bytes2clusters ef (node_size node)" and "c2 \<equiv> bytes2clusters ef sz"
  shows "\<exists>rc ef' node'.
    (if c1 < c2 then grow_file ef node c1 (c2 - c1) else if c1 > c2 then shrink_file ef node c1 (c1 - c2)
     else Some (0, ef, node)) = Some (rc, ef', node') \<and>
    within (set cs \<union> free_set ef) ef ef' \<and>
    (rc = 0 \<longrightarrow> (\<exists>cs'. owns ef' node' cs' \<and> fptr_ok node' cs' \<and> terminated ef' node' cs' \<and>
        length cs' = DIV_ROUND_UP (unat sz) (CLUSTER_SIZE (sb ef)) \<and>
        take (length cs') cs = take (length cs) cs' \<and> set cs' \<subseteq> set cs \<union> free_set ef \<and> node_frame node' = node_frame node \<and>
        (\<forall>c. valid ef c \<longrightarrow> used ef' c = (used ef c \<and> c \<notin> set cs \<or> c \<in> set cs')))) \<and>
    (fat_ready ef \<and> rc \<noteq> 0 \<longrightarrow> rc = - ENOSPC \<and> length cs + card (free_set ef) < unat c2 \<and>
        undone ef node cs (length cs) ef' node')"
proof -
  have o: "owns ef node cs" "fptr_ok node cs" "terminated ef node cs" "length cs = unat c1"
    using assms(2) unat_bytes2clusters [OF assms(3)] by (auto simp: file_ok_def c1_def)
  have n2: "unat c2 = DIV_ROUND_UP (unat sz) (CLUSTER_SIZE (sb ef))"
    using unat_bytes2clusters [OF assms(4)] by (simp add: c2_def)
  have u: "\<And>c. c \<in> set cs \<Longrightarrow> used ef c" using o(1) by (auto simp: owns_def)
  consider (grow) "c1 < c2" | (shrink) "c2 < c1" | (same) "c1 = c2" by fastforce
  then show ?thesis
  proof cases
    case grow
    then have d: "unat (c2 - c1) = unat c2 - unat c1" "0 < unat (c2 - c1)" "unat c1 + unat (c2 - c1) < 2 ^ 32"
      using unsigned_less [of c2, where ?'a = nat] by (simp_all add: unat_sub word_le_nat_alt word_less_nat_alt)
    obtain rc ef' node' where r: "grow_file ef node c1 (c2 - c1) = Some (rc, ef', node')"
        "grow_spec ef node cs (unat (c2 - c1)) rc ef' node'"
      using grow_file_result [OF assms(1) o d(2,3)] by blast
    have "\<exists>cs'. owns ef' node' cs' \<and> fptr_ok node' cs' \<and> terminated ef' node' cs' \<and> length cs' = unat c2 \<and>
        take (length cs') cs = take (length cs) cs' \<and> set cs' \<subseteq> set cs \<union> free_set ef \<and> node_frame node' = node_frame node \<and>
        (\<forall>c. valid ef c \<longrightarrow> used ef' c = (used ef c \<and> c \<notin> set cs \<or> c \<in> set cs'))" if "rc = 0"
    proof -
      from r(2) that obtain new where n: "length new = unat (c2 - c1)" "grown ef node cs new ef' node'"
        "terminated ef' node' (cs @ new)" by (auto simp: grow_spec_def)
      then show ?thesis
        using d grow u o(4) by (intro exI [of _ "cs @ new"]) (auto simp: grown_def word_less_nat_alt)
    qed
    then show ?thesis using grow r d(1) o(4) n2 by (auto simp: grow_spec_def)
  next
    case shrink
    then have d: "unat (c1 - c2) = unat c1 - unat c2" "0 < unat (c1 - c2)" "unat (c1 - c2) \<le> unat c1"
      by (simp_all add: unat_sub word_le_nat_alt word_less_nat_alt)
    then have k: "unat c1 - unat (c1 - c2) = unat c2" using shrink by (simp add: word_less_nat_alt)
    obtain rc ef' node' where r: "shrink_file ef node c1 (c1 - c2) = Some (rc, ef', node')" "within (set cs) ef ef'"
        "rc = 0 \<or> rc = - EIO \<and> \<not> fat_ready ef" "rc = 0 \<longrightarrow> cropped ef node cs (unat c2) ef' node'"
      using shrink_file_result [OF assms(1) o(1,2,4) d(2,3)] unfolding k by blast
    have "\<exists>cs'. owns ef' node' cs' \<and> fptr_ok node' cs' \<and> terminated ef' node' cs' \<and> length cs' = unat c2 \<and>
        take (length cs') cs = take (length cs) cs' \<and> set cs' \<subseteq> set cs \<union> free_set ef \<and> node_frame node' = node_frame node \<and>
        (\<forall>c. valid ef c \<longrightarrow> used ef' c = (used ef c \<and> c \<notin> set cs \<or> c \<in> set cs'))" if "rc = 0"
    proof -
      have cr: "cropped ef node cs (unat c2) ef' node'" using r(4) that by simp
      have dj: "set (take (unat c2) cs) \<inter> set (drop (unat c2) cs) = {}" "set cs = set (take (unat c2) cs) \<union> set (drop (unat c2) cs)"
        using o(1) by (auto simp: owns_def set_take_disj_set_drop_if_distinct simp flip: set_append)
      show ?thesis
        using cr cropped_undone [OF cr] shrink o(4) u dj
        by (intro exI [of _ "take (unat c2) cs"]) (auto simp: cropped_def undone_def word_less_nat_alt dest: in_set_takeD)
    qed
    then show ?thesis
      using shrink r n2 within_mono [OF r(2), of "set cs \<union> free_set ef"] by (auto simp: not_less_iff_gr_or_eq)
  next
    case same
    then show ?thesis
      using o n2 u by (auto intro!: exI [of _ cs])
  qed
qed

lemma node_frame_eqD:
  assumes "node_frame node' = node_frame node"
  shows "node_size node' = node_size node" "valid_size node' = valid_size node" "attrib node' = attrib node"
    "references node' = references node" "parent node' = parent node"
  using arg_cong [OF assms, of node_size] arg_cong [OF assms, of valid_size] arg_cong [OF assms, of attrib]
    arg_cong [OF assms, of references] arg_cong [OF assms, of parent]
  by (simp_all add: node_frame_def)

lemma owns_cong:
  "start_cluster node' = start_cluster node \<Longrightarrow> is_contiguous node' = is_contiguous node \<Longrightarrow>
   owns ef node' cs = owns ef node cs"
  by (simp add: owns_def succ_cluster_def [abs_def])

lemma exfat_truncate_result:
  assumes "vol_ok ef" "file_ok ef node cs" "size_fits ef (node_size node)" "size_fits ef sz"
    and "references node \<noteq> 0 \<or> parent node = None"
  shows "\<exists>rc ef' node'. exfat_truncate ef node sz False = Some (rc, ef', node') \<and>
    within (set cs \<union> free_set ef) ef ef' \<and>
    (rc = 0 \<longrightarrow> (\<exists>cs'. resized ef node cs sz ef' node' cs')) \<and>
    (fat_ready ef \<and> rc \<noteq> 0 \<longrightarrow>
       rc = - ENOSPC \<and> length cs + card (free_set ef) < DIV_ROUND_UP (unat sz) (CLUSTER_SIZE (sb ef)) \<and>
       file_ok ef' node' cs \<and> (\<forall>c. valid ef c \<longrightarrow> used ef' c = used ef c))"
proof (cases "node_size node = sz")
  case True
  have "resized ef node cs sz ef node cs"
    using assms(2) True by (auto simp: resized_def file_ok_def owns_def min_absorb1)
  with True assms(5) show ?thesis by (auto simp: exfat_truncate_def)
next
  case False
  obtain rc ef' node' where
    r: "(if bytes2clusters ef (node_size node) < bytes2clusters ef sz
          then grow_file ef node (bytes2clusters ef (node_size node)) (bytes2clusters ef sz - bytes2clusters ef (node_size node))
         else if bytes2clusters ef (node_size node) > bytes2clusters ef sz
          then shrink_file ef node (bytes2clusters ef (node_size node)) (bytes2clusters ef (node_size node) - bytes2clusters ef sz)
         else Some (0, ef, node)) = Some (rc, ef', node')"
      and w: "within (set cs \<union> free_set ef) ef ef'"
      and ok: "rc = 0 \<longrightarrow> (\<exists>cs'. owns ef' node' cs' \<and> fptr_ok node' cs' \<and> terminated ef' node' cs' \<and>
        length cs' = DIV_ROUND_UP (unat sz) (CLUSTER_SIZE (sb ef)) \<and>
        take (length cs') cs = take (length cs) cs' \<and> set cs' \<subseteq> set cs \<union> free_set ef \<and> node_frame node' = node_frame node \<and>
        (\<forall>c. valid ef c \<longrightarrow> used ef' c = (used ef c \<and> c \<notin> set cs \<or> c \<in> set cs')))"
      and bad: "fat_ready ef \<and> rc \<noteq> 0 \<longrightarrow> rc = - ENOSPC \<and>
        length cs + card (free_set ef) < unat (bytes2clusters ef sz) \<and> undone ef node cs (length cs) ef' node'"
    using resize_clusters [OF assms(1-4)] by blast
  let ?new = "(exfat_update_mtime ef' (node'\<lparr>valid_size := min (valid_size node') sz\<rparr>))\<lparr>node_size := sz, is_dirty := True\<rparr>"
  have run: "exfat_truncate ef node sz False = Some (rc, ef', if rc = 0 then ?new else node')"
    using r False assms(5) by (simp add: exfat_truncate_def Let_def)
  have "\<exists>cs'. resized ef node cs sz ef' ?new cs'" if "rc = 0"
  proof -
    from ok that obtain cs' where c: "owns ef' node' cs'" "fptr_ok node' cs'" "terminated ef' node' cs'"
        "length cs' = DIV_ROUND_UP (unat sz) (CLUSTER_SIZE (sb ef))" "take (length cs') cs = take (length cs) cs'"
        "set cs' \<subseteq> set cs \<union> free_set ef" "node_frame node' = node_frame node" "\<forall>c. valid ef c \<longrightarrow> used ef' c = (used ef c \<and> c \<notin> set cs \<or> c \<in> set cs')"
      by blast
    have "owns ef' ?new cs' = owns ef' node' cs'"
      by (rule owns_cong) (simp_all add: exfat_update_mtime_def)
    moreover have "fptr_ok ?new cs'" "terminated ef' ?new cs'"
      using c(2,3) by (simp_all add: fptr_ok_def terminated_def exfat_update_mtime_def)
    ultimately show ?thesis
      using c(1,4-8) by (intro exI [of _ cs'])
        (simp add: resized_def file_ok_def within_sb [OF w] node_frame_eqD [OF c(7)] exfat_update_mtime_def)
  qed
  moreover have "file_ok ef' node' cs \<and> (\<forall>c. valid ef c \<longrightarrow> used ef' c = used ef c)" if "fat_ready ef" "rc \<noteq> 0"
  proof -
    have u: "undone ef node cs (length cs) ef' node'" using bad that by blast
    then have "node_frame node' = node_frame node" by (simp add: undone_def)
    from node_frame_eqD [OF this] u assms(2) show ?thesis
      by (simp add: undone_def file_ok_def within_sb [OF w])
  qed
  ultimately show ?thesis
    using run w bad unat_bytes2clusters [OF assms(4)] by auto
qed

section \<open>Properties\<close>

lemma chain_walk:
  "chain ef node cs \<Longrightarrow> i < length cs \<Longrightarrow> (succ_cluster ef node ^^ i) (hd cs) = cs ! i"
  by (induction i) (auto simp: hd_conv_nth chain_nth)

text \<open>C37. Looking up a cluster of a file through the cached file pointer is a walk of that many steps from the
  start of the chain: on a device that serves every access to the table, \<^verbatim>\<open>exfat_advance_cluster\<close> returns
  the cluster the walk reaches and leaves a consistent file pointer, whatever cluster of the file the
  pointer stood on before.\<close>

theorem exfat_advance_cluster_is_walk:
  assumes "vol_ok ef" "fat_ready ef" "owns ef node cs" "fptr_ok node cs" "unat count < length cs"
  shows "\<exists>node'. exfat_advance_cluster ef node count = Some ((succ_cluster ef node ^^ unat count) (start_cluster node), node') \<and>
    fptr_ok node' cs \<and> owns ef node' cs"
proof -
  obtain c where c: "exfat_advance_cluster ef node count = Some (c, node\<lparr>fptr_index := count, fptr_cluster := c\<rparr>)"
      "c = cs ! unat count \<or> CLUSTER_INVALID (sb ef) c \<and> \<not> fat_ready ef"
    using exfat_advance_cluster_result [OF assms(1,3-5)] .
  let ?node = "node\<lparr>fptr_index := count, fptr_cluster := c\<rparr>"
  have "start_cluster node = hd cs" "chain ef node cs" using assms(3,5) by (auto simp: owns_def split: if_splits)
  with c assms(2,5) chain_walk [of ef node cs "unat count"]
  have "exfat_advance_cluster ef node count = Some ((succ_cluster ef node ^^ unat count) (start_cluster node), ?node)"
    by auto
  moreover have "fptr_ok ?node cs" using assms(2,5) c(2) by (auto simp: fptr_ok_def)
  moreover have "owns ef ?node cs" using assms(3) by (simp add: owns_cong [of ?node node])
  ultimately show ?thesis by blast
qed

text \<open>C3. Resizing a file is all or nothing on a device that serves every access to the table: when the clusters
  of the file and the free ones are enough for the new size, \<^verbatim>\<open>exfat_truncate\<close> succeeds, the file is in
  order with exactly the clusters the new size needs (the common part of the chain kept, the new ones
  taken from the free ones) and the bitmap marks those and no others in exchange for the old; otherwise
  it returns \<^verbatim>\<open>-ENOSPC\<close> with the file in order on its old clusters and the bitmap as before.\<close>

theorem exfat_truncate_all_or_nothing:
  assumes "vol_ok ef" "fat_ready ef" "file_ok ef node cs" "size_fits ef (node_size node)" "size_fits ef sz"
    and "references node \<noteq> 0 \<or> parent node = None"
  shows "\<exists>rc ef' node'. exfat_truncate ef node sz False = Some (rc, ef', node') \<and>
    (if DIV_ROUND_UP (unat sz) (CLUSTER_SIZE (sb ef)) \<le> length cs + card (free_set ef)
     then rc = 0 \<and> (\<exists>cs'. resized ef node cs sz ef' node' cs')
     else rc = - ENOSPC \<and> file_ok ef' node' cs \<and> (\<forall>c. valid ef c \<longrightarrow> used ef' c = used ef c))"
proof -
  obtain rc ef' node' where r: "exfat_truncate ef node sz False = Some (rc, ef', node')"
      "within (set cs \<union> free_set ef) ef ef'"
      "rc = 0 \<longrightarrow> (\<exists>cs'. resized ef node cs sz ef' node' cs')"
      "rc \<noteq> 0 \<longrightarrow> rc = - ENOSPC \<and> length cs + card (free_set ef) < DIV_ROUND_UP (unat sz) (CLUSTER_SIZE (sb ef)) \<and>
         file_ok ef' node' cs \<and> (\<forall>c. valid ef c \<longrightarrow> used ef' c = used ef c)"
    using exfat_truncate_result [OF assms(1,3-6)] assms(2) by blast
  have "DIV_ROUND_UP (unat sz) (CLUSTER_SIZE (sb ef)) \<le> length cs + card (free_set ef)" if "rc = 0"
  proof -
    from r(3) that obtain cs' where c: "resized ef node cs sz ef' node' cs'" by blast
    then have "length cs' = card (set cs')" "set cs' \<subseteq> set cs \<union> free_set ef"
      by (simp_all add: resized_def file_ok_def owns_def distinct_card)
    then have "length cs' \<le> card (set cs \<union> free_set ef)" by (simp add: card_mono)
    also have "\<dots> \<le> length cs + card (free_set ef)"
      using card_Un_le [of "set cs" "free_set ef"] card_length [of cs] by linarith
    finally show ?thesis using c by (simp add: resized_def file_ok_def within_sb [OF r(2)])
  qed
  with r show ?thesis by (intro exI [of _ rc] exI [of _ ef'] exI [of _ node']) force
qed


section \<open>A small volume\<close>

text \<open>Eight clusters of one sector on a device of 32 sectors. A file of 1024 bytes sits on the clusters 2 and 4, a
  contiguous one on cluster 3.\<close>

definition demo_sb :: exfat_super_block where
  "demo_sb = (replicate 512 0)[0x50 := 12, 0x58 := 13, 0x5c := 8, 0x60 := 2, 0x6c := 9]"

definition demo_dev :: block_device where
  "demo_dev = \<lparr>blockSize = 512, blockCount = 32,
     medium = (\<lambda>a. if a = 6152 then 4 else if 6160 \<le> a \<and> a < 6164 then 0xff else 0),
     rd_throws = (\<lambda>_ _. False), wr_throws = (\<lambda>_ _. None)\<rparr>"

definition demo_ef :: exfat where
  "demo_ef = \<lparr>dev = demo_dev, sb = demo_sb, upcase = [], root = 0, cmap_start_cluster = 9, cmap_size = 8, chunk = [7],
     chunk_size = 8, cmap_dirty = False, label = [], zero_cluster = replicate 512 0, dmask = 0, fmask = 0, uid = 0,
     gid = 0, ro = 0, noatime = False, repair = EXFAT_REPAIR_NO, now = 0, exfat_timezone = 0\<rparr>"

definition demo_node :: exfat_node where
  "demo_node = \<lparr>parent = None, child = None, next_node = None, prev_node = None, references = 1, fptr_index = 1,
     fptr_cluster = 4, entry_offset = 0, start_cluster = 2, attrib = 0x20, continuations = 2, is_contiguous = False,
     is_cached = False, is_dirty = False, is_unlinked = False, valid_size = 1024, node_size = 1024, mtime = 0, atime = 0,
     node_name = replicate 256 0\<rparr>"


lemma demo_fields [simp]:
  "sector_bits demo_sb = 9" "spc_bits demo_sb = 0" "fat_sector_start demo_sb = 12" "cluster_sector_start demo_sb = 13"
  "cluster_count demo_sb = 8" "SECTOR_SIZE demo_sb = 512" "CLUSTER_SIZE demo_sb = 512"
  by code_simp+

lemma demo_vol_ok: "vol_ok demo_ef"
  by (simp add: vol_ok_def demo_ef_def)

lemma demo_fat: "fat demo_ef 2 = 4" "fat demo_ef 4 = EXFAT_CLUSTER_END"
  by (simp_all add: fat_def fat_offset_def s2o_def demo_ef_def demo_dev_def get_unaligned_le32_def peek_def)

lemma demo_used: "used demo_ef 2" "used demo_ef 3" "used demo_ef 4"
  by (simp_all add: used_def demo_ef_def bmap_bit_def)

lemma demo_valid: "valid demo_ef c \<longleftrightarrow> 2 \<le> unat c \<and> unat c < 10"
  by (simp add: valid_nat) (simp add: demo_ef_def)

lemma demo_file_ok: "file_ok demo_ef demo_node [2, 4]"
  by (simp add: file_ok_def owns_def fptr_ok_def terminated_def succ_cluster_def demo_fat demo_used demo_valid)
    (simp add: demo_node_def demo_ef_def DIV_ROUND_UP_def)


lemma demo_size_fits: "size_fits demo_ef (node_size demo_node)" "size_fits demo_ef 2048"
  by (simp_all add: size_fits_def demo_ef_def demo_node_def DIV_ROUND_UP_def)

lemma demo_fat_ready: "fat_ready demo_ef"
proof -
  have "healthy (dev demo_ef)" by (simp add: healthy_def demo_ef_def demo_dev_def)
  moreover have "fat_offset demo_ef c + 4 \<le> exfat_get_size (dev demo_ef)" if "valid demo_ef c" for c
    using that by (simp add: demo_valid) (simp add: fat_offset_def s2o_def exfat_get_size_def demo_ef_def demo_dev_def)
  ultimately show ?thesis by (simp add: fat_ready_def)
qed

theorem exfat_advance_cluster_is_walk_witness:
  "\<exists>node'. exfat_advance_cluster demo_ef demo_node 0 = Some ((succ_cluster demo_ef demo_node ^^ unat (0 :: u32)) (start_cluster demo_node), node') \<and>
     fptr_ok node' [2, 4] \<and> owns demo_ef node' [2, 4]"
  by (rule exfat_advance_cluster_is_walk [OF demo_vol_ok demo_fat_ready])
    (use demo_file_ok in \<open>simp_all add: file_ok_def\<close>)

theorem exfat_truncate_all_or_nothing_witness:
  "\<exists>rc ef' node'. exfat_truncate demo_ef demo_node 2048 False = Some (rc, ef', node') \<and>
    (if DIV_ROUND_UP (unat (2048 :: u64)) (CLUSTER_SIZE (sb demo_ef)) \<le> length [2, 4 :: cluster_t] + card (free_set demo_ef)
     then rc = 0 \<and> (\<exists>cs'. resized demo_ef demo_node [2, 4] 2048 ef' node' cs')
     else rc = - ENOSPC \<and> file_ok ef' node' [2, 4] \<and> (\<forall>c. valid demo_ef c \<longrightarrow> used ef' c = used demo_ef c))"
  by (rule exfat_truncate_all_or_nothing [OF demo_vol_ok demo_fat_ready demo_file_ok])
    (use demo_size_fits in \<open>simp_all add: demo_node_def\<close>)


text \<open>The number of clusters of a size wraps: for the sizes outside \<^const>\<open>size_fits\<close> a huge file needs no cluster,
  so that setting such a size frees the whole chain and still records the size.\<close>

lemma bytes2clusters_wraps: "bytes2clusters demo_ef 0xffffffffffffffff = 0 \<and> bytes2clusters demo_ef 0x20000000000 = 0"
  by (simp add: bytes2clusters_def cluster_size64_def demo_ef_def)

end
