(* ===== verification/RawDevice.thy ===== *)
theory RawDevice
  imports ExfatDev
begin

text \<open>
  The block devices of \<^verbatim>\<open>block/\<close>. \<^verbatim>\<open>RawBlockDevice\<close> is an interface; a device that wraps another one (a slice, a
  decrypted volume, a cache) holds its delegate and calls it. The model has the interface as a record of
  the operations over a state, so that a wrapping device is a function from its delegate to a device, and
  stacks are built as the code builds them. An operation that throws returns \<open>None\<close> or \<open>False\<close>, with the
  state it leaves behind. The locale \<open>raw_device\<close> is the contract of the interface: reads return the
  contents, a write stores its data, and one that throws may have changed only the blocks it addressed.
\<close>

section \<open>The interface\<close>

record 'd raw_block_device =
  bsize :: nat
  bcount :: int
  read_blocks :: "'d \<Rightarrow> int \<Rightarrow> int \<Rightarrow> bytes option \<times> 'd"
  write_blocks :: "'d \<Rightarrow> int \<Rightarrow> bytes \<Rightarrow> bool \<times> 'd"

text \<open>A sum of two \<^verbatim>\<open>Long\<close>s wraps around.\<close>

definition long :: "int \<Rightarrow> int" where
  "long x = sint (word_of_int x :: 64 word)"

lemma long_id [simp]: "- (2 ^ 63) \<le> x \<Longrightarrow> x < 2 ^ 63 \<Longrightarrow> long x = x"
  by (simp add: long_def sint_sbintrunc' signed_take_bit_int_eq_self_iff)

definition requireInRange :: "int \<Rightarrow> int \<Rightarrow> int \<Rightarrow> bool" where
  "requireInRange cnt startBlock blocks \<longleftrightarrow>
     0 \<le> startBlock \<and> 0 \<le> blocks \<and> long (startBlock + blocks) \<le> cnt"

definition in_range :: "int \<Rightarrow> int \<Rightarrow> int \<Rightarrow> bool" where
  "in_range cnt startBlock blocks \<longleftrightarrow> 0 \<le> startBlock \<and> 0 \<le> blocks \<and> startBlock + blocks \<le> cnt"

lemma requireInRange_iff:
  "startBlock + blocks < 2 ^ 63 \<Longrightarrow> requireInRange cnt startBlock blocks \<longleftrightarrow> in_range cnt startBlock blocks"
  by (auto simp: requireInRange_def in_range_def)

text \<open>Near the end of \<^verbatim>\<open>Long\<close> the sum wraps and the check lets the request pass.\<close>

lemma requireInRange_wraps: "requireInRange 100 0x7fffffffffffffff 1 \<and> \<not> in_range 100 0x7fffffffffffffff 1"
  by (simp add: requireInRange_def in_range_def long_def)

section \<open>The contract\<close>

locale raw_device =
  fixes D :: "'d raw_block_device" and view :: "'d \<Rightarrow> nat \<Rightarrow> u8" and ok :: "'d \<Rightarrow> bool"
  assumes bsize_pos: "0 < bsize D"
    and bcount_range: "0 \<le> bcount D" "bcount D < 2 ^ 62"
    and read_law: "ok d \<Longrightarrow> in_range (bcount D) s n \<Longrightarrow> nat n * bsize D < 2 ^ 31 \<Longrightarrow> read_blocks D d s n = (r, d') \<Longrightarrow>
      ok d' \<and> view d' = view d \<and> (r = None \<or> r = Some (peek (view d) (nat s * bsize D) (nat n * bsize D)))"
    and write_law: "ok d \<Longrightarrow> in_range (bcount D) s n \<Longrightarrow> length data = nat n * bsize D \<Longrightarrow> length data < 2 ^ 31 \<Longrightarrow>
      write_blocks D d s data = (w, d') \<Longrightarrow>
      ok d' \<and> (w \<longrightarrow> view d' = poke (view d) (nat s * bsize D) data) \<and>
      (\<forall>a. a < nat s * bsize D \<or> nat s * bsize D + length data \<le> a \<longrightarrow> view d' a = view d a)"

text \<open>A device that also turns away what lies outside.\<close>

locale confined_device = raw_device +
  assumes read_outside: "ok d \<Longrightarrow> s < 2 ^ 62 \<Longrightarrow> n < 2 ^ 31 \<Longrightarrow> \<not> in_range (bcount D) s n \<Longrightarrow> read_blocks D d s n = (None, d)"
    and write_outside: "ok d \<Longrightarrow> s < 2 ^ 62 \<Longrightarrow> length data < 2 ^ 31 \<Longrightarrow> length data = k * bsize D \<Longrightarrow>
      \<not> in_range (bcount D) s (int k) \<Longrightarrow> write_blocks D d s data = (False, d)"

lemma block_count_small:
  assumes "0 < b" "length data = k * b" "length data < 2 ^ 31"
  shows "int k < 2 ^ 31"
proof -
  have "k \<le> length data" using assms(1,2) by simp
  from le_less_trans [OF this assms(3)] show ?thesis by simp
qed

lemma peek_append: "peek m a (x + y) = peek m a x @ peek m (a + x) y" for x y :: nat
  by (rule nth_equalityI) (auto simp: nth_append)

lemma poke_append: "poke (poke m a xs) (a + length xs) ys = poke m a (xs @ ys)"
  by (auto simp: poke_def fun_eq_iff nth_append)

lemma peek_poke_inside:
  "off + length p \<le> n \<Longrightarrow> peek (poke m (a + off) p) a n = overwrite (peek m a n) off p"
  by (rule nth_equalityI) (auto simp: poke_def nth_overwrite)

text \<open>The \<^verbatim>\<open>BlockDeviceDriver\<close> side of the devices, for the callers that pass a buffer: \<open>remaining\<close> is the space left in the
  buffer, \<open>deviceOffset\<close> a block number.\<close>

definition driver_read :: "'d raw_block_device \<Rightarrow> 'd \<Rightarrow> int \<Rightarrow> nat \<Rightarrow> bytes option \<times> 'd" where
  "driver_read D d deviceOffset remaining =
     (if remaining mod bsize D \<noteq> 0 then (None, d) else read_blocks D d deviceOffset (int (remaining div bsize D)))"

definition driver_write :: "'d raw_block_device \<Rightarrow> 'd \<Rightarrow> int \<Rightarrow> bytes \<Rightarrow> bool \<times> 'd" where
  "driver_write D d deviceOffset buffer =
     (if length buffer mod bsize D \<noteq> 0 then (False, d) else write_blocks D d deviceOffset buffer)"

section \<open>A slice of a device\<close>

definition SlicedBlockDevice :: "'d raw_block_device \<Rightarrow> int \<Rightarrow> int \<Rightarrow> 'd raw_block_device" where
  "SlicedBlockDevice delegate firstBlock cnt =
     \<lparr>bsize = bsize delegate, bcount = cnt,
      read_blocks = (\<lambda>d startBlock n.
        if \<not> 0 \<le> startBlock then (None, d)
        else if \<not> 0 \<le> n then (None, d)
        else if \<not> long (startBlock + n) \<le> cnt then (None, d)
        else read_blocks delegate d (long (firstBlock + startBlock)) n),
      write_blocks = (\<lambda>d startBlock data.
        if \<not> 0 \<le> startBlock then (False, d)
        else if \<not> long (startBlock + int (length data div bsize delegate)) \<le> cnt then (False, d)
        else write_blocks delegate d (long (firstBlock + startBlock)) data)\<rparr>"

definition slice_view :: "('d \<Rightarrow> nat \<Rightarrow> u8) \<Rightarrow> nat \<Rightarrow> 'd \<Rightarrow> nat \<Rightarrow> u8" where
  "slice_view view off d a = view d (off + a)"

lemma peek_slice: "peek (slice_view view off d) a n = peek (view d) (off + a) n"
  by (rule nth_equalityI) (simp_all add: slice_view_def add.assoc)

lemma slice_poke:
  "view d' = poke (view d) (off + a) data \<Longrightarrow> slice_view view off d' = poke (slice_view view off d) a data"
  by (auto simp: slice_view_def poke_def fun_eq_iff)

context raw_device
begin

lemma in_range_shift:
  assumes "in_range cnt s n" "0 \<le> first" "first + cnt \<le> bcount D"
  shows "in_range (bcount D) (first + s) n" "long (s + n) = s + n" "long (first + s) = first + s"
    "nat (first + s) * bsize D = nat first * bsize D + nat s * bsize D"
  using assms bcount_range by (auto simp: in_range_def nat_add_distrib add_mult_distrib)

lemma slice_confined:
  assumes "0 \<le> first" "0 \<le> cnt" "first + cnt \<le> bcount D"
  shows "confined_device (SlicedBlockDevice D first cnt) (slice_view view (nat first * bsize D)) ok"
proof (unfold_locales, goal_cases)
  case 1
  then show ?case using bsize_pos by (simp add: SlicedBlockDevice_def)
next
  case 2
  then show ?case using assms by (simp add: SlicedBlockDevice_def)
next
  case 3
  then show ?case using assms bcount_range by (simp add: SlicedBlockDevice_def)
next
  case (4 d s n r d')
  then have r: "in_range cnt s n" by (simp add: SlicedBlockDevice_def)
  note sh = in_range_shift [OF r assms(1,3)]
  have "read_blocks D d (first + s) n = (r, d')"
    using 4 r sh by (simp add: SlicedBlockDevice_def in_range_def)
  moreover have "nat n * bsize D < 2 ^ 31" using 4 by (simp add: SlicedBlockDevice_def)
  ultimately show ?case using read_law [OF 4(1) sh(1)]
    by (auto simp: SlicedBlockDevice_def peek_slice sh(4) slice_view_def fun_eq_iff)
next
  case (5 d s n data w d')
  then have r: "in_range cnt s n" and len: "length data = nat n * bsize D" by (simp_all add: SlicedBlockDevice_def)
  note sh = in_range_shift [OF r assms(1,3)]
  have "int (length data div bsize D) = n" using len bsize_pos r by (simp add: in_range_def)
  then have "write_blocks D d (first + s) data = (w, d')"
    using 5 r sh by (simp add: SlicedBlockDevice_def in_range_def)
  from write_law [OF 5(1) sh(1) len 5(4) this] show ?case
    by (auto simp: SlicedBlockDevice_def sh(4) slice_view_def intro: slice_poke)
next
  case (6 d s n)
  then show ?case by (auto simp: SlicedBlockDevice_def in_range_def)
next
  case (7 d s data k)
  then have "int (length data div bsize D) = int k" using bsize_pos by (simp add: SlicedBlockDevice_def)
  moreover have "int k < 2 ^ 31" using 7 bsize_pos block_count_small [of "bsize D" data k] by (simp add: SlicedBlockDevice_def)
  ultimately show ?case using 7 by (auto simp: SlicedBlockDevice_def in_range_def)
qed

end

section \<open>A device in a file\<close>

text \<open>\<^verbatim>\<open>FileBlockDevice\<close> over the bytes of its file. The number of blocks is fixed when the file is opened. The size
  of the buffer is an \<^verbatim>\<open>Int\<close> product, which wraps; \<^verbatim>\<open>readFully\<close> throws at the end of the file, and writing behind the
  end extends it.\<close>

definition int_product :: "int \<Rightarrow> nat \<Rightarrow> int" where
  "int_product n sz = sint (word_of_int (n * int sz) :: 32 word)"

definition file_block_count :: "bytes \<Rightarrow> int option \<Rightarrow> int" where
  "file_block_count file sysfsSize =
     (let cnt = int (length file div 512)
      in if cnt = 0 then case sysfsSize of Some n \<Rightarrow> n | None \<Rightarrow> 20480 else cnt)"

definition FileBlockDevice :: "int \<Rightarrow> bytes raw_block_device" where
  "FileBlockDevice cnt =
     \<lparr>bsize = 512, bcount = cnt,
      read_blocks = (\<lambda>file startBlock n.
        let sz = int_product n 512; pos = long (startBlock * 512)
        in if sz < 0 then (None, file)
           else if pos < 0 then (None, file)
           else if length file < nat pos + nat sz then (None, file)
           else (Some (take (nat sz) (drop (nat pos) file)), file)),
      write_blocks = (\<lambda>file startBlock data.
        let pos = long (startBlock * 512)
        in if pos < 0 then (False, file)
           else
             let file = file @ replicate (nat pos - length file) 0
             in (True, take (nat pos) file @ data @ drop (nat pos + length data) file))\<rparr>"

definition file_view :: "bytes \<Rightarrow> nat \<Rightarrow> u8" where
  "file_view file a = (if a < length file then file ! a else 0)"

lemma int_id: "0 \<le> x \<Longrightarrow> x < 2 ^ 31 \<Longrightarrow> sint (word_of_int x :: 32 word) = x"
  by (simp add: sint_sbintrunc' signed_take_bit_int_eq_self_iff)

lemma int_product_id:
  assumes "0 \<le> n" "nat n * sz < 2 ^ 31"
  shows "int_product n sz = int (nat n * sz)"
proof -
  have "int (nat n * sz) < int (2 ^ 31)" using assms(2) by (simp only: of_nat_less_iff)
  with assms(1) show ?thesis using int_id [of "n * int sz"] by (simp add: int_product_def)
qed

lemma file_raw_device:
  assumes "0 \<le> cnt" "cnt < 2 ^ 50"
  shows "raw_device (FileBlockDevice cnt) file_view (\<lambda>f. nat cnt * 512 \<le> length f)"
proof (unfold_locales, goal_cases)
  case (4 f s n r g)
  then have s: "long (s * 512) = s * 512" "nat (s * 512) = nat s * 512" "nat s * 512 + nat n * 512 \<le> length f" "0 \<le> s"
    and n: "\<not> int_product n 512 < 0" "nat (int_product n 512) = nat n * 512"
    using assms by (auto simp: FileBlockDevice_def in_range_def nat_mult_distrib int_product_id)
  then have "take (nat n * 512) (drop (nat s * 512) f) = peek (file_view f) (nat s * 512) (nat n * 512)"
    by (intro nth_equalityI) (auto simp: file_view_def)
  with 4 s n show ?case by (auto simp: FileBlockDevice_def Let_def split: if_splits)
next
  case (5 f s n data w g)
  then have s: "long (s * 512) = s * 512" "nat (s * 512) = nat s * 512" "nat s * 512 + length data \<le> length f" "0 \<le> s"
    using assms by (auto simp: FileBlockDevice_def in_range_def nat_mult_distrib)
  then have h: "g = overwrite f (nat s * 512) data" "w"
    using 5 by (auto simp: FileBlockDevice_def Let_def overwrite_def)
  then have len: "length g = length f" using s by simp
  have "file_view g = poke (file_view f) (nat s * 512) data"
    using s unfolding h(1) by (auto simp: fun_eq_iff file_view_def poke_def nth_overwrite)
  with 5 h len show ?case by (auto simp: FileBlockDevice_def poke_def)
qed (use assms in \<open>simp_all add: FileBlockDevice_def\<close>)

text \<open>The default geometry, and a slice of it.\<close>

interpretation image: raw_device "FileBlockDevice 20480" file_view "\<lambda>file. nat 20480 * 512 \<le> length file"
  by (rule file_raw_device) simp_all

interpretation partition: confined_device "SlicedBlockDevice (FileBlockDevice 20480) 2048 4096"
    "slice_view file_view (nat 2048 * bsize (FileBlockDevice 20480))" "\<lambda>file. nat 20480 * 512 \<le> length file"
  by (rule image.slice_confined) (simp_all add: FileBlockDevice_def)

end
