(* ===== verification/SectorCrypt.thy ===== *)
theory SectorCrypt
  imports RawDevice Cascade BitLockerKeys
begin

text \<open>
  Sector encryption as a device sees it. The volumes of VeraCrypt, LUKS and BitLocker encrypt fixed units of
  the medium, each under its own number. The locale \<open>sector_cipher\<close> is what such a device relies on, a
  keyed permutation of the units; it defines the plaintext of a whole medium and how reads and writes of
  runs of units act on it. The native calls \<^verbatim>\<open>cryptSectorsInPlace\<close> and \<^verbatim>\<open>cryptSectors\<close> provide it.
\<close>

section \<open>Runs of units\<close>

fun crypt_run :: "(u64 \<Rightarrow> bytes \<Rightarrow> bytes) \<Rightarrow> nat \<Rightarrow> u64 \<Rightarrow> nat \<Rightarrow> bytes \<Rightarrow> bytes" where
  "crypt_run f sz u 0 buf = []"
| "crypt_run f sz u (Suc n) buf = f u (take sz buf) @ crypt_run f sz (u + 1) n (drop sz buf)"

text \<open>The plaintext of a medium whose unit \<open>k\<close> is encrypted under the number \<open>u + k\<close>.\<close>

definition plaintext :: "(u64 \<Rightarrow> bytes \<Rightarrow> bytes) \<Rightarrow> nat \<Rightarrow> u64 \<Rightarrow> (nat \<Rightarrow> u8) \<Rightarrow> nat \<Rightarrow> u8" where
  "plaintext f sz u m a = f (u + of_nat (a div sz)) (peek m (a div sz * sz) sz) ! (a mod sz)"

locale sector_cipher =
  fixes key_ok :: "'k \<Rightarrow> bool" and unit_size :: "'k \<Rightarrow> nat" and crypt :: "'k \<Rightarrow> bool \<Rightarrow> u64 \<Rightarrow> bytes \<Rightarrow> bytes"
  assumes unit_pos: "key_ok k \<Longrightarrow> 0 < unit_size k"
    and crypt_length: "key_ok k \<Longrightarrow> length b = unit_size k \<Longrightarrow> length (crypt k e u b) = unit_size k"
    and crypt_inverse: "key_ok k \<Longrightarrow> length b = unit_size k \<Longrightarrow> crypt k False u (crypt k True u b) = b"
begin

lemma length_crypt_run:
  "key_ok k \<Longrightarrow> length buf = n * unit_size k \<Longrightarrow> length (crypt_run (crypt k e) (unit_size k) u n buf) = n * unit_size k"
  by (induction n arbitrary: u buf) (simp_all add: crypt_length)

lemma crypt_run_inverse:
  "key_ok k \<Longrightarrow> length buf = n * unit_size k \<Longrightarrow>
   crypt_run (crypt k False) (unit_size k) u n (crypt_run (crypt k True) (unit_size k) u n buf) = buf"
  by (induction n arbitrary: u buf) (simp_all add: crypt_length crypt_inverse)

lemma take_crypt_run:
  "key_ok k \<Longrightarrow> length buf = n * unit_size k \<Longrightarrow> i < n \<Longrightarrow>
   take (unit_size k) (drop (i * unit_size k) (crypt_run (crypt k e) (unit_size k) u n buf)) =
   crypt k e (u + of_nat i) (take (unit_size k) (drop (i * unit_size k) buf))"
proof (induction n arbitrary: u buf i)
  case (Suc n)
  show ?case
  proof (cases i)
    case 0
    then show ?thesis using Suc.prems by (simp add: crypt_length)
  next
    case (Suc j)
    then show ?thesis
      using Suc.prems Suc.IH [of "drop (unit_size k) buf" j "u + 1"]
      by (simp add: crypt_length add.assoc add.commute [of "unit_size k"])
  qed
qed simp

lemma plaintext_unit:
  assumes "key_ok k"
  shows "peek (plaintext (crypt k False) (unit_size k) u m) (i * unit_size k) (unit_size k) =
    crypt k False (u + of_nat i) (peek m (i * unit_size k) (unit_size k))"
  using unit_pos [OF assms] by (intro nth_equalityI) (simp_all add: crypt_length [OF assms] plaintext_def)

lemma decrypt_run:
  assumes "key_ok k"
  shows "crypt_run (crypt k False) (unit_size k) (u + of_nat i) n (peek m (i * unit_size k) (n * unit_size k)) =
    peek (plaintext (crypt k False) (unit_size k) u m) (i * unit_size k) (n * unit_size k)"
proof (induction n arbitrary: i)
  case (Suc n)
  let ?sz = "unit_size k"
  have s: "peek x (i * ?sz) (Suc n * ?sz) = peek x (i * ?sz) ?sz @ peek x (Suc i * ?sz) (n * ?sz)" for x
    using peek_append [of x "i * ?sz" ?sz "n * ?sz"] by (simp add: add.commute)
  show ?case using Suc [of "Suc i"] unfolding s by (simp add: plaintext_unit [OF assms] add.assoc add.commute [of 1])
qed (simp add: peek_def)

lemma plaintext_cong:
  assumes "\<And>b. b div unit_size k = a div unit_size k \<Longrightarrow> m b = m' b" "key_ok k"
  shows "plaintext f (unit_size k) u m a = plaintext f (unit_size k) u m' a"
proof -
  have "b div unit_size k = a div unit_size k" if "a div unit_size k * unit_size k \<le> b"
      "b < a div unit_size k * unit_size k + unit_size k" for b
    using that unit_pos [OF assms(2)] by (intro div_nat_eqI) (simp_all add: mult.commute)
  with assms(1) have "peek m (a div unit_size k * unit_size k) (unit_size k) = peek m' (a div unit_size k * unit_size k) (unit_size k)"
    by (intro peek_cong) blast
  then show ?thesis by (simp add: plaintext_def)
qed

lemma plaintext_outside:
  assumes "\<And>b. b < i * unit_size k \<or> (i + n) * unit_size k \<le> b \<Longrightarrow> m b = m' b" "key_ok k"
    and "a < i * unit_size k \<or> (i + n) * unit_size k \<le> a"
  shows "plaintext f (unit_size k) u m a = plaintext f (unit_size k) u m' a"
proof (rule plaintext_cong [OF assms(1) assms(2)])
  fix b assume "b div unit_size k = a div unit_size k"
  then show "b < i * unit_size k \<or> (i + n) * unit_size k \<le> b"
    using assms(3) unit_pos [OF assms(2)] by (metis div_less_iff_less_mult leI not_le)
qed

lemma encrypt_run:
  assumes k: "key_ok k" and len: "length data = n * unit_size k"
    and m': "m' = poke m (i * unit_size k) (crypt_run (crypt k True) (unit_size k) (u + of_nat i) n data)"
  shows "plaintext (crypt k False) (unit_size k) u m' = poke (plaintext (crypt k False) (unit_size k) u m) (i * unit_size k) data"
proof
  let ?sz = "unit_size k" and ?c = "crypt_run (crypt k True) (unit_size k) (u + of_nat i) n data"
  have clen: "length ?c = n * ?sz" by (rule length_crypt_run [OF k len])
  fix a
  show "plaintext (crypt k False) ?sz u m' a = poke (plaintext (crypt k False) ?sz u m) (i * ?sz) data a"
  proof (cases "i * ?sz \<le> a \<and> a < (i + n) * ?sz")
    case True
    have "peek m' (i * ?sz) (n * ?sz) = ?c" using clen unfolding m' by (metis peek_poke)
    then have "peek (plaintext (crypt k False) ?sz u m') (i * ?sz) (n * ?sz) = data"
      using decrypt_run [OF k, of u i n m'] crypt_run_inverse [OF k len] by simp
    then have "plaintext (crypt k False) ?sz u m' a = data ! (a - i * ?sz)"
      using True nth_peek [of "a - i * ?sz" "n * ?sz" "plaintext (crypt k False) ?sz u m'" "i * ?sz"]
      by (simp add: add_mult_distrib less_diff_conv2)
    with True len show ?thesis by (simp add: poke_def add_mult_distrib)
  next
    case False
    then have "plaintext (crypt k False) ?sz u m' a = plaintext (crypt k False) ?sz u m a"
      unfolding m' by (intro plaintext_outside [OF _ k, of i n]) (auto simp: poke_def clen add_mult_distrib)
    with False len show ?thesis by (auto simp: poke_def add_mult_distrib)
  qed
qed

end

section \<open>The native calls\<close>

text \<open>One 512-byte data unit of a VeraCrypt cascade, and one sector of a BitLocker context.\<close>

definition vc_unit :: "VcCascade \<Rightarrow> bool \<Rightarrow> u64 \<Rightarrow> bytes \<Rightarrow> bytes" where
  "vc_unit c e u b = (case unit_crypt e c u b 512 of Some x \<Rightarrow> x | None \<Rightarrow> b)"

definition bitlk_unit :: "bitlk_ctx \<Rightarrow> bool \<Rightarrow> u64 \<Rightarrow> bytes \<Rightarrow> bytes" where
  "bitlk_unit c e u b = snd (bitlk_crypt_sector c e u b)"

lemma vc_unit_inverse:
  assumes "list_all ok_stage (stages c)" "length b = 512"
  shows "length (vc_unit c e u b) = 512" "vc_unit c (\<not> e) u (vc_unit c e u b) = b"
    "unit_crypt e c u (b @ rest) 512 = Some (vc_unit c e u b @ rest)"
proof -
  obtain x where x: "length x = 512" "\<And>rest. unit_crypt e c u (b @ rest) 512 = Some (x @ rest)"
    "\<And>rest. unit_crypt (\<not> e) c u (x @ rest) 512 = Some (b @ rest)"
    using unit_crypt_inverse [OF assms(1), of b e u] assms(2) by auto
  have v: "vc_unit c e u b = x" using x(2) [of "[]"] by (simp add: vc_unit_def)
  show "length (vc_unit c e u b) = 512" using v x(1) by simp
  show "vc_unit c (\<not> e) u (vc_unit c e u b) = b" unfolding v using x(3) [of "[]"] by (simp add: vc_unit_def)
  show "unit_crypt e c u (b @ rest) 512 = Some (vc_unit c e u b @ rest)" unfolding v by (rule x(2))
qed

interpretation vc_sectors: sector_cipher "\<lambda>c. list_all ok_stage (stages c)" "\<lambda>_. 512" vc_unit
  by unfold_locales (use vc_unit_inverse(1) vc_unit_inverse(2) [of _ _ True] in simp_all)

text \<open>Encryption permutes the sectors of one size, so decryption is defined on all of them.\<close>

lemma bitlk_sector_total:
  assumes "bitlk_ok c" "length b = sector_size c"
  shows "\<exists>x. bitlk_crypt_sector c e u b = (None, x) \<and> length x = length b"
proof (cases e)
  case True
  then show ?thesis using bitlk_sector_inverse [OF assms, of u] by auto
next
  case False
  let ?S = "{b :: bytes. length b = sector_size c}" and ?f = "\<lambda>b. snd (bitlk_crypt_sector c True u b)"
  have f: "?f x \<in> ?S \<and> bitlk_crypt_sector c False u (?f x) = (None, x)" if "x \<in> ?S" for x
    using that bitlk_sector_inverse [OF assms(1), of x u] by force
  have "finite ?S" using finite_lists_length_eq [of "UNIV :: u8 set" "sector_size c"] by simp
  moreover have "?f ` ?S \<subseteq> ?S" using f by blast
  moreover have "inj_on ?f ?S"
    by (rule inj_on_inverseI [where g = "\<lambda>y. snd (bitlk_crypt_sector c False u y)"]) (simp only: conjunct2 [OF f] snd_conv)
  ultimately have "?f ` ?S = ?S" by (rule endo_inj_surj)
  with assms(2) obtain a where "a \<in> ?S" "b = ?f a" by blast
  with f [of a] assms(2) False show ?thesis by simp
qed

interpretation bitlk_sectors: sector_cipher bitlk_ok sector_size bitlk_unit
proof (unfold_locales, goal_cases)
  case (1 c)
  then show ?case using bitlk_ok_size [of c] by auto
next
  case (2 c b e u)
  then show ?case using bitlk_sector_total [of c b e u] by (auto simp: bitlk_unit_def)
next
  case (3 c b u)
  then show ?case using bitlk_sector_inverse [of c b u] by (auto simp: bitlk_unit_def)
qed

lemma crypt_sectors_run:
  "list_all ok_stage (stages c) \<Longrightarrow> length buf = n * 512 \<Longrightarrow>
   crypt_sectors c d u n buf = Some (crypt_run (vc_unit c (d = 1)) 512 u n buf)"
proof (induction n arbitrary: u buf)
  case (Suc n)
  have "unit_crypt (d = 1) c u buf 512 = Some (vc_unit c (d = 1) u (take 512 buf) @ drop 512 buf)"
    using vc_unit_inverse(3) [OF Suc.prems(1), of "take 512 buf" "d = 1" u "drop 512 buf"] Suc.prems(2) by simp
  moreover have "length (vc_unit c (d = 1) u (take 512 buf)) = 512"
    using vc_unit_inverse(1) [OF Suc.prems(1)] Suc.prems(2) by simp
  ultimately show ?case using Suc by simp
qed simp

lemma cryptSectorsInPlace_run:
  assumes "vc_cascade_new ids (int (length ids)) key = Some c" "length buf = n * 512" "0 < n" "length buf < 2 ^ 31"
  shows "cryptSectorsInPlace ids d key u buf 0 (of_nat (length buf)) = Some (0, crypt_run (vc_unit c (d = 1)) 512 u n buf)"
proof -
  have s: "sint (of_nat (length buf) :: 32 word) = int (length buf)"
    using assms(4) int_id [of "int (length buf)"] by simp
  then have "sector_range 0 (of_nat (length buf)) buf"
    using assms(2-4) by (simp add: sector_range_def)
  moreover have "nat (int (n * 512) div 512) = n" by simp
  ultimately show ?thesis
    using cryptSectorsInPlace_in_range [OF assms(1)] crypt_sectors_run [OF vc_cascade_new_ok [OF assms(1)] assms(2)]
      s assms(2) by simp
qed

lemma bitlk_loop_run:
  "bitlk_ok c \<Longrightarrow> length buf = n * sector_size c \<Longrightarrow>
   bitlk_sector_loop c e u n buf = (BITLK_OK, crypt_run (bitlk_unit c e) (sector_size c) u n buf)"
proof (induction n arbitrary: u buf)
  case (Suc n)
  obtain x where "bitlk_crypt_sector c e u (take (sector_size c) buf) = (None, x)"
    using bitlk_sector_total [OF Suc.prems(1), of "take (sector_size c) buf" e u] Suc.prems(2) by auto
  then show ?case using Suc by (simp add: bitlk_unit_def)
qed simp

lemma cryptSectors_run:
  assumes "bitlk_ok c" "length buf = n * sector_size c" "length buf < 2 ^ 31"
  shows "cryptSectors (Some c) e u buf 0 (of_nat (length buf)) = Some (BITLK_OK, crypt_run (bitlk_unit c e) (sector_size c) u n buf)"
proof -
  have s: "sint (of_nat (length buf) :: 32 word) = int (length buf)"
    using assms(3) int_id [of "int (length buf)"] by simp
  have "0 < sector_size c" using bitlk_sectors.unit_pos [OF assms(1)] .
  then have "bitlk_crypt_sectors (Some c) e u buf = (BITLK_OK, crypt_run (bitlk_unit c e) (sector_size c) u n buf)"
    using assms(2) bitlk_loop_run [OF assms(1,2), of e u] by (simp add: bitlk_crypt_sectors_def)
  with s show ?thesis by (simp add: cryptSectors_def Let_def)
qed

end
