(* ===== verification/VolumeDevice.thy ===== *)
theory VolumeDevice
  imports SectorCrypt
begin

text \<open>
  The decrypted volume \<^verbatim>\<open>NativeDecryptedBlockDevice\<close> (VeraCrypt, and LUKS with 512-byte sectors), a device over the
  encrypted one. The lemmas show that it keeps the contract of \<open>raw_device\<close>, its contents being the plaintext
  of the encrypted device, and that it turns away every request outside the volume.
\<close>

section \<open>VeraCrypt volumes\<close>

record 'd vc_volume =
  encryptedDevice :: 'd
  masterKey :: bytes
  closed :: bool

definition DECRYPT :: int where "DECRYPT = 0"
definition ENCRYPT :: int where "ENCRYPT = 1"

text \<open>The call of \<^verbatim>\<open>cryptSectorsInPlace\<close> on a whole array; the exception for a result other than 0 is \<open>None\<close>.\<close>

definition crypt_whole :: "int list \<Rightarrow> int \<Rightarrow> bytes \<Rightarrow> u64 \<Rightarrow> bytes \<Rightarrow> bytes option" where
  "crypt_whole ids direction key firstTweak data =
     (case cryptSectorsInPlace ids direction key firstTweak data 0 (of_nat (length data)) of
        Some (rc, out) \<Rightarrow> if rc \<noteq> 0 then None else Some out
      | None \<Rightarrow> None)"

definition volume_read :: "'d raw_block_device \<Rightarrow> int \<Rightarrow> int \<Rightarrow> int list \<Rightarrow> int \<Rightarrow> 'd vc_volume \<Rightarrow> int \<Rightarrow> int \<Rightarrow>
    bytes option \<times> 'd vc_volume" where
  "volume_read E volumeDataOffset cnt ids tweakDataOffset v startBlock n =
     (if closed v then (None, v)
      else if \<not> requireInRange cnt startBlock n then (None, v)
      else
        let physicalStartBlock = long (startBlock + volumeDataOffset);
            (r, d) = read_blocks E (encryptedDevice v) physicalStartBlock n;
            v = v\<lparr>encryptedDevice := d\<rparr>;
            sectorsPerBlock = int (bsize E div 512);
            firstTweak = word_of_int (tweakDataOffset * sectorsPerBlock + startBlock * sectorsPerBlock)
        in case r of
             None \<Rightarrow> (None, v)
           | Some encryptedData \<Rightarrow> (crypt_whole ids DECRYPT (masterKey v) firstTweak encryptedData, v))"

definition volume_write :: "'d raw_block_device \<Rightarrow> int \<Rightarrow> int \<Rightarrow> int list \<Rightarrow> int \<Rightarrow> 'd vc_volume \<Rightarrow> int \<Rightarrow> bytes \<Rightarrow>
    bool \<times> 'd vc_volume" where
  "volume_write E volumeDataOffset cnt ids tweakDataOffset v startBlock data =
     (if closed v then (False, v)
      else if \<not> requireInRange cnt startBlock (int (length data div bsize E)) then (False, v)
      else
        let physicalStartBlock = long (startBlock + volumeDataOffset);
            sectorsPerBlock = int (bsize E div 512);
            firstTweak = word_of_int (tweakDataOffset * sectorsPerBlock + startBlock * sectorsPerBlock)
        in case crypt_whole ids ENCRYPT (masterKey v) firstTweak data of
             None \<Rightarrow> (False, v)
           | Some encryptedData \<Rightarrow>
               let (w, d) = write_blocks E (encryptedDevice v) physicalStartBlock encryptedData
               in (w, v\<lparr>encryptedDevice := d\<rparr>))"

definition NativeDecryptedBlockDevice ::
  "'d raw_block_device \<Rightarrow> int \<Rightarrow> int \<Rightarrow> int list \<Rightarrow> int \<Rightarrow> 'd vc_volume raw_block_device" where
  "NativeDecryptedBlockDevice E volumeDataOffset cnt ids tweakDataOffset =
     \<lparr>bsize = bsize E, bcount = cnt,
      read_blocks = volume_read E volumeDataOffset cnt ids tweakDataOffset,
      write_blocks = volume_write E volumeDataOffset cnt ids tweakDataOffset\<rparr>"

definition volume_close :: "'d vc_volume \<Rightarrow> 'd vc_volume" where
  "volume_close v = v\<lparr>closed := True, masterKey := replicate (length (masterKey v)) 0\<rparr>"

text \<open>The contents: the plaintext of the data area under the cascade of the master key.\<close>

definition volume_view :: "('d \<Rightarrow> nat \<Rightarrow> u8) \<Rightarrow> nat \<Rightarrow> int list \<Rightarrow> u64 \<Rightarrow> 'd vc_volume \<Rightarrow> nat \<Rightarrow> u8" where
  "volume_view base off ids twk v =
     plaintext (vc_unit (the (vc_cascade_new ids (int (length ids)) (masterKey v))) False) 512 twk
       (slice_view base off (encryptedDevice v))"

definition volume_ok :: "('d \<Rightarrow> bool) \<Rightarrow> int list \<Rightarrow> 'd vc_volume \<Rightarrow> bool" where
  "volume_ok ok ids v \<longleftrightarrow>
     ok (encryptedDevice v) \<and> (closed v \<or> vc_cascade_new ids (int (length ids)) (masterKey v) \<noteq> None)"

lemma crypt_whole_run:
  assumes "vc_cascade_new ids (int (length ids)) key = Some c" "length data = n * 512" "length data < 2 ^ 31"
  shows "crypt_whole ids direction key u data =
    (if n = 0 then None else Some (crypt_run (vc_unit c (direction = 1)) 512 u n data))"
proof (cases n)
  case 0
  then show ?thesis using assms(2) by (auto simp: crypt_whole_def cryptSectorsInPlace_def split: option.splits)
next
  case (Suc j)
  then show ?thesis using cryptSectorsInPlace_run [OF assms(1,2) _ assms(3)] by (simp add: crypt_whole_def)
qed

context raw_device
begin

lemma volume_read_law:
  assumes geo: "0 \<le> off" "off + cnt \<le> bcount D" "bsize D = spb * 512"
    and v: "volume_ok ok ids v" and r: "in_range cnt s n" "nat n * bsize D < 2 ^ 31"
    and run: "volume_read D off cnt ids twk v s n = (r, v')"
  defines "vw \<equiv> volume_view view (nat off * bsize D) ids (word_of_int (twk * int spb))"
  shows "volume_ok ok ids v' \<and> vw v' = vw v \<and> (r = None \<or> r = Some (peek (vw v) (nat s * bsize D) (nat n * bsize D)))"
proof (cases "closed v")
  case True
  then show ?thesis using run v by (auto simp: volume_read_def)
next
  case False
  then obtain c where c: "vc_cascade_new ids (int (length ids)) (masterKey v) = Some c"
    using v by (auto simp: volume_ok_def)
  note sh = in_range_shift [OF r(1) geo(1,2)]
  obtain x d where x: "read_blocks D (encryptedDevice v) (off + s) n = (x, d)" by fastforce
  have req: "requireInRange cnt s n" "long (s + off) = off + s"
    using r(1) sh by (auto simp: requireInRange_def in_range_def add.commute)
  have law: "ok d" "view d = view (encryptedDevice v)"
    "x = None \<or> x = Some (peek (view (encryptedDevice v)) (nat (off + s) * bsize D) (nat n * bsize D))"
    using read_law [OF _ sh(1) r(2) x] v by (auto simp: volume_ok_def)
  let ?u = "word_of_int (twk * int (bsize D div 512) + s * int (bsize D div 512)) :: u64"
  have v': "v' = v\<lparr>encryptedDevice := d\<rparr>" and res: "r = Option.bind x (crypt_whole ids DECRYPT (masterKey v) ?u)"
    using run False req x by (auto simp: volume_read_def Let_def split: option.splits)
  have vw: "vw v' = vw v" "volume_ok ok ids v'"
    using law(1,2) v False by (simp_all add: v' vw_def volume_view_def slice_view_def [abs_def] volume_ok_def)
  show ?thesis
  proof (cases x)
    case None
    then show ?thesis using vw res by simp
  next
    case (Some data)
    let ?m = "slice_view view (nat off * bsize D) (encryptedDevice v)"
    have data: "data = peek ?m (nat s * spb * 512) (nat n * spb * 512)"
      using Some law(3) sh(4) geo(3) by (simp add: peek_slice mult.assoc)
    have u: "?u = word_of_int (twk * int spb) + of_nat (nat s * spb)"
      using r(1) geo(3) by (simp add: in_range_def)
    let ?t = "word_of_int (twk * int spb) :: u64"
    have "r = crypt_whole ids DECRYPT (masterKey v) (?t + of_nat (nat s * spb)) data"
      using res Some by (simp only: u bind.bind_lunit)
    also have "\<dots> = (if nat n * spb = 0 then None
        else Some (crypt_run (vc_unit c (DECRYPT = 1)) 512 (?t + of_nat (nat s * spb)) (nat n * spb) data))"
      by (rule crypt_whole_run [OF c]) (use r(2) geo(3) in \<open>simp_all add: data mult.assoc\<close>)
    also have "crypt_run (vc_unit c (DECRYPT = 1)) 512 (?t + of_nat (nat s * spb)) (nat n * spb) data =
        peek (vw v) (nat s * spb * 512) (nat n * spb * 512)"
      unfolding data vw_def volume_view_def c DECRYPT_def option.sel
      by (simp only: zero_neq_one) (rule vc_sectors.decrypt_run [OF vc_cascade_new_ok [OF c]])
    finally have "r = None \<or> r = Some (peek (vw v) (nat s * spb * 512) (nat n * spb * 512))" by simp
    then show ?thesis using vw geo(3) by (auto simp: mult.assoc)
  qed
qed

lemma volume_write_law:
  assumes geo: "0 \<le> off" "off + cnt \<le> bcount D" "bsize D = spb * 512"
    and v: "volume_ok ok ids v" and r: "in_range cnt s n" "length data = nat n * bsize D" "length data < 2 ^ 31"
    and run: "volume_write D off cnt ids twk v s data = (w, v')"
  defines "vw \<equiv> volume_view view (nat off * bsize D) ids (word_of_int (twk * int spb))"
  shows "volume_ok ok ids v' \<and> (w \<longrightarrow> vw v' = poke (vw v) (nat s * bsize D) data) \<and>
    (\<forall>a. a < nat s * bsize D \<or> nat s * bsize D + length data \<le> a \<longrightarrow> vw v' a = vw v a)"
proof (cases "closed v \<or> nat n * spb = 0")
  case True
  have "\<not> w \<and> v' = v"
  proof (cases "closed v")
    case False
    with True v obtain c where "vc_cascade_new ids (int (length ids)) (masterKey v) = Some c" "length data = 0 * 512"
      using r(2) geo(3) by (auto simp: volume_ok_def)
    from crypt_whole_run [OF this] show ?thesis
      using run False r(3) by (auto simp: volume_write_def Let_def split: if_splits)
  qed (use run in \<open>simp add: volume_write_def\<close>)
  then show ?thesis using v by simp
next
  case False
  then obtain c where c: "vc_cascade_new ids (int (length ids)) (masterKey v) = Some c"
    using v by (auto simp: volume_ok_def)
  note sh = in_range_shift [OF r(1) geo(1,2)] and k = vc_cascade_new_ok [OF c]
  let ?t = "word_of_int (twk * int spb) :: u64" and ?i = "nat s * spb" and ?n = "nat n * spb"
  let ?e = "crypt_run (vc_unit c True) 512 (?t + of_nat ?i) ?n data"
  have len: "length data = ?n * 512" "length ?e = nat n * bsize D"
    using r(2) geo(3) vc_sectors.length_crypt_run [OF k, of data ?n] by (simp_all add: mult.assoc)
  have "int (length data div bsize D) = n" using r(1,2) bsize_pos by (simp add: in_range_def)
  then have req: "requireInRange cnt s (int (length data div bsize D))" "long (s + off) = off + s"
    using r(1) sh by (auto simp: requireInRange_def in_range_def add.commute)
  have u: "word_of_int (twk * int (bsize D div 512) + s * int (bsize D div 512)) = ?t + of_nat ?i"
    using r(1) geo(3) by (simp add: in_range_def)
  have cw: "crypt_whole ids ENCRYPT (masterKey v) (word_of_int (twk * int (bsize D div 512) + s * int (bsize D div 512))) data = Some ?e"
    unfolding u using crypt_whole_run [OF c len(1) r(3)] False by (simp add: ENCRYPT_def)
  obtain d where d: "write_blocks D (encryptedDevice v) (off + s) ?e = (w, d)" and v': "v' = v\<lparr>encryptedDevice := d\<rparr>"
    using run False req cw by (auto simp: volume_write_def Let_def split: prod.splits)
  have law: "ok d" "w \<longrightarrow> view d = poke (view (encryptedDevice v)) (nat (off + s) * bsize D) ?e"
    "\<And>a. a < nat (off + s) * bsize D \<or> nat (off + s) * bsize D + length ?e \<le> a \<Longrightarrow> view d a = view (encryptedDevice v) a"
    using write_law [OF _ sh(1) len(2) _ d] v len r(2,3) by (auto simp: volume_ok_def)
  let ?m = "slice_view view (nat off * bsize D) (encryptedDevice v)" and ?m' = "slice_view view (nat off * bsize D) d"
  have vws: "vw v = plaintext (vc_unit c False) 512 ?t ?m" "vw v' = plaintext (vc_unit c False) 512 ?t ?m'"
    by (simp_all add: vw_def volume_view_def v' c)
  have s512: "nat s * bsize D = ?i * 512" "nat s * bsize D + length data = (?i + ?n) * 512"
    using geo(3) len(1) by (simp_all add: mult.assoc add_mult_distrib)
  have "vw v' = poke (vw v) (nat s * bsize D) data" if w
    unfolding vws s512
    by (rule vc_sectors.encrypt_run [OF k len(1)]) (use law(2) that sh(4) s512 in \<open>simp add: slice_poke\<close>)
  moreover have "vw v' a = vw v a" if "a < nat s * bsize D \<or> nat s * bsize D + length data \<le> a" for a
    unfolding vws
  proof (rule vc_sectors.plaintext_outside [OF _ k])
    show "a < ?i * 512 \<or> (?i + ?n) * 512 \<le> a" using that len(1) geo(3) by (simp add: mult.assoc add_mult_distrib)
    fix b assume "b < ?i * 512 \<or> (?i + ?n) * 512 \<le> b"
    then show "?m' b = ?m b" unfolding slice_view_def
      by (intro law(3)) (simp only: sh(4) len(2), auto simp: geo(3) add_mult_distrib mult.assoc)
  qed
  moreover have "volume_ok ok ids v'" using v law(1) by (simp add: volume_ok_def v')
  ultimately show ?thesis by blast
qed

lemma volume_confined:
  assumes "0 \<le> off" "0 \<le> cnt" "off + cnt \<le> bcount D" "bsize D = spb * 512"
  shows "confined_device (NativeDecryptedBlockDevice D off cnt ids twk)
    (volume_view view (nat off * bsize D) ids (word_of_int (twk * int spb))) (volume_ok ok ids)"
proof (unfold_locales, goal_cases)
  case (4 v s n r v')
  with volume_read_law [OF assms(1,3,4)] show ?case by (simp add: NativeDecryptedBlockDevice_def)
next
  case (5 v s n data w v')
  with volume_write_law [OF assms(1,3,4)] show ?case by (simp add: NativeDecryptedBlockDevice_def)
next
  case (6 v s n)
  then show ?case by (auto simp: NativeDecryptedBlockDevice_def volume_read_def requireInRange_def in_range_def)
next
  case (7 v s data k)
  then have "int k < 2 ^ 31" "length data div bsize D = k"
    using bsize_pos block_count_small [of "bsize D" data k] by (simp_all add: NativeDecryptedBlockDevice_def)
  with 7 show ?case
    by (auto simp: NativeDecryptedBlockDevice_def volume_write_def requireInRange_def in_range_def)
qed (use assms bsize_pos bcount_range in \<open>simp_all add: NativeDecryptedBlockDevice_def\<close>)

end

end
