(* ===== verification/BlockCache.thy ===== *)
theory BlockCache
  imports RawDevice
begin

text \<open>
  \<^verbatim>\<open>CachedBlockDevice\<close>, the read cache above the decrypted device. Lines of \<^verbatim>\<open>blocksPerLine\<close> blocks are kept in a
  \<^verbatim>\<open>LinkedHashMap\<close> in access order; writes go through and patch the cached lines. The line arrays are
  objects of their own (the map holds references, and eviction zeroes an array), so the model has a store
  of arrays and the map holds addresses. The critical sections of the code are definitions of their own;
  here they are put together as one thread runs them, and the cache is shown to be transparent.
\<close>

section \<open>State\<close>

record 'd cache =
  delegate :: 'd
  arrays :: "bytes list"
  lines :: "(nat \<times> nat) list"
  fetching :: "nat set"
  dirtiedWhileFetching :: "nat set"
  hits :: nat
  misses :: nat
  delegateBlocksRead :: nat
  delegateBlocksWritten :: nat
  bypasses :: nat

definition blocksPerLine :: "nat \<Rightarrow> int \<Rightarrow> nat" where
  "blocksPerLine bs readAheadBytes = nat (max 1 (readAheadBytes div int bs))"

definition maxLines :: "nat \<Rightarrow> int \<Rightarrow> nat \<Rightarrow> nat" where
  "maxLines bs maxCacheBytes bpl = nat (max 4 (maxCacheBytes div int (bpl * bs)))"

definition DEFAULT_CACHE_BYTES :: int where "DEFAULT_CACHE_BYTES = 8 * 1024 * 1024"
definition DEFAULT_READAHEAD_BYTES :: int where "DEFAULT_READAHEAD_BYTES = 64 * 1024"
definition FAT_READAHEAD_BYTES :: int where "FAT_READAHEAD_BYTES = 4 * 1024"
definition NO_READAHEAD_BYTES :: int where "NO_READAHEAD_BYTES = 512"

section \<open>The map of lines\<close>

text \<open>The eldest entry is at the head of the list; \<^verbatim>\<open>get\<close> moves an entry to the end.\<close>

definition fill0 :: "'d cache \<Rightarrow> nat \<Rightarrow> 'd cache" where
  "fill0 c a = c\<lparr>arrays := (arrays c)[a := replicate (length (arrays c ! a)) 0]\<rparr>"

definition get_line :: "'d cache \<Rightarrow> nat \<Rightarrow> nat option \<times> 'd cache" where
  "get_line c i =
     (case map_of (lines c) i of
        None \<Rightarrow> (None, c)
      | Some a \<Rightarrow> (Some a, c\<lparr>lines := filter (\<lambda>e. fst e \<noteq> i) (lines c) @ [(i, a)]\<rparr>))"

definition removeEldestEntry :: "nat \<Rightarrow> 'd cache \<Rightarrow> 'd cache" where
  "removeEldestEntry maxl c =
     (if length (lines c) \<le> maxl then c
      else (fill0 c (snd (hd (lines c))))\<lparr>lines := tl (lines c)\<rparr>)"

definition put_line :: "nat \<Rightarrow> 'd cache \<Rightarrow> nat \<Rightarrow> nat \<Rightarrow> 'd cache" where
  "put_line maxl c i a =
     (if map_of (lines c) i \<noteq> None then c\<lparr>lines := filter (\<lambda>e. fst e \<noteq> i) (lines c) @ [(i, a)]\<rparr>
      else removeEldestEntry maxl (c\<lparr>lines := lines c @ [(i, a)]\<rparr>))"

definition remove_line :: "'d cache \<Rightarrow> nat \<Rightarrow> 'd cache" where
  "remove_line c i =
     (case map_of (lines c) i of
        None \<Rightarrow> c
      | Some a \<Rightarrow> (fill0 c a)\<lparr>lines := filter (\<lambda>e. fst e \<noteq> i) (lines c)\<rparr>)"

section \<open>Fetching a line\<close>

text \<open>The first critical section of \<^verbatim>\<open>lineFor\<close>.\<close>

definition lookup_line :: "'d cache \<Rightarrow> nat \<Rightarrow> nat option \<times> 'd cache" where
  "lookup_line c i =
     (let (r, c) = get_line c i
      in case r of
           Some a \<Rightarrow> (Some a, c\<lparr>hits := hits c + 1\<rparr>)
         | None \<Rightarrow> (None, c\<lparr>misses := misses c + 1, fetching := insert i (fetching c)\<rparr>))"

definition line_count :: "'d raw_block_device \<Rightarrow> nat \<Rightarrow> nat \<Rightarrow> nat" where
  "line_count D bpl i = nat (min (int bpl) (bcount D - int (i * bpl)))"

text \<open>The read of the delegate, outside the lock; the array it returns is new.\<close>

definition load_line :: "'d raw_block_device \<Rightarrow> nat \<Rightarrow> 'd cache \<Rightarrow> nat \<Rightarrow> nat option \<times> 'd cache" where
  "load_line D bpl c i =
     (let (r, d) = read_blocks D (delegate c) (int (i * bpl)) (int (line_count D bpl i));
          c = c\<lparr>delegate := d\<rparr>
      in case r of
           None \<Rightarrow> (None, c)
         | Some data \<Rightarrow> (Some (length (arrays c)), c\<lparr>arrays := arrays c @ [data]\<rparr>))"

definition fetch_failed :: "'d cache \<Rightarrow> nat \<Rightarrow> 'd cache" where
  "fetch_failed c i = c\<lparr>fetching := fetching c - {i}, dirtiedWhileFetching := dirtiedWhileFetching c - {i}\<rparr>"

text \<open>The last critical section: the line is published unless a write came in between.\<close>

definition publish_line :: "nat \<Rightarrow> 'd cache \<Rightarrow> nat \<Rightarrow> nat \<Rightarrow> nat \<Rightarrow> nat \<times> 'd cache" where
  "publish_line maxl c i cnt a =
     (let c = c\<lparr>delegateBlocksRead := delegateBlocksRead c + cnt, fetching := fetching c - {i}\<rparr>;
          superseded = i \<in> dirtiedWhileFetching c;
          c = c\<lparr>dirtiedWhileFetching := dirtiedWhileFetching c - {i}\<rparr>
      in if superseded then
           (case get_line c i of
              (Some a', c) \<Rightarrow> (a', c)
            | (None, c) \<Rightarrow> (a, c))
         else (a, put_line maxl c i a))"

definition lineFor :: "'d raw_block_device \<Rightarrow> nat \<Rightarrow> nat \<Rightarrow> 'd cache \<Rightarrow> nat \<Rightarrow> nat option \<times> 'd cache" where
  "lineFor D bpl maxl c i =
     (case lookup_line c i of
        (Some a, c) \<Rightarrow> (Some a, c)
      | (None, c) \<Rightarrow>
          if line_count D bpl i = 0 then (None, c)
          else
            (case load_line D bpl c i of
               (None, c) \<Rightarrow> (None, fetch_failed c i)
             | (Some a, c) \<Rightarrow> (let (a, c) = publish_line maxl c i (line_count D bpl i) a in (Some a, c))))"

section \<open>Reading\<close>

text \<open>The bytes of a request that one line holds: from block \<open>block\<close>, at most \<open>left\<close> blocks.\<close>

definition line_part :: "nat \<Rightarrow> nat \<Rightarrow> bytes \<Rightarrow> nat \<Rightarrow> nat \<Rightarrow> bytes option" where
  "line_part bs bpl line block left =
     (let offsetInLine = block mod bpl;
          available = length line div bs - offsetInLine;
          tk = min available left
      in if available = 0 then None else Some (take (tk * bs) (drop (offsetInLine * bs) line)))"

text \<open>The loop of \<^verbatim>\<open>readBlocks\<close>. A part is never empty, so the number of blocks still to read falls.\<close>

function read_lines :: "'d raw_block_device \<Rightarrow> nat \<Rightarrow> nat \<Rightarrow> 'd cache \<Rightarrow> nat \<Rightarrow> nat \<Rightarrow> bytes option \<times> 'd cache" where
  "read_lines D bpl maxl c block left =
     (if left = 0 then (Some [], c)
      else
        case lineFor D bpl maxl c (block div bpl) of
          (None, c) \<Rightarrow> (None, c)
        | (Some a, c) \<Rightarrow>
            (case line_part (bsize D) bpl (arrays c ! a) block left of
               None \<Rightarrow> (None, c)
             | Some part \<Rightarrow>
                 let tk = min (length (arrays c ! a) div bsize D - block mod bpl) left;
                     (r, c) = read_lines D bpl maxl c (block + tk) (left - tk)
                 in (map_option (\<lambda>rest. part @ rest) r, c)))"
  by pat_completeness auto
termination
  by (relation "measure (\<lambda>(D, bpl, maxl, c, block, left). left)")
    (auto simp: line_part_def Let_def split: if_splits)

declare read_lines.simps [simp del]

definition cached_read :: "'d raw_block_device \<Rightarrow> nat \<Rightarrow> nat \<Rightarrow> 'd cache \<Rightarrow> int \<Rightarrow> int \<Rightarrow> bytes option \<times> 'd cache" where
  "cached_read D bpl maxl c startBlock n =
     (if \<not> 0 \<le> n then (None, c)
      else if \<not> 0 \<le> startBlock then (None, c)
      else if \<not> long (startBlock + n) \<le> bcount D then (None, c)
      else if n = 0 then (Some [], c)
      else if int bpl \<le> n then
        let c = c\<lparr>bypasses := bypasses c + 1, delegateBlocksRead := delegateBlocksRead c + nat n\<rparr>;
            (r, d) = read_blocks D (delegate c) startBlock n
        in (r, c\<lparr>delegate := d\<rparr>)
      else read_lines D bpl maxl c (nat startBlock) (nat n))"

section \<open>Writing\<close>

definition markFetchesDirty :: "nat \<Rightarrow> 'd cache \<Rightarrow> nat \<Rightarrow> nat \<Rightarrow> 'd cache" where
  "markFetchesDirty bpl c startBlock blocks =
     (if fetching c = {} \<or> blocks = 0 then c
      else
        let firstLine = startBlock div bpl; lastLine = (startBlock + blocks - 1) div bpl
        in c\<lparr>dirtiedWhileFetching := dirtiedWhileFetching c \<union> {i \<in> fetching c. firstLine \<le> i \<and> i \<le> lastLine}\<rparr>)"

text \<open>\<^verbatim>\<open>patchRange\<close> from block \<open>block\<close> on, with the data still to apply.\<close>

function patchRange :: "nat \<Rightarrow> nat \<Rightarrow> 'd cache \<Rightarrow> nat \<Rightarrow> bytes \<Rightarrow> 'd cache" where
  "patchRange bs bpl c block data =
     (if length data div bs = 0 \<or> bpl = 0 then c
      else
        let offsetInLine = block mod bpl;
            tk = min (bpl - offsetInLine) (length data div bs);
            c = (case get_line c (block div bpl) of
                   (None, c) \<Rightarrow> c
                 | (Some a, c) \<Rightarrow>
                     let line = arrays c ! a;
                         copyable = min tk (length line div bs - offsetInLine)
                     in if copyable > 0
                        then c\<lparr>arrays := (arrays c)[a := overwrite line (offsetInLine * bs) (take (copyable * bs) data)]\<rparr>
                        else c)
        in patchRange bs bpl c (block + tk) (drop (tk * bs) data))"
  by pat_completeness auto
termination
proof (relation "measure (\<lambda>(bs, bpl, c, block, data). length data)", goal_cases)
  case (2 bs bpl c block data off tk c')
  then have "0 < tk" "0 < bs" "0 < length data" by (auto intro: Nat.gr0I)
  then show ?case by simp
qed simp

declare patchRange.simps [simp del]

definition invalidateRange :: "nat \<Rightarrow> 'd cache \<Rightarrow> nat \<Rightarrow> nat \<Rightarrow> 'd cache" where
  "invalidateRange bpl c startBlock blocks =
     (if blocks = 0 then c
      else foldl remove_line c [startBlock div bpl..<(startBlock + blocks - 1) div bpl + 1])"

text \<open>The critical section of \<^verbatim>\<open>writeBlocks\<close>.\<close>

definition write_section :: "'d raw_block_device \<Rightarrow> nat \<Rightarrow> 'd cache \<Rightarrow> nat \<Rightarrow> bytes \<Rightarrow> bool \<times> 'd cache" where
  "write_section D bpl c startBlock data =
     (let blocks = length data div bsize D;
          c = markFetchesDirty bpl c startBlock blocks;
          (w, d) = write_blocks D (delegate c) (int startBlock) data;
          c = c\<lparr>delegate := d\<rparr>
      in if \<not> w then (False, invalidateRange bpl c startBlock blocks)
         else
           let c = c\<lparr>delegateBlocksWritten := delegateBlocksWritten c + blocks\<rparr>
           in (True, patchRange (bsize D) bpl c startBlock data))"

definition cached_write :: "'d raw_block_device \<Rightarrow> nat \<Rightarrow> 'd cache \<Rightarrow> int \<Rightarrow> bytes \<Rightarrow> bool \<times> 'd cache" where
  "cached_write D bpl c startBlock data =
     (if length data mod bsize D \<noteq> 0 then (False, c)
      else if \<not> requireInRange (bcount D) startBlock (int (length data div bsize D)) then (False, c)
      else write_section D bpl c (nat startBlock) data)"

definition invalidate :: "'d cache \<Rightarrow> 'd cache" where
  "invalidate c =
     (foldl fill0 (c\<lparr>dirtiedWhileFetching := dirtiedWhileFetching c \<union> fetching c\<rparr>) (map snd (lines c)))\<lparr>lines := []\<rparr>"

text \<open>\<^verbatim>\<open>close\<close> drops the lines and closes the delegate; \<^verbatim>\<open>resetStats\<close> leaves \<open>delegateBlocksWritten\<close> alone.\<close>

definition cache_close :: "('d \<Rightarrow> 'd) \<Rightarrow> 'd cache \<Rightarrow> 'd cache" where
  "cache_close closeDelegate c = (let c = invalidate c in c\<lparr>delegate := closeDelegate (delegate c)\<rparr>)"

definition resetStats :: "'d cache \<Rightarrow> 'd cache" where
  "resetStats c = c\<lparr>hits := 0, misses := 0, delegateBlocksRead := 0, bypasses := 0\<rparr>"

definition CachedBlockDevice :: "'d raw_block_device \<Rightarrow> int \<Rightarrow> int \<Rightarrow> 'd cache raw_block_device" where
  "CachedBlockDevice D maxCacheBytes readAheadBytes =
     (let bpl = blocksPerLine (bsize D) readAheadBytes;
          maxl = maxLines (bsize D) maxCacheBytes bpl
      in \<lparr>bsize = bsize D, bcount = bcount D,
          read_blocks = cached_read D bpl maxl,
          write_blocks = cached_write D bpl\<rparr>)"

definition new_cache :: "'d \<Rightarrow> 'd cache" where
  "new_cache d =
     \<lparr>delegate = d, arrays = [], lines = [], fetching = {}, dirtiedWhileFetching = {}, hits = 0, misses = 0,
      delegateBlocksRead = 0, delegateBlocksWritten = 0, bypasses = 0\<rparr>"

section \<open>Coherence\<close>

text \<open>Every cached line holds what the device holds, and no two entries share an array.\<close>

definition line_bytes :: "'d raw_block_device \<Rightarrow> nat \<Rightarrow> (nat \<Rightarrow> u8) \<Rightarrow> nat \<Rightarrow> bytes" where
  "line_bytes D bpl m i = peek m (i * bpl * bsize D) (line_count D bpl i * bsize D)"

definition coherent :: "'d raw_block_device \<Rightarrow> nat \<Rightarrow> (nat \<Rightarrow> u8) \<Rightarrow> 'd cache \<Rightarrow> bool" where
  "coherent D bpl m c \<longleftrightarrow>
     distinct (map fst (lines c)) \<and> distinct (map snd (lines c)) \<and>
     (\<forall>(i, a) \<in> set (lines c). a < length (arrays c) \<and> 0 < line_count D bpl i \<and> arrays c ! a = line_bytes D bpl m i)"

lemma distinct_keyE:
  assumes "distinct (map fst xs)" "map_of xs i = Some a"
  shows "(i, a) \<in> set xs" "\<And>b. (i, b) \<in> set xs \<Longrightarrow> b = a"
  using assms by (auto simp: map_of_eq_Some_iff)

lemma distinct_values_neq:
  "distinct (map snd xs) \<Longrightarrow> (i, a) \<in> set xs \<Longrightarrow> (j, b) \<in> set xs \<Longrightarrow> i \<noteq> j \<Longrightarrow> a \<noteq> b"
  by (induction xs) force+

lemma coherent_cong:
  assumes "coherent D bpl m c" "distinct (map fst (lines c'))" "distinct (map snd (lines c'))" "set (lines c') \<subseteq> set (lines c)"
    and "\<And>i a. (i, a) \<in> set (lines c') \<Longrightarrow> arrays c' ! a = arrays c ! a" "length (arrays c) \<le> length (arrays c')"
  shows "coherent D bpl m c'"
  using assms unfolding coherent_def by fastforce

lemma get_line_result:
  assumes "coherent D bpl m c" "get_line c i = (r, c')"
  shows "r = map_of (lines c) i" "coherent D bpl m c'" "set (lines c') = set (lines c)" "length (lines c') = length (lines c)"
    "arrays c' = arrays c" "delegate c' = delegate c" "fetching c' = fetching c"
    "dirtiedWhileFetching c' = dirtiedWhileFetching c"
proof -
  have d: "distinct (map fst (lines c))" "distinct (map snd (lines c))" using assms(1) by (simp_all add: coherent_def)
  show "r = map_of (lines c) i" using assms(2) by (auto simp: get_line_def split: option.splits)
  show arr: "arrays c' = arrays c" and "delegate c' = delegate c" "fetching c' = fetching c"
    "dirtiedWhileFetching c' = dirtiedWhileFetching c"
    using assms(2) by (auto simp: get_line_def split: option.splits)
  show s: "set (lines c') = set (lines c)"
    using assms(2) distinct_keyE [OF d(1), of i] by (auto simp: get_line_def split: option.splits)
  have k: "map fst (lines c') = (case map_of (lines c) i of None \<Rightarrow> map fst (lines c) | Some _ \<Rightarrow> filter (\<lambda>j. j \<noteq> i) (map fst (lines c)) @ [i])"
    using assms(2) by (auto simp: get_line_def filter_map comp_def split: option.splits)
  then have d1: "distinct (map fst (lines c'))" using d(1) by (auto split: option.splits)
  have "length (lines c') = card (set (lines c'))" "length (lines c) = card (set (lines c))"
    using d1 d(1) by (simp_all add: distinct_card distinct_map)
  with s show len: "length (lines c') = length (lines c)" by simp
  have "set (map snd (lines c')) = set (map snd (lines c))" using s by simp
  then have d2: "distinct (map snd (lines c'))" using d(2) len by (metis card_distinct distinct_card length_map)
  show "coherent D bpl m c'"
    by (rule coherent_cong [OF assms(1) d1 d2]) (use s arr in simp_all)
qed

lemma arrays_fill0 [simp]: "length (arrays (fill0 c a)) = length (arrays c)" "b \<noteq> a \<Longrightarrow> arrays (fill0 c a) ! b = arrays c ! b"
  "lines (fill0 c a) = lines c" "delegate (fill0 c a) = delegate c" "fetching (fill0 c a) = fetching c"
  "dirtiedWhileFetching (fill0 c a) = dirtiedWhileFetching c"
  by (simp_all add: fill0_def)

lemma coherent_evict:
  assumes "coherent D bpl m c" "lines c = (j, b) # es"
  shows "coherent D bpl m ((fill0 c b)\<lparr>lines := es\<rparr>)"
  by (rule coherent_cong [OF assms(1)]) (use assms in \<open>force simp: coherent_def\<close>)+

lemma put_line_result:
  assumes c: "coherent D bpl m c" and a: "a < length (arrays c)" "a \<notin> snd ` set (lines c)"
    and line: "0 < line_count D bpl i" "arrays c ! a = line_bytes D bpl m i"
    and l: "length (lines c) \<le> maxl" "0 < maxl"
  shows "coherent D bpl m (put_line maxl c i a)" "length (lines (put_line maxl c i a)) \<le> maxl"
    "arrays (put_line maxl c i a) ! a = line_bytes D bpl m i"
proof -
  let ?c = "c\<lparr>lines := filter (\<lambda>e. fst e \<noteq> i) (lines c) @ [(i, a)]\<rparr>" and ?n = "c\<lparr>lines := lines c @ [(i, a)]\<rparr>"
  have new: "coherent D bpl m ?c"
    using c a line by (auto simp: coherent_def distinct_map_filter image_iff split: prod.splits)
  have "coherent D bpl m (put_line maxl c i a) \<and> length (lines (put_line maxl c i a)) \<le> maxl \<and>
    arrays (put_line maxl c i a) ! a = line_bytes D bpl m i"
  proof (cases "map_of (lines c) i")
    case (Some b)
    then have "(i, b) \<in> set (lines c)" by (rule map_of_SomeD)
    then have "length (filter (\<lambda>e. fst e \<noteq> i) (lines c)) < length (lines c)" by (intro length_filter_less) auto
    with Some new l line show ?thesis by (simp add: put_line_def)
  next
    case None
    then have "filter (\<lambda>e. fst e \<noteq> i) (lines c) = lines c" by (auto simp: filter_id_conv map_of_eq_None_iff)
    with new have n: "coherent D bpl m ?n" by simp
    show ?thesis
    proof (cases "length (lines c) < maxl")
      case True
      with None n line show ?thesis by (simp add: put_line_def removeEldestEntry_def)
    next
      case False
      then obtain j b es where e: "lines c = (j, b) # es" using l by (cases "lines c") auto
      with a have "b \<noteq> a" by auto
      with None n line False l e coherent_evict [OF n, of j b "es @ [(i, a)]"] show ?thesis
        by (simp add: put_line_def removeEldestEntry_def fill0_def)
    qed
  qed
  then show "coherent D bpl m (put_line maxl c i a)" "length (lines (put_line maxl c i a)) \<le> maxl"
    "arrays (put_line maxl c i a) ! a = line_bytes D bpl m i" by simp_all
qed

lemma put_line_other [simp]:
  "delegate (put_line maxl c i a) = delegate c" "fetching (put_line maxl c i a) = fetching c"
  "dirtiedWhileFetching (put_line maxl c i a) = dirtiedWhileFetching c"
  by (simp_all add: put_line_def removeEldestEntry_def)

lemma remove_line_result:
  assumes "coherent D bpl m c"
  shows "coherent D bpl m (remove_line c i)" "fst ` set (lines (remove_line c i)) = fst ` set (lines c) - {i}"
    "length (lines (remove_line c i)) \<le> length (lines c)"
    "delegate (remove_line c i) = delegate c" "fetching (remove_line c i) = fetching c"
    "dirtiedWhileFetching (remove_line c i) = dirtiedWhileFetching c"
proof -
  have d: "distinct (map fst (lines c))" "distinct (map snd (lines c))" using assms by (simp_all add: coherent_def)
  show "coherent D bpl m (remove_line c i)"
  proof (cases "map_of (lines c) i")
    case (Some a)
    have "(j, b) \<in> set (lines c) \<Longrightarrow> j \<noteq> i \<Longrightarrow> b \<noteq> a" for j b
      using distinct_values_neq [OF d(2)] distinct_keyE(1) [OF d(1) Some] by blast
    then show ?thesis
      by (intro coherent_cong [OF assms]) (use Some d in \<open>auto simp: remove_line_def distinct_map_filter\<close>)
  qed (use assms in \<open>simp add: remove_line_def\<close>)
  show "fst ` set (lines (remove_line c i)) = fst ` set (lines c) - {i}"
    by (auto simp: remove_line_def map_of_eq_None_iff image_iff split: option.splits)
qed (auto simp: remove_line_def split: option.splits)

lemma coherent_medium_cong:
  assumes "coherent D bpl m c" "\<And>i. i \<in> fst ` set (lines c) \<Longrightarrow> line_bytes D bpl m' i = line_bytes D bpl m i"
  shows "coherent D bpl m' c"
  using assms by (force simp: coherent_def)

section \<open>Reads and writes of one thread\<close>

definition cache_ok :: "('d \<Rightarrow> nat \<Rightarrow> u8) \<Rightarrow> ('d \<Rightarrow> bool) \<Rightarrow> 'd raw_block_device \<Rightarrow> nat \<Rightarrow> nat \<Rightarrow> 'd cache \<Rightarrow> bool" where
  "cache_ok view ok D bpl maxl c \<longleftrightarrow>
     ok (delegate c) \<and> coherent D bpl (view (delegate c)) c \<and> fetching c = {} \<and> dirtiedWhileFetching c = {} \<and>
     length (lines c) \<le> maxl"

text \<open>A line that starts inside the device.\<close>

lemma line_count_pos: "int (i * bpl) < bcount D \<Longrightarrow> 0 < bpl \<Longrightarrow> 0 < line_count D bpl i"
  by (simp add: line_count_def)

lemma line_count_le: "line_count D bpl i \<le> bpl"
  by (simp add: line_count_def)

lemma line_in_range: "0 < line_count D bpl i \<Longrightarrow> in_range (bcount D) (int (i * bpl)) (int (line_count D bpl i))"
  by (auto simp: line_count_def in_range_def)

context raw_device
begin

lemma load_line_result:
  assumes "ok (delegate c)" "0 < line_count D bpl i" "bpl * bsize D < 2 ^ 31" "load_line D bpl c i = (r, c')"
  shows "ok (delegate c')" "view (delegate c') = view (delegate c)"
    "(r = None \<and> arrays c' = arrays c) \<or>
     (r = Some (length (arrays c)) \<and> arrays c' = arrays c @ [line_bytes D bpl (view (delegate c)) i])"
    "lines c' = lines c" "fetching c' = fetching c" "dirtiedWhileFetching c' = dirtiedWhileFetching c"
proof -
  obtain x d where x: "read_blocks D (delegate c) (int (i * bpl)) (int (line_count D bpl i)) = (x, d)" by fastforce
  have "line_count D bpl i * bsize D \<le> bpl * bsize D" by (rule mult_le_mono1 [OF line_count_le])
  then have "nat (int (line_count D bpl i)) * bsize D < 2 ^ 31" using assms(3) unfolding nat_int by (rule le_less_trans)
  from read_law [OF assms(1) line_in_range [OF assms(2)] this x]
  have law: "ok d" "view d = view (delegate c)" "x = None \<or> x = Some (line_bytes D bpl (view (delegate c)) i)"
    by (simp_all only: line_bytes_def nat_int simp_thms)
  have "(r, c') = (case x of None \<Rightarrow> (None, c\<lparr>delegate := d\<rparr>)
      | Some data \<Rightarrow> (Some (length (arrays c)), c\<lparr>delegate := d, arrays := arrays c @ [data]\<rparr>))"
    using assms(4) x by (simp add: load_line_def Let_def split: option.splits)
  with law show "ok (delegate c')" "view (delegate c') = view (delegate c)"
    "(r = None \<and> arrays c' = arrays c) \<or>
     (r = Some (length (arrays c)) \<and> arrays c' = arrays c @ [line_bytes D bpl (view (delegate c)) i])"
    "lines c' = lines c" "fetching c' = fetching c" "dirtiedWhileFetching c' = dirtiedWhileFetching c"
    by (auto split: option.splits)
qed

lemma lineFor_result:
  assumes c: "cache_ok view ok D bpl maxl c" and i: "0 < line_count D bpl i" "bpl * bsize D < 2 ^ 31" "0 < maxl"
    and run: "lineFor D bpl maxl c i = (r, c')"
  shows "cache_ok view ok D bpl maxl c' \<and> view (delegate c') = view (delegate c) \<and>
    (r = None \<or> (\<exists>a. r = Some a \<and> arrays c' ! a = line_bytes D bpl (view (delegate c)) i))"
proof -
  let ?m = "view (delegate c)"
  have coh: "coherent D bpl ?m c" using c by (simp add: cache_ok_def)
  obtain x c1 where g: "get_line c i = (x, c1)" by fastforce
  note g' = get_line_result [OF coh g]
  show ?thesis
  proof (cases x)
    case (Some a)
    then have "(i, a) \<in> set (lines c)" using g'(1) by (simp add: map_of_SomeD)
    moreover from this have "arrays c1 ! a = line_bytes D bpl ?m i" using coh g'(5) by (auto simp: coherent_def)
    moreover have "r = Some a" "c' = c1\<lparr>hits := hits c1 + 1\<rparr>"
      using run g Some by (simp_all add: lineFor_def lookup_line_def)
    ultimately show ?thesis using c g'(2,4-8) by (simp add: cache_ok_def coherent_def)
  next
    case None
    then have c1: "c1 = c" using g by (auto simp: get_line_def split: option.splits)
    let ?c = "c\<lparr>misses := misses c + 1, fetching := insert i (fetching c)\<rparr>"
    obtain y c2 where l: "load_line D bpl ?c i = (y, c2)" by fastforce
    have okc: "ok (delegate ?c)" using c by (simp add: cache_ok_def)
    note l' = load_line_result [OF okc i(1,2) l, simplified]
    note sel = l'(4-6)
    show ?thesis
    proof (cases y)
      case n: None
      then have "r = None" "c' = fetch_failed c2 i"
        using run g None c1 l i(1) by (simp_all add: lineFor_def lookup_line_def)
      then show ?thesis using c l' sel n by (auto simp: cache_ok_def fetch_failed_def coherent_def)
    next
      case s: (Some a)
      with l'(3) have a: "a = length (arrays c)" "arrays c2 = arrays c @ [line_bytes D bpl ?m i]" by simp_all
      let ?d = "c2\<lparr>delegateBlocksRead := delegateBlocksRead c2 + line_count D bpl i, fetching := {},
        dirtiedWhileFetching := {}\<rparr>"
      have res: "r = Some a" "c' = put_line maxl ?d i a"
        using run g None c1 l i(1) s sel c by (simp_all add: lineFor_def lookup_line_def publish_line_def cache_ok_def)
      have coh2: "coherent D bpl ?m ?d"
        using coh a sel by (auto simp: coherent_def nth_append)
      have new: "a \<notin> snd ` set (lines ?d)" using coh a sel by (auto simp: coherent_def)
      have "length (lines ?d) \<le> maxl" using c sel by (simp add: cache_ok_def)
      from put_line_result [OF coh2 _ new i(1) _ this i(3)] a
      have "coherent D bpl ?m c'" "length (lines c') \<le> maxl" "arrays c' ! a = line_bytes D bpl ?m i"
        by (simp_all add: res(2))
      then show ?thesis using res l' by (simp add: cache_ok_def)
    qed
  qed
qed

end

lemma block_in_line:
  assumes "int block < bcount D" "0 < bpl"
  shows "block mod bpl < line_count D bpl (block div bpl)"
proof -
  have "int (block div bpl * bpl) + int (block mod bpl) = int block"
    by (simp only: of_nat_add [symmetric] div_mult_mod_eq)
  moreover have "block mod bpl < bpl" using assms(2) by simp
  ultimately show ?thesis using assms(1) by (auto simp: line_count_def zless_nat_eq_int_zless)
qed

lemma line_part_bytes:
  assumes "block mod bpl < line_count D bpl (block div bpl)" "0 < bsize D"
  shows "line_part (bsize D) bpl (line_bytes D bpl m (block div bpl)) block left =
    Some (peek m (block * bsize D) (min (line_count D bpl (block div bpl) - block mod bpl) left * bsize D))"
proof -
  let ?l = "line_count D bpl (block div bpl)" and ?o = "block mod bpl"
  let ?t = "min (?l - ?o) left"
  have "?o * bsize D + ?t * bsize D \<le> ?l * bsize D" using assms(1) by (auto simp flip: add_mult_distrib)
  moreover have "block div bpl * bpl * bsize D + ?o * bsize D = block * bsize D" by (simp flip: add_mult_distrib)
  ultimately have "take (?t * bsize D) (drop (?o * bsize D) (line_bytes D bpl m (block div bpl))) = peek m (block * bsize D) (?t * bsize D)"
    by (simp add: line_bytes_def take_drop_peek)
  moreover have "length (line_bytes D bpl m (block div bpl)) div bsize D = ?l" using assms(2) by (simp add: line_bytes_def)
  ultimately show ?thesis using assms(1) by (simp add: line_part_def Let_def)
qed

context raw_device
begin

lemma read_lines_result:
  assumes "0 < bpl" "bpl * bsize D < 2 ^ 31" "0 < maxl"
  shows "cache_ok view ok D bpl maxl c \<Longrightarrow> int (block + left) \<le> bcount D \<Longrightarrow> read_lines D bpl maxl c block left = (r, c') \<Longrightarrow>
    cache_ok view ok D bpl maxl c' \<and> view (delegate c') = view (delegate c) \<and>
    (r = None \<or> r = Some (peek (view (delegate c)) (block * bsize D) (left * bsize D)))"
proof (induction left arbitrary: c block r c' rule: less_induct)
  case (less left)
  show ?case
  proof (cases "left = 0")
    case True
    then show ?thesis using less.prems by (simp add: read_lines.simps peek_def)
  next
    case False
    let ?i = "block div bpl" and ?m = "view (delegate c)"
    have o: "block mod bpl < line_count D bpl ?i" using less.prems(2) False assms(1) by (intro block_in_line) auto
    then have pos: "0 < line_count D bpl ?i" by simp
    obtain x c1 where x: "lineFor D bpl maxl c ?i = (x, c1)" by fastforce
    note l = lineFor_result [OF less.prems(1) pos assms(2,3) x]
    show ?thesis
    proof (cases x)
      case None
      then show ?thesis using less.prems(3) x l False by (simp add: read_lines.simps [of D bpl maxl c])
    next
      case (Some a)
      let ?t = "min (line_count D bpl ?i - block mod bpl) left"
      have a: "arrays c1 ! a = line_bytes D bpl ?m ?i" using l Some by simp
      then have n: "length (arrays c1 ! a) div bsize D = line_count D bpl ?i" using bsize_pos by (simp add: line_bytes_def)
      obtain y c2 where y: "read_lines D bpl maxl c1 (block + ?t) (left - ?t) = (y, c2)" by fastforce
      have "left - ?t < left" "int (block + ?t + (left - ?t)) \<le> bcount D" using o False less.prems(2) by auto
      from less.IH [OF this(1) _ this(2) y] l
      have ih: "cache_ok view ok D bpl maxl c2" "view (delegate c2) = ?m"
        "y = None \<or> y = Some (peek ?m ((block + ?t) * bsize D) ((left - ?t) * bsize D))" by auto
      have res: "c' = c2" "r = map_option (\<lambda>rest. peek ?m (block * bsize D) (?t * bsize D) @ rest) y"
        using less.prems(3) x Some False y line_part_bytes [OF o bsize_pos] a n
        by (simp_all add: read_lines.simps [of D bpl maxl c])
      have "peek ?m (block * bsize D) (left * bsize D) =
          peek ?m (block * bsize D) (?t * bsize D) @ peek ?m ((block + ?t) * bsize D) ((left - ?t) * bsize D)"
        using peek_append [of ?m "block * bsize D" "?t * bsize D" "(left - ?t) * bsize D"]
        by (simp flip: add_mult_distrib)
      then show ?thesis using ih res by auto
    qed
  qed
qed

lemma cached_read_result:
  assumes "0 < bpl" "bpl * bsize D < 2 ^ 31" "0 < maxl"
    and "cache_ok view ok D bpl maxl c" "in_range (bcount D) s n" "nat n * bsize D < 2 ^ 31" "cached_read D bpl maxl c s n = (r, c')"
  shows "cache_ok view ok D bpl maxl c' \<and> view (delegate c') = view (delegate c) \<and>
    (r = None \<or> r = Some (peek (view (delegate c)) (nat s * bsize D) (nat n * bsize D)))"
proof -
  have "long (s + n) = s + n" "0 \<le> s" "0 \<le> n" "s + n \<le> bcount D"
    using assms(5) bcount_range by (auto simp: in_range_def)
  note r = this
  consider "n = 0" | "n \<noteq> 0" "int bpl \<le> n" | "n \<noteq> 0" "n < int bpl" by linarith
  then show ?thesis
  proof cases
    case 1
    then show ?thesis using assms(4,7) r by (auto simp: cached_read_def peek_def)
  next
    case 2
    obtain x d where x: "read_blocks D (delegate c) s n = (x, d)" by fastforce
    have "r = x" "c' = c\<lparr>bypasses := bypasses c + 1, delegateBlocksRead := delegateBlocksRead c + nat n, delegate := d\<rparr>"
      using 2 assms(7) r x by (auto simp: cached_read_def Let_def)
    then show ?thesis
      using read_law [OF _ assms(5,6) x] assms(4) by (auto simp: cache_ok_def coherent_def)
  next
    case 3
    then have "read_lines D bpl maxl c (nat s) (nat n) = (r, c')" using assms(7) r by (simp add: cached_read_def)
    from read_lines_result [OF assms(1-4) _ this] r show ?thesis by simp
  qed
qed

end

text \<open>A piece of a write that lies in one line.\<close>

lemma line_bytes_poke_other:
  assumes "block mod bpl + k \<le> bpl" "length p = k * bsize D" "j \<noteq> block div bpl" "0 < bpl"
  shows "line_bytes D bpl (poke m (block * bsize D) p) j = line_bytes D bpl m j"
proof -
  have b: "block div bpl * bpl + block mod bpl = block" by simp
  have "block + k \<le> j * bpl \<or> j * bpl + line_count D bpl j \<le> block"
  proof (cases "block div bpl < j")
    case True
    then have "Suc (block div bpl) * bpl \<le> j * bpl" by (intro mult_le_mono1) simp
    then have "block div bpl * bpl + bpl \<le> j * bpl" by simp
    with assms(1) b show ?thesis by linarith
  next
    case False
    then have "Suc j * bpl \<le> block div bpl * bpl" using assms(3) by (intro mult_le_mono1) simp
    then have "j * bpl + bpl \<le> block div bpl * bpl" by simp
    with line_count_le [of D bpl j] b show ?thesis by linarith
  qed
  then have "(block + k) * bsize D \<le> j * bpl * bsize D \<or> (j * bpl + line_count D bpl j) * bsize D \<le> block * bsize D"
    by (auto intro: mult_le_mono1)
  then show ?thesis unfolding line_bytes_def
    by (intro peek_poke_disjoint) (simp add: assms(2) add_mult_distrib)
qed

lemma line_bytes_poke_same:
  assumes "block mod bpl + k \<le> line_count D bpl (block div bpl)" "length p = k * bsize D"
  shows "line_bytes D bpl (poke m (block * bsize D) p) (block div bpl) =
    overwrite (line_bytes D bpl m (block div bpl)) (block mod bpl * bsize D) p"
proof -
  have "block * bsize D = block div bpl * bpl * bsize D + block mod bpl * bsize D" by (simp flip: add_mult_distrib)
  moreover have "block mod bpl * bsize D + length p \<le> line_count D bpl (block div bpl) * bsize D"
    using assms mult_le_mono1 [OF assms(1), of "bsize D"] by (simp add: add_mult_distrib)
  ultimately show ?thesis unfolding line_bytes_def by (simp only: peek_poke_inside)
qed

lemma piece_in_line:
  assumes "int (block + k) \<le> bcount D" "block mod bpl + k \<le> bpl"
  shows "block mod bpl + k \<le> line_count D bpl (block div bpl)"
proof -
  have "int (block div bpl * bpl) + int (block mod bpl) = int block"
    by (simp only: of_nat_add [symmetric] div_mult_mod_eq)
  then show ?thesis using assms by (auto simp: line_count_def le_nat_iff)
qed

definition patch_line :: "nat \<Rightarrow> nat \<Rightarrow> 'd cache \<Rightarrow> nat \<Rightarrow> nat \<Rightarrow> bytes \<Rightarrow> 'd cache" where
  "patch_line bs bpl c block tk data =
     (case get_line c (block div bpl) of
        (None, c) \<Rightarrow> c
      | (Some a, c) \<Rightarrow>
          let line = arrays c ! a;
              copyable = min tk (length line div bs - block mod bpl)
          in if copyable > 0
             then c\<lparr>arrays := (arrays c)[a := overwrite line (block mod bpl * bs) (take (copyable * bs) data)]\<rparr>
             else c)"

lemma patchRange_step:
  "patchRange bs bpl c block data =
     (if length data div bs = 0 \<or> bpl = 0 then c
      else let tk = min (bpl - block mod bpl) (length data div bs)
           in patchRange bs bpl (patch_line bs bpl c block tk data) (block + tk) (drop (tk * bs) data))"
  by (subst patchRange.simps) (simp add: patch_line_def Let_def)

lemma patch_line_result:
  assumes coh: "coherent D bpl m c" and piece: "block mod bpl + k \<le> bpl" "int (block + k) \<le> bcount D" "0 < k"
    and sz: "0 < bpl" "0 < bsize D" "k * bsize D \<le> length data"
  defines "c' \<equiv> patch_line (bsize D) bpl c block k data"
  shows "coherent D bpl (poke m (block * bsize D) (take (k * bsize D) data)) c'"
    "length (lines c') = length (lines c)" "delegate c' = delegate c" "fetching c' = fetching c"
    "dirtiedWhileFetching c' = dirtiedWhileFetching c" "set (lines c') = set (lines c)"
proof -
  let ?i = "block div bpl" and ?p = "take (k * bsize D) data"
  have len: "length ?p = k * bsize D" using sz(3) by simp
  note other = line_bytes_poke_other [OF piece(1) len _ sz(1)]
  note inl = piece_in_line [OF piece(2,1)]
  obtain x c1 where x: "get_line c ?i = (x, c1)" by fastforce
  note g = get_line_result [OF coh x]
  have "coherent D bpl (poke m (block * bsize D) ?p) c' \<and> lines c' = lines c1 \<and> delegate c' = delegate c1 \<and>
    fetching c' = fetching c1 \<and> dirtiedWhileFetching c' = dirtiedWhileFetching c1"
  proof (cases x)
    case None
    then have c': "c' = c1" using x by (simp add: c'_def patch_line_def)
    have "?i \<notin> fst ` set (lines c)" using None g(1) by (simp add: map_of_eq_None_iff)
    with g(3) have "line_bytes D bpl (poke m (block * bsize D) ?p) j = line_bytes D bpl m j" if "j \<in> fst ` set (lines c1)" for j
      using that by (intro other) force
    from coherent_medium_cong [OF g(2) this] show ?thesis by (simp add: c')
  next
    case (Some a)
    then have ia: "(?i, a) \<in> set (lines c1)" using g(1,3) by (simp add: map_of_SomeD)
    then have arr: "arrays c1 ! a = line_bytes D bpl m ?i" "a < length (arrays c1)" using g(2) by (auto simp: coherent_def)
    then have "length (arrays c1 ! a) div bsize D = line_count D bpl ?i" using sz(2) by (simp add: line_bytes_def)
    then have c': "c' = c1\<lparr>arrays := (arrays c1)[a := line_bytes D bpl (poke m (block * bsize D) ?p) ?i]\<rparr>"
      using x Some inl piece(3) arr line_bytes_poke_same [OF inl len] by (simp add: c'_def patch_line_def Let_def)
    have d: "distinct (map fst (lines c1))" "distinct (map snd (lines c1))" using g(2) by (simp_all add: coherent_def)
    have "arrays c' ! b = line_bytes D bpl (poke m (block * bsize D) ?p) j" if jb: "(j, b) \<in> set (lines c1)" for j b
    proof (cases "j = ?i")
      case True
      then have "b = a" using eq_key_imp_eq_value [OF d(1) _ ia] jb by simp
      then show ?thesis using arr(2) True by (simp add: c')
    next
      case False
      then have "b \<noteq> a" using distinct_values_neq [OF d(2) jb ia] by blast
      moreover have "arrays c1 ! b = line_bytes D bpl m j" using jb g(2) by (auto simp: coherent_def)
      ultimately show ?thesis by (simp add: c' other [OF False])
    qed
    moreover have "lines c' = lines c1" "length (arrays c') = length (arrays c1)" by (simp_all add: c')
    moreover have "b < length (arrays c1) \<and> 0 < line_count D bpl j" if "(j, b) \<in> set (lines c1)" for j b
      using g(2) that by (auto simp: coherent_def)
    ultimately have "coherent D bpl (poke m (block * bsize D) ?p) c'" using d by (auto simp: coherent_def)
    then show ?thesis by (simp add: c')
  qed
  then show "coherent D bpl (poke m (block * bsize D) ?p) c'"
    "length (lines c') = length (lines c)" "delegate c' = delegate c" "fetching c' = fetching c"
    "dirtiedWhileFetching c' = dirtiedWhileFetching c" "set (lines c') = set (lines c)"
    using g by simp_all
qed

lemma patchRange_result:
  assumes "0 < bpl" "0 < bsize D"
  shows "coherent D bpl m c \<Longrightarrow> length data = k * bsize D \<Longrightarrow> int (block + k) \<le> bcount D \<Longrightarrow>
    c' = patchRange (bsize D) bpl c block data \<Longrightarrow>
    coherent D bpl (poke m (block * bsize D) data) c' \<and> length (lines c') = length (lines c) \<and> delegate c' = delegate c \<and>
    fetching c' = fetching c \<and> dirtiedWhileFetching c' = dirtiedWhileFetching c \<and> set (lines c') = set (lines c)"
proof (induction k arbitrary: c block data m rule: less_induct)
  case (less k)
  show ?case
  proof (cases "k = 0")
    case True
    then show ?thesis using less.prems by (simp add: patchRange.simps)
  next
    case False
    define t where "t = min (bpl - block mod bpl) k"
    have t: "0 < t" "t \<le> k" "block mod bpl + t \<le> bpl" using False mod_less_divisor [OF assms(1), of block] by (auto simp: t_def)
    have n: "length data div bsize D = k" using less.prems(2) assms(2) by simp
    define c1 where "c1 = patch_line (bsize D) bpl c block t data"
    have "int (block + t) \<le> bcount D" "t * bsize D \<le> length data" using less.prems(2,3) t by auto
    note p = patch_line_result [OF less.prems(1) t(3) this(1) t(1) assms this(2), folded c1_def]
    have run: "c' = patchRange (bsize D) bpl c1 (block + t) (drop (t * bsize D) data)"
      using less.prems(4) False assms(1) n
      by (subst (asm) patchRange_step) (simp add: c1_def t_def Let_def)
    have "length (drop (t * bsize D) data) = (k - t) * bsize D" "int (block + t + (k - t)) \<le> bcount D" "k - t < k"
      using less.prems(2,3) t by (simp_all add: diff_mult_distrib)
    note ih = less.IH [OF this(3) p(1) this(1,2) run]
    have "poke (poke m (block * bsize D) (take (t * bsize D) data)) ((block + t) * bsize D) (drop (t * bsize D) data) =
        poke m (block * bsize D) data"
      using poke_append [of m "block * bsize D" "take (t * bsize D) data" "drop (t * bsize D) data"] less.prems(2) t(2)
      by (simp add: add_mult_distrib min_absorb2)
    then show ?thesis using ih p by simp
  qed
qed

lemma invalidate_lines:
  "coherent D bpl m c \<Longrightarrow> c' = foldl remove_line c is \<Longrightarrow>
   coherent D bpl m c' \<and> fst ` set (lines c') = fst ` set (lines c) - set is \<and> length (lines c') \<le> length (lines c) \<and>
   delegate c' = delegate c \<and> fetching c' = fetching c \<and> dirtiedWhileFetching c' = dirtiedWhileFetching c"
proof (induction "is" arbitrary: c)
  case (Cons i "is")
  note r = remove_line_result [OF Cons.prems(1), of i]
  have "c' = foldl remove_line (remove_line c i) is" using Cons.prems(2) by simp
  from Cons.IH [OF r(1) this] r show ?case by auto
qed simp

lemma line_bytes_outside:
  assumes "\<And>a. a < s * bsize D \<or> s * bsize D + n * bsize D \<le> a \<Longrightarrow> m' a = m a" "0 < n" "0 < bpl"
    and "i < s div bpl \<or> (s + n - 1) div bpl < i"
  shows "line_bytes D bpl m' i = line_bytes D bpl m i"
proof -
  have "i * bpl + bpl \<le> s \<or> s + n \<le> i * bpl"
    using assms(2,3,4) by (metis Suc_leI Suc_pred' add_gr_0 div_less_iff_less_mult less_eq_div_iff_mult_less_eq mult_Suc add.commute)
  then have "i * bpl + line_count D bpl i \<le> s \<or> s + n \<le> i * bpl" using line_count_le [of D bpl i] by linarith
  then have "(i * bpl + line_count D bpl i) * bsize D \<le> s * bsize D \<or> (s + n) * bsize D \<le> i * bpl * bsize D"
    by (auto intro: mult_le_mono1)
  then show ?thesis unfolding line_bytes_def
    by (intro peek_cong assms(1)) (auto simp: add_mult_distrib)
qed

context raw_device
begin

lemma write_section_coherent:
  assumes sz: "0 < bpl" and okc: "ok (delegate c)" and coh: "coherent D bpl (view (delegate c)) c"
    and r: "in_range (bcount D) (int s) (int n)" "length data = n * bsize D" "length data < 2 ^ 31"
    and run: "write_section D bpl c s data = (w, c')"
  shows "ok (delegate c')" "coherent D bpl (view (delegate c')) c'" "length (lines c') \<le> length (lines c)"
    "fetching c' = fetching c" "dirtiedWhileFetching c' = dirtiedWhileFetching (markFetchesDirty bpl c s n)"
    "w \<longrightarrow> view (delegate c') = poke (view (delegate c)) (s * bsize D) data"
    "\<forall>a. a < s * bsize D \<or> s * bsize D + length data \<le> a \<longrightarrow> view (delegate c') a = view (delegate c) a"
proof -
  let ?m = "view (delegate c)" and ?c0 = "markFetchesDirty bpl c s n"
  have n: "length data div bsize D = n" using r(2) bsize_pos by simp
  have c0: "lines ?c0 = lines c" "arrays ?c0 = arrays c" "delegate ?c0 = delegate c" "fetching ?c0 = fetching c"
    by (simp_all add: markFetchesDirty_def Let_def)
  obtain w' d where d: "write_blocks D (delegate c) (int s) data = (w', d)" by fastforce
  from write_law [OF okc r(1) _ r(3) d] r(2)
  have law: "ok d" "w' \<longrightarrow> view d = poke ?m (s * bsize D) data"
    "\<And>a. a < s * bsize D \<or> s * bsize D + length data \<le> a \<Longrightarrow> view d a = ?m a" by auto
  have "ok (delegate c') \<and> coherent D bpl (view (delegate c')) c' \<and> length (lines c') \<le> length (lines c) \<and>
    fetching c' = fetching c \<and> dirtiedWhileFetching c' = dirtiedWhileFetching ?c0 \<and> delegate c' = d \<and> w = w'"
  proof (cases w')
    case True
    let ?c2 = "?c0\<lparr>delegate := d, delegateBlocksWritten := delegateBlocksWritten ?c0 + n\<rparr>"
    have coh2: "coherent D bpl ?m ?c2" using coh by (simp add: coherent_def c0)
    have w: "w" and c': "c' = patchRange (bsize D) bpl ?c2 s data"
      using run d True n c0 by (simp_all add: write_section_def Let_def)
    have "int (s + n) \<le> bcount D" using r(1) by (simp add: in_range_def)
    from patchRange_result [OF sz bsize_pos coh2 r(2) this c'] law True w c0 show ?thesis by simp
  next
    case False
    let ?c1 = "?c0\<lparr>delegate := d\<rparr>"
    have coh1: "coherent D bpl ?m ?c1" using coh by (simp add: coherent_def c0)
    have w: "\<not> w" and c': "c' = invalidateRange bpl ?c1 s n"
      using run d False n c0 by (simp_all add: write_section_def Let_def)
    show ?thesis
    proof (cases "n = 0")
      case True
      then have "view d = ?m" using law(3) r(2) by (intro ext) (metis add.right_neutral leI mult_0)
      then show ?thesis using True w c' coh1 law(1) False c0 by (simp add: invalidateRange_def)
    next
      case n0: False
      then have "c' = foldl remove_line ?c1 [s div bpl..<(s + n - 1) div bpl + 1]" using c' by (simp add: invalidateRange_def)
      from invalidate_lines [OF coh1 this]
      have i: "coherent D bpl ?m c'" "\<And>j. j \<in> fst ` set (lines c') \<Longrightarrow> j < s div bpl \<or> (s + n - 1) div bpl < j"
        "length (lines c') \<le> length (lines c)" "delegate c' = d" "fetching c' = fetching c"
        "dirtiedWhileFetching c' = dirtiedWhileFetching ?c0"
        using c0 by auto
      have "line_bytes D bpl (view d) j = line_bytes D bpl ?m j" if "j \<in> fst ` set (lines c')" for j
        by (rule line_bytes_outside [OF _ _ sz i(2) [OF that]]) (use law(3) r(2) n0 in simp_all)
      from coherent_medium_cong [OF i(1) this] show ?thesis using i w law(1) False by simp
    qed
  qed
  then show "ok (delegate c')" "coherent D bpl (view (delegate c')) c'" "length (lines c') \<le> length (lines c)"
    "fetching c' = fetching c" "dirtiedWhileFetching c' = dirtiedWhileFetching ?c0"
    "w \<longrightarrow> view (delegate c') = poke ?m (s * bsize D) data"
    "\<forall>a. a < s * bsize D \<or> s * bsize D + length data \<le> a \<longrightarrow> view (delegate c') a = ?m a"
    using law(2,3) by auto
qed

lemma write_section_result:
  assumes sz: "0 < bpl" and c: "cache_ok view ok D bpl maxl c"
    and r: "in_range (bcount D) (int s) (int n)" "length data = n * bsize D" "length data < 2 ^ 31"
    and run: "write_section D bpl c s data = (w, c')"
  shows "cache_ok view ok D bpl maxl c' \<and> (w \<longrightarrow> view (delegate c') = poke (view (delegate c)) (s * bsize D) data) \<and>
    (\<forall>a. a < s * bsize D \<or> s * bsize D + length data \<le> a \<longrightarrow> view (delegate c') a = view (delegate c) a)"
  using write_section_coherent [OF sz _ _ r run] c by (simp add: cache_ok_def markFetchesDirty_def)

lemma line_size:
  fixes readAheadBytes :: int
  assumes "bsize D < 2 ^ 31" "readAheadBytes < 2 ^ 31"
  shows "blocksPerLine (bsize D) readAheadBytes * bsize D < 2 ^ 31"
proof (cases "readAheadBytes div int (bsize D) \<le> 1")
  case True
  then show ?thesis using assms(1) by (simp add: blocksPerLine_def)
next
  case False
  let ?bpl = "blocksPerLine (bsize D) readAheadBytes"
  have "int ?bpl = readAheadBytes div int (bsize D)" using False by (simp add: blocksPerLine_def)
  then have "int (?bpl * bsize D) = readAheadBytes div int (bsize D) * int (bsize D)" by simp
  also have "\<dots> \<le> readAheadBytes" using bsize_pos by (simp flip: minus_mod_eq_div_mult)
  finally have "int (?bpl * bsize D) < int (2 ^ 31)" using assms(2) by simp
  then show ?thesis by (simp only: of_nat_less_iff)
qed

lemma CachedBlockDevice_fields:
  fixes maxCacheBytes readAheadBytes :: int
  defines "bpl \<equiv> blocksPerLine (bsize D) readAheadBytes"
  defines "maxl \<equiv> maxLines (bsize D) maxCacheBytes bpl"
  shows "0 < bpl" "0 < maxl"
    "bsize (CachedBlockDevice D maxCacheBytes readAheadBytes) = bsize D"
    "bcount (CachedBlockDevice D maxCacheBytes readAheadBytes) = bcount D"
    "read_blocks (CachedBlockDevice D maxCacheBytes readAheadBytes) = cached_read D bpl maxl"
    "write_blocks (CachedBlockDevice D maxCacheBytes readAheadBytes) = cached_write D bpl"
  by (simp_all add: CachedBlockDevice_def Let_def bpl_def maxl_def blocksPerLine_def maxLines_def)

lemma cache_confined:
  fixes maxCacheBytes readAheadBytes :: int
  assumes "bsize D < 2 ^ 31" "readAheadBytes < 2 ^ 31"
  defines "bpl \<equiv> blocksPerLine (bsize D) readAheadBytes"
  defines "maxl \<equiv> maxLines (bsize D) maxCacheBytes bpl"
  shows "confined_device (CachedBlockDevice D maxCacheBytes readAheadBytes) (\<lambda>c. view (delegate c)) (cache_ok view ok D bpl maxl)"
proof -
  note sz = CachedBlockDevice_fields(1) [of readAheadBytes, folded bpl_def]
    CachedBlockDevice_fields(2) [of maxCacheBytes readAheadBytes, folded bpl_def, folded maxl_def]
    and dev = CachedBlockDevice_fields(3,4) CachedBlockDevice_fields(5) [of maxCacheBytes readAheadBytes, folded bpl_def, folded maxl_def]
      CachedBlockDevice_fields(6) [of maxCacheBytes readAheadBytes, folded bpl_def]
    and lb = line_size [OF assms(1,2), folded bpl_def]
  show ?thesis
  proof (unfold_locales, unfold dev, goal_cases)
    case (4 c s n r c')
    with cached_read_result [OF sz(1) lb sz(2)] show ?case by blast
  next
    case (5 c s n data w c')
    have n: "length data div bsize D = nat n" "int (nat s) = s" "int (nat n) = n"
      using 5(2,3) bsize_pos by (simp_all add: in_range_def)
    have "requireInRange (bcount D) s n" using 5(2) bcount_range by (auto simp: requireInRange_def in_range_def)
    then have "write_section D bpl c (nat s) data = (w, c')" using 5(3,5) n by (simp add: cached_write_def)
    from write_section_result [OF sz(1) 5(1) _ 5(3,4) this] 5(2) n show ?case by simp
  next
    case (6 c s n)
    then show ?case by (auto simp: cached_read_def in_range_def)
  next
    case (7 c s data k)
    then have "int k < 2 ^ 31" "length data div bsize D = k" using block_count_small [OF bsize_pos 7(4,3)] bsize_pos by simp_all
    with 7 show ?case by (auto simp: cached_write_def requireInRange_def in_range_def)
  qed (use bsize_pos bcount_range in simp_all)
qed

end

end
