(* ===== verification/CacheThreads.thy ===== *)
theory CacheThreads
  imports BlockCache
begin

text \<open>
  The cache under several threads. The lock protects the look-up, the publication and the whole of a write,
  but the read of the delegate and the copy out of a line array run without it. The state machine below
  interleaves these sections: a thread in \<^verbatim>\<open>readBlocks\<close> is at one of the points between them. As long as no
  two threads fetch one line at a time, the cache stays coherent (\<open>fetching\<close> and \<open>dirtiedWhileFetching\<close> close
  the window they are meant to close); two traces show what happens otherwise.
\<close>

section \<open>Threads and steps\<close>

text \<open>The position of a thread in \<^verbatim>\<open>readBlocks\<close>: the next block, the number of blocks left, the bytes read so far,
  and the line array it holds.\<close>

datatype thread =
  Idle
| Reading nat nat bytes
| Missed nat nat bytes
| LoadFailed nat nat bytes
| Loaded nat nat bytes nat
| Holding nat nat bytes nat
| Returned bytes
| Thrown

record 'd system =
  cache :: "'d cache"
  threads :: "thread list"

datatype action =
  Call nat nat nat
| Lookup nat
| Load nat
| CleanUp nat
| Publish nat
| Copy nat
| Write nat bytes
| Invalidate

abbreviation goto :: "'d system \<Rightarrow> nat \<Rightarrow> 'd cache \<Rightarrow> thread \<Rightarrow> 'd system" where
  "goto sys t c th \<equiv> sys\<lparr>cache := c, threads := (threads sys)[t := th]\<rparr>"

definition thread_at :: "'d system \<Rightarrow> nat \<Rightarrow> thread" where
  "thread_at sys t = (if t < length (threads sys) then threads sys ! t else Thrown)"

fun act :: "'d raw_block_device \<Rightarrow> nat \<Rightarrow> nat \<Rightarrow> action \<Rightarrow> 'd system \<Rightarrow> 'd system option" where
  "act D bpl maxl (Call t block n) sys =
     (case thread_at sys t of
        Idle \<Rightarrow> if 0 < n \<and> n < bpl \<and> int (block + n) \<le> bcount D then Some (goto sys t (cache sys) (Reading block n [])) else None
      | _ \<Rightarrow> None)"
| "act D bpl maxl (Lookup t) sys =
     (case thread_at sys t of
        Reading block left out \<Rightarrow>
          if left = 0 then Some (goto sys t (cache sys) (Returned out))
          else
            (case lookup_line (cache sys) (block div bpl) of
               (Some a, c) \<Rightarrow> Some (goto sys t c (Holding block left out a))
             | (None, c) \<Rightarrow> Some (goto sys t c (Missed block left out)))
      | _ \<Rightarrow> None)"
| "act D bpl maxl (Load t) sys =
     (case thread_at sys t of
        Missed block left out \<Rightarrow>
          if line_count D bpl (block div bpl) = 0 then Some (goto sys t (cache sys) Thrown)
          else
            (case load_line D bpl (cache sys) (block div bpl) of
               (Some a, c) \<Rightarrow> Some (goto sys t c (Loaded block left out a))
             | (None, c) \<Rightarrow> Some (goto sys t c (LoadFailed block left out)))
      | _ \<Rightarrow> None)"
| "act D bpl maxl (CleanUp t) sys =
     (case thread_at sys t of
        LoadFailed block left out \<Rightarrow> Some (goto sys t (fetch_failed (cache sys) (block div bpl)) Thrown)
      | _ \<Rightarrow> None)"
| "act D bpl maxl (Publish t) sys =
     (case thread_at sys t of
        Loaded block left out a \<Rightarrow>
          (let (a, c) = publish_line maxl (cache sys) (block div bpl) (line_count D bpl (block div bpl)) a
           in Some (goto sys t c (Holding block left out a)))
      | _ \<Rightarrow> None)"
| "act D bpl maxl (Copy t) sys =
     (case thread_at sys t of
        Holding block left out a \<Rightarrow>
          (let line = arrays (cache sys) ! a;
               tk = min (length line div bsize D - block mod bpl) left
           in case line_part (bsize D) bpl line block left of
                None \<Rightarrow> Some (goto sys t (cache sys) Thrown)
              | Some part \<Rightarrow> Some (goto sys t (cache sys) (Reading (block + tk) (left - tk) (out @ part))))
      | _ \<Rightarrow> None)"
| "act D bpl maxl (Write s data) sys =
     (if length data mod bsize D = 0 \<and> int (s + length data div bsize D) \<le> bcount D \<and> length data < 2 ^ 31
      then Some (sys\<lparr>cache := snd (write_section D bpl (cache sys) s data)\<rparr>) else None)"
| "act D bpl maxl Invalidate sys = Some (sys\<lparr>cache := invalidate (cache sys)\<rparr>)"

fun acts :: "'d raw_block_device \<Rightarrow> nat \<Rightarrow> nat \<Rightarrow> action list \<Rightarrow> 'd system \<Rightarrow> 'd system option" where
  "acts D bpl maxl [] sys = Some sys"
| "acts D bpl maxl (x # xs) sys = (case act D bpl maxl x sys of None \<Rightarrow> None | Some sys \<Rightarrow> acts D bpl maxl xs sys)"

section \<open>Two races\<close>

definition new_system :: "'d \<Rightarrow> nat \<Rightarrow> 'd system" where
  "new_system d n = \<lparr>cache = new_cache d, threads = replicate n Idle\<rparr>"

text \<open>The sections on a file of sixteen blocks with lines of two blocks.\<close>

definition demo_file :: "u8 \<Rightarrow> bytes" where
  "demo_file b = replicate 512 b @ replicate (15 * 512) 1"

abbreviation demo_device :: "bytes raw_block_device" where
  "demo_device \<equiv> FileBlockDevice 16"

lemma demo_line_count: "i < 8 \<Longrightarrow> line_count demo_device 2 i = 2"
  by (simp add: line_count_def FileBlockDevice_def)

lemma demo_read:
  assumes "i < 8"
  shows "read_blocks demo_device (demo_file b) (int (i * 2)) 2 =
    (Some (if i = 0 then replicate 512 b @ replicate 512 1 else replicate 1024 1), demo_file b)"
  using assms
  by (simp add: FileBlockDevice_def int_product_def Let_def demo_file_def nat_mult_distrib)

lemma demo_write: "write_blocks demo_device (demo_file b) 0 (replicate 512 x) = (True, demo_file x)"
  by (simp add: FileBlockDevice_def Let_def demo_file_def)

lemmas demo_simps = thread_at_def new_system_def new_cache_def lookup_line_def get_line_def load_line_def publish_line_def
  put_line_def removeEldestEntry_def fill0_def line_part_def Let_def demo_line_count demo_read [of 0, simplified]
  demo_read [of 1, simplified] demo_read [of 2, simplified] demo_read [of 3, simplified] demo_read [of 4, simplified]

lemma demo_bsize: "bsize demo_device = 512" "bcount demo_device = 16"
  by (simp_all add: FileBlockDevice_def)

lemma demo_ones: "demo_file 1 = replicate 8192 1"
  by (simp add: demo_file_def flip: replicate_add)

lemma demo_patch: "lines c = [] \<Longrightarrow> patchRange 512 2 c 0 (replicate 512 x) = c"
  by (simp add: patchRange.simps get_line_def)



section \<open>What the sections leave alone\<close>

text \<open>An array that no entry refers to.\<close>

abbreviation spare :: "'d cache \<Rightarrow> nat \<Rightarrow> bool" where
  "spare c a \<equiv> a < length (arrays c) \<and> a \<notin> snd ` set (lines c)"

lemma put_line_spare:
  assumes "spare c b" "b \<noteq> a"
  shows "spare (put_line maxl c i a) b \<and> arrays (put_line maxl c i a) ! b = arrays c ! b"
proof -
  have "set (lines (put_line maxl c i a)) \<subseteq> insert (i, a) (set (lines c))"
    by (auto simp: put_line_def removeEldestEntry_def dest: list.set_sel(2) [rotated])
  moreover have "snd (hd (lines c @ [(i, a)])) \<noteq> b" using assms by (cases "lines c") auto
  ultimately show ?thesis using assms by (auto simp: put_line_def removeEldestEntry_def)
qed

lemma remove_line_spare:
  assumes "spare c b"
  shows "spare (remove_line c i) b \<and> arrays (remove_line c i) ! b = arrays c ! b"
proof (cases "map_of (lines c) i")
  case (Some a)
  then have "b \<noteq> a" using assms map_of_SomeD [OF Some] by force
  with assms Some show ?thesis by (auto simp: remove_line_def)
qed (use assms in \<open>simp add: remove_line_def\<close>)

lemma invalidateRange_spare:
  "spare c b \<Longrightarrow> spare (invalidateRange bpl c s n) b \<and> arrays (invalidateRange bpl c s n) ! b = arrays c ! b"
proof -
  have "spare c b \<Longrightarrow> spare (foldl remove_line c is) b \<and> arrays (foldl remove_line c is) ! b = arrays c ! b" for "is"
  proof (induction "is" arbitrary: c)
    case (Cons i "is")
    from remove_line_spare [OF Cons.prems, of i] Cons.IH [of "remove_line c i"] show ?case by simp
  qed simp
  then show "spare c b \<Longrightarrow> ?thesis" by (simp add: invalidateRange_def)
qed

lemma patch_line_spare:
  assumes "spare c b"
  shows "spare (patch_line bs bpl c block k data) b \<and> arrays (patch_line bs bpl c block k data) ! b = arrays c ! b"
proof -
  obtain x c1 where x: "get_line c (block div bpl) = (x, c1)" by fastforce
  then have c1: "arrays c1 = arrays c" "x = map_of (lines c) (block div bpl)" "set (lines c1) \<subseteq> set (lines c)"
    by (auto simp: get_line_def intro: map_of_SomeD [OF sym] split: option.splits)
  show ?thesis
  proof (cases x)
    case (Some a)
    then have "b \<noteq> a" using assms c1(2) map_of_SomeD [of "lines c" "block div bpl" a] by force
    with Some x c1 assms show ?thesis by (auto simp: patch_line_def Let_def)
  qed (use x c1 assms in \<open>auto simp: patch_line_def\<close>)
qed

lemma patchRange_spare:
  "spare c b \<Longrightarrow> spare (patchRange bs bpl c s data) b \<and> arrays (patchRange bs bpl c s data) ! b = arrays c ! b"
proof (induction "length data" arbitrary: c s data rule: less_induct)
  case less
  show ?case
  proof (cases "length data div bs = 0 \<or> bpl = 0")
    case True
    then show ?thesis using less.prems by (simp add: patchRange.simps)
  next
    case False
    define k where "k = min (bpl - s mod bpl) (length data div bs)"
    have "0 < k" "0 < bs" using False mod_less_divisor [of bpl s] by (auto simp: k_def intro: Nat.gr0I)
    moreover have "length data \<noteq> 0" using False by auto
    ultimately have "length (drop (k * bs) data) < length data" by simp
    from less.hyps [OF this conjunct1 [OF patch_line_spare [OF less.prems]], of bs bpl s k data "s + k"]
      patch_line_spare [OF less.prems, of bs bpl s k data]
    show ?thesis using False by (simp add: patchRange_step [of bs bpl c] k_def Let_def)
  qed
qed

lemma write_section_spare:
  assumes "spare c a" "write_section D bpl c s data = (w, c')"
  shows "spare c' a \<and> arrays c' ! a = arrays c ! a"
proof -
  let ?n = "length data div bsize D"
  let ?c = "markFetchesDirty bpl c s ?n"
  obtain w' d where d: "write_blocks D (delegate ?c) (int s) data = (w', d)" by fastforce
  let ?p = "?c\<lparr>delegate := d, delegateBlocksWritten := delegateBlocksWritten ?c + ?n\<rparr>" and ?i = "?c\<lparr>delegate := d\<rparr>"
  have c: "arrays ?c = arrays c" "lines ?c = lines c" by (simp_all add: markFetchesDirty_def Let_def)
  then have "spare ?p a" "spare ?i a" using assms(1) by simp_all
  from patchRange_spare [OF this(1), of "bsize D" bpl s data] invalidateRange_spare [OF this(2), of bpl s ?n]
  show ?thesis using assms(2) d c by (cases w') (simp_all add: write_section_def Let_def)
qed

lemma fill_lines_frame [simp]:
  "length (arrays (foldl fill0 c as)) = length (arrays c)" "delegate (foldl fill0 c as) = delegate c"
  "fetching (foldl fill0 c as) = fetching c" "dirtiedWhileFetching (foldl fill0 c as) = dirtiedWhileFetching c"
  by (induction as arbitrary: c) simp_all

lemma fill_lines_spare: "b \<notin> set as \<Longrightarrow> arrays (foldl fill0 c as) ! b = arrays c ! b"
  by (induction as arbitrary: c) auto

section \<open>Coherence under interleaving\<close>

text \<open>The line a thread is fetching, and the array it has loaded and not yet published.\<close>

fun fetch_of :: "nat \<Rightarrow> thread \<Rightarrow> nat option" where
  "fetch_of bpl (Missed block left out) = Some (block div bpl)"
| "fetch_of bpl (LoadFailed block left out) = Some (block div bpl)"
| "fetch_of bpl (Loaded block left out a) = Some (block div bpl)"
| "fetch_of bpl th = None"

fun loaded_of :: "thread \<Rightarrow> nat option" where
  "loaded_of (Loaded block left out a) = Some a"
| "loaded_of th = None"

definition thread_ok :: "'d raw_block_device \<Rightarrow> nat \<Rightarrow> (nat \<Rightarrow> u8) \<Rightarrow> 'd cache \<Rightarrow> thread \<Rightarrow> bool" where
  "thread_ok D bpl m c th \<longleftrightarrow>
     (\<forall>i. fetch_of bpl th = Some i \<longrightarrow> i \<in> fetching c) \<and>
     (\<forall>a i. loaded_of th = Some a \<and> fetch_of bpl th = Some i \<longrightarrow>
        spare c a \<and> 0 < line_count D bpl i \<and> (i \<in> dirtiedWhileFetching c \<or> arrays c ! a = line_bytes D bpl m i))"

definition apart :: "nat \<Rightarrow> thread \<Rightarrow> thread \<Rightarrow> bool" where
  "apart bpl th th' \<longleftrightarrow>
     (\<forall>i. fetch_of bpl th = Some i \<longrightarrow> fetch_of bpl th' \<noteq> Some i) \<and>
     (\<forall>a. loaded_of th = Some a \<longrightarrow> loaded_of th' \<noteq> Some a)"

lemma apart_sym: "apart bpl th th' \<Longrightarrow> apart bpl th' th"
  by (auto simp: apart_def)

lemma apart_none: "fetch_of bpl th = None \<Longrightarrow> apart bpl th th'"
  by (cases th) (auto simp: apart_def)

lemma thread_ok_none: "fetch_of bpl th = None \<Longrightarrow> thread_ok D bpl m c th"
  by (simp add: thread_ok_def)

definition system_ok :: "('d \<Rightarrow> nat \<Rightarrow> u8) \<Rightarrow> ('d \<Rightarrow> bool) \<Rightarrow> 'd raw_block_device \<Rightarrow> nat \<Rightarrow> nat \<Rightarrow> 'd system \<Rightarrow> bool" where
  "system_ok view ok D bpl maxl sys \<longleftrightarrow>
     ok (delegate (cache sys)) \<and> coherent D bpl (view (delegate (cache sys))) (cache sys) \<and>
     length (lines (cache sys)) \<le> maxl \<and>
     (\<forall>t < length (threads sys). thread_ok D bpl (view (delegate (cache sys))) (cache sys) (threads sys ! t)) \<and>
     (\<forall>t < length (threads sys). \<forall>u < length (threads sys). t \<noteq> u \<longrightarrow> apart bpl (threads sys ! t) (threads sys ! u))"

lemma system_ok_goto:
  assumes s: "system_ok view ok D bpl maxl sys" "thread_at sys t = th" "th \<noteq> Thrown"
    and c: "ok (delegate c)" "coherent D bpl (view (delegate c)) c" "length (lines c) \<le> maxl"
    and th: "thread_ok D bpl (view (delegate c)) c th'"
    and other: "\<And>x. thread_ok D bpl (view (delegate (cache sys))) (cache sys) x \<Longrightarrow> apart bpl th x \<Longrightarrow>
      thread_ok D bpl (view (delegate c)) c x \<and> apart bpl th' x"
  shows "system_ok view ok D bpl maxl (goto sys t c th')"
proof -
  have t: "t < length (threads sys)" "threads sys ! t = th" using s(2,3) by (auto simp: thread_at_def split: if_splits)
  have o: "thread_ok D bpl (view (delegate c)) c (threads sys ! u) \<and> apart bpl th' (threads sys ! u)"
    if "u < length (threads sys)" "u \<noteq> t" for u
    using s(1) that t other [of "threads sys ! u"] by (auto simp: system_ok_def)
  have "apart bpl ((threads sys)[t := th'] ! u) ((threads sys)[t := th'] ! v)"
    if "u < length (threads sys)" "v < length (threads sys)" "u \<noteq> v" for u v
    using that s(1) o [of u] o [of v] t(1) by (auto simp: system_ok_def nth_list_update intro: apart_sym)
  moreover have "thread_ok D bpl (view (delegate c)) c ((threads sys)[t := th'] ! u)" if "u < length (threads sys)" for u
    using that o [of u] th t(1) by (cases "u = t") simp_all
  ultimately show ?thesis using c by (simp add: system_ok_def)
qed

text \<open>A step that keeps the cache and ends outside a fetch.\<close>

lemma system_ok_local:
  assumes "system_ok view ok D bpl maxl sys" "thread_at sys t = th" "th \<noteq> Thrown" "fetch_of bpl th' = None"
  shows "system_ok view ok D bpl maxl (goto sys t (cache sys) th')"
  by (rule system_ok_goto [OF assms(1-3)])
    (use assms in \<open>auto simp: system_ok_def thread_ok_none apart_none\<close>)

text \<open>The restriction: a look-up does not miss on a line that another thread is fetching.\<close>

definition lone :: "nat \<Rightarrow> 'd system \<Rightarrow> action \<Rightarrow> bool" where
  "lone bpl sys x \<longleftrightarrow>
     (\<forall>t block left out. x = Lookup t \<and> thread_at sys t = Reading block left out \<and>
        map_of (lines (cache sys)) (block div bpl) = None \<longrightarrow> block div bpl \<notin> fetching (cache sys))"

inductive reachable :: "'d raw_block_device \<Rightarrow> nat \<Rightarrow> nat \<Rightarrow> 'd \<Rightarrow> nat \<Rightarrow> 'd system \<Rightarrow> bool"
  for D bpl maxl d n where
  start: "reachable D bpl maxl d n (new_system d n)"
| step: "reachable D bpl maxl d n sys \<Longrightarrow> lone bpl sys x \<Longrightarrow> act D bpl maxl x sys = Some sys' \<Longrightarrow>
    reachable D bpl maxl d n sys'"

lemma thread_ok_cong:
  assumes "thread_ok D bpl m c th" "fetching c \<subseteq> fetching c'" "dirtiedWhileFetching c \<subseteq> dirtiedWhileFetching c'"
    and "\<And>a. loaded_of th = Some a \<Longrightarrow> spare c a \<Longrightarrow> spare c' a \<and> arrays c' ! a = arrays c ! a"
  shows "thread_ok D bpl m c' th"
  unfolding thread_ok_def
proof (intro conjI allI impI)
  fix i assume "fetch_of bpl th = Some i"
  then show "i \<in> fetching c'" using assms(1,2) by (auto simp: thread_ok_def)
next
  fix a i assume l: "loaded_of th = Some a \<and> fetch_of bpl th = Some i"
  then have h: "spare c a" "0 < line_count D bpl i" "i \<in> dirtiedWhileFetching c \<or> arrays c ! a = line_bytes D bpl m i"
    using assms(1) unfolding thread_ok_def by blast+
  from assms(4) [OF conjunct1 [OF l] h(1)] h(2,3) assms(3)
  show "a < length (arrays c')" "a \<notin> snd ` set (lines c')" "0 < line_count D bpl i"
    "i \<in> dirtiedWhileFetching c' \<or> arrays c' ! a = line_bytes D bpl m i" by auto
qed

context raw_device
begin

lemma lookup_step:
  assumes s: "system_ok view ok D bpl maxl sys" and l: "lone bpl sys (Lookup t)"
    and run: "act D bpl maxl (Lookup t) sys = Some sys'"
  shows "system_ok view ok D bpl maxl sys'"
proof -
  obtain block left out where th: "thread_at sys t = Reading block left out"
    using run by (auto split: thread.splits)
  let ?c = "cache sys" and ?i = "block div bpl"
  have c: "ok (delegate ?c)" "coherent D bpl (view (delegate ?c)) ?c" "length (lines ?c) \<le> maxl"
    using s by (simp_all add: system_ok_def)
  show ?thesis
  proof (cases "left = 0")
    case True
    then have "sys' = goto sys t ?c (Returned out)" using run th by simp
    then show ?thesis using system_ok_local [OF s th] by simp
  next
    case left: False
    obtain x c1 where g: "get_line ?c ?i = (x, c1)" by fastforce
    note g' = get_line_result [OF c(2) g]
    show ?thesis
    proof (cases x)
      case (Some a)
      let ?c1 = "c1\<lparr>hits := hits c1 + 1\<rparr>"
      have sys': "sys' = goto sys t ?c1 (Holding block left out a)"
        using run th left g Some by (simp add: lookup_line_def)
      have "thread_ok D bpl (view (delegate ?c1)) ?c1 y" if "thread_ok D bpl (view (delegate ?c)) ?c y" for y
        using g'(3,5-8) by (simp, intro thread_ok_cong [OF that]) simp_all
      moreover have "coherent D bpl (view (delegate ?c1)) ?c1" using g'(2,6) by (simp add: coherent_def)
      ultimately show ?thesis unfolding sys'
        by (intro system_ok_goto [OF s th]) (use c g' in \<open>simp_all add: thread_ok_none apart_none\<close>)
    next
      case None
      then have c1: "c1 = ?c" and no: "map_of (lines ?c) ?i = None" using g g'(1) by (auto simp: get_line_def)
      let ?c1 = "?c\<lparr>misses := misses ?c + 1, fetching := insert ?i (fetching ?c)\<rparr>"
      have sys': "sys' = goto sys t ?c1 (Missed block left out)"
        using run th left g None c1 by (simp add: lookup_line_def)
      have new: "?i \<notin> fetching ?c" using l th no by (auto simp: lone_def)
      have "coherent D bpl (view (delegate ?c)) ?c1" using c(2) by (simp add: coherent_def)
      then show ?thesis unfolding sys'
      proof (intro system_ok_goto [OF s th], goal_cases)
        case (6 y)
        then have "thread_ok D bpl (view (delegate ?c)) ?c1 y" by (intro thread_ok_cong [OF 6(2)]) auto
        with 6(2) new show ?case by (auto simp: apart_def thread_ok_def)
      qed (use c in \<open>simp_all add: thread_ok_def\<close>)
    qed
  qed
qed

end

context raw_device
begin

lemma load_step:
  assumes s: "system_ok view ok D bpl maxl sys" and sz: "bpl * bsize D < 2 ^ 31"
    and run: "act D bpl maxl (Load t) sys = Some sys'"
  shows "system_ok view ok D bpl maxl sys'"
proof -
  obtain block left out where th: "thread_at sys t = Missed block left out"
    using run by (auto split: thread.splits)
  let ?c = "cache sys" and ?i = "block div bpl"
  have c: "ok (delegate ?c)" "coherent D bpl (view (delegate ?c)) ?c" "length (lines ?c) \<le> maxl"
    "thread_ok D bpl (view (delegate ?c)) ?c (Missed block left out)"
    using s th by (auto simp: system_ok_def thread_at_def split: if_splits)
  show ?thesis
  proof (cases "line_count D bpl ?i = 0")
    case True
    then have "sys' = goto sys t ?c Thrown" using run th by simp
    then show ?thesis using system_ok_local [OF s th] by simp
  next
    case False
    then have pos: "0 < line_count D bpl ?i" by simp
    obtain x c1 where x: "load_line D bpl ?c ?i = (x, c1)" by fastforce
    note l = load_line_result [OF c(1) pos sz x]
    have keep: "spare c1 a \<and> arrays c1 ! a = arrays ?c ! a" if "spare ?c a" for a
      using that l(3,4) by (auto simp: nth_append)
    then have keep': "thread_ok D bpl (view (delegate c1)) c1 y" if "thread_ok D bpl (view (delegate ?c)) ?c y" for y
      using l(2,5,6) by (simp, intro thread_ok_cong [OF that]) simp_all
    have coh: "coherent D bpl (view (delegate c1)) c1"
      unfolding l(2) by (rule coherent_cong [OF c(2)]) (use c(2) l(3,4) in \<open>auto simp: coherent_def nth_append\<close>)
    show ?thesis
    proof (cases x)
      case None
      then have "sys' = goto sys t c1 (LoadFailed block left out)" using run th x False by simp
      then show ?thesis
        using keep' c(4) by (simp, intro system_ok_goto [OF s th])
          (use l c coh in \<open>auto simp: thread_ok_def apart_def\<close>)
    next
      case (Some a)
      then have a: "a = length (arrays ?c)" "arrays c1 = arrays ?c @ [line_bytes D bpl (view (delegate ?c)) ?i]"
        using l(3) by simp_all
      have sys': "sys' = goto sys t c1 (Loaded block left out a)" using run th x False Some by simp
      have "thread_ok D bpl (view (delegate c1)) c1 (Loaded block left out a)"
        using c(2,4) a l(2,4,5) pos by (auto simp: thread_ok_def coherent_def)
      moreover have "apart bpl (Loaded block left out a) y"
        if "thread_ok D bpl (view (delegate ?c)) ?c y" "apart bpl (Missed block left out) y" for y
        using that a by (cases y) (auto simp: thread_ok_def apart_def)
      ultimately show ?thesis unfolding sys'
        by (intro system_ok_goto [OF s th]) (use l c coh keep' in simp_all)
    qed
  qed
qed

lemma cleanup_step:
  assumes s: "system_ok view ok D bpl maxl sys" and run: "act D bpl maxl (CleanUp t) sys = Some sys'"
  shows "system_ok view ok D bpl maxl sys'"
proof -
  obtain block left out where th: "thread_at sys t = LoadFailed block left out"
    using run by (auto split: thread.splits)
  then have "sys' = goto sys t (fetch_failed (cache sys) (block div bpl)) Thrown" using run by simp
  then show ?thesis
    by (simp, intro system_ok_goto [OF s th])
      (use s in \<open>auto simp: system_ok_def fetch_failed_def coherent_def thread_ok_def apart_def\<close>)
qed

lemma publish_step:
  assumes s: "system_ok view ok D bpl maxl sys" and sz: "0 < maxl"
    and run: "act D bpl maxl (Publish t) sys = Some sys'"
  shows "system_ok view ok D bpl maxl sys'"
proof -
  obtain block left out a where th: "thread_at sys t = Loaded block left out a"
    using run by (auto split: thread.splits)
  let ?c = "cache sys" and ?i = "block div bpl" and ?m = "view (delegate (cache sys))"
  have c: "ok (delegate ?c)" "coherent D bpl ?m ?c" "length (lines ?c) \<le> maxl"
    "thread_ok D bpl ?m ?c (Loaded block left out a)"
    using s th by (auto simp: system_ok_def thread_at_def split: if_splits)
  define c0 where "c0 = ?c\<lparr>delegateBlocksRead := delegateBlocksRead ?c + line_count D bpl ?i, fetching := fetching ?c - {?i},
    dirtiedWhileFetching := dirtiedWhileFetching ?c - {?i}\<rparr>"
  have coh0: "coherent D bpl ?m c0" using c(2) by (simp add: c0_def coherent_def)
  have ok0: "thread_ok D bpl ?m c0 y" if "thread_ok D bpl ?m ?c y" "apart bpl (Loaded block left out a) y" for y
    using that by (auto simp: thread_ok_def apart_def c0_def)
  have "\<exists>c' a'. sys' = goto sys t c' (Holding block left out a') \<and> delegate c' = delegate ?c \<and> coherent D bpl ?m c' \<and>
    length (lines c') \<le> maxl \<and> (\<forall>y. thread_ok D bpl ?m ?c y \<longrightarrow> apart bpl (Loaded block left out a) y \<longrightarrow> thread_ok D bpl ?m c' y)"
  proof (cases "?i \<in> dirtiedWhileFetching ?c")
    case True
    obtain x c1 where x: "get_line c0 ?i = (x, c1)" by fastforce
    note g = get_line_result [OF coh0 x]
    have "sys' = goto sys t c1 (Holding block left out (case x of None \<Rightarrow> a | Some a' \<Rightarrow> a'))"
      using run th True x by (auto simp: publish_line_def c0_def split: option.splits prod.splits)
    moreover have "thread_ok D bpl ?m c1 y" if "thread_ok D bpl ?m ?c y" "apart bpl (Loaded block left out a) y" for y
      using g by (intro thread_ok_cong [OF ok0 [OF that]]) simp_all
    ultimately show ?thesis using g c(3) by (auto simp: c0_def)
  next
    case False
    have a: "a < length (arrays c0)" "a \<notin> snd ` set (lines c0)" "0 < line_count D bpl ?i" "arrays c0 ! a = line_bytes D bpl ?m ?i"
      "length (lines c0) \<le> maxl"
      using c(3,4) False by (auto simp: thread_ok_def c0_def)
    have "sys' = goto sys t (put_line maxl c0 ?i a) (Holding block left out a)"
      using run th False by (simp add: publish_line_def c0_def)
    moreover have "thread_ok D bpl ?m (put_line maxl c0 ?i a) y"
      if y: "thread_ok D bpl ?m ?c y" "apart bpl (Loaded block left out a) y" for y
      by (rule thread_ok_cong [OF ok0 [OF y]]) (use y(2) put_line_spare [of _ c0 a maxl ?i] in \<open>auto simp: apart_def\<close>)
    ultimately show ?thesis using put_line_result [OF coh0 a sz] by (auto simp: c0_def)
  qed
  then obtain c' a' where p: "sys' = goto sys t c' (Holding block left out a')" "delegate c' = delegate ?c" "coherent D bpl ?m c'"
    "length (lines c') \<le> maxl" "\<And>y. thread_ok D bpl ?m ?c y \<Longrightarrow> apart bpl (Loaded block left out a) y \<Longrightarrow> thread_ok D bpl ?m c' y"
    by blast
  show ?thesis unfolding p(1)
    by (intro system_ok_goto [OF s th]) (use c p in \<open>simp_all add: thread_ok_none apart_none\<close>)
qed

end

context raw_device
begin

lemma write_step:
  assumes s: "system_ok view ok D bpl maxl sys" and sz: "0 < bpl"
    and run: "act D bpl maxl (Write blk data) sys = Some sys'"
  shows "system_ok view ok D bpl maxl sys'"
proof -
  let ?c = "cache sys" and ?n = "length data div bsize D"
  have r: "in_range (bcount D) (int blk) (int ?n)" "length data = ?n * bsize D" "length data < 2 ^ 31"
    using run by (auto simp: in_range_def split: if_splits)
  obtain w c' where w: "write_section D bpl ?c blk data = (w, c')" by fastforce
  have sys': "sys' = sys\<lparr>cache := c'\<rparr>" using run w by (simp split: if_splits)
  have c: "ok (delegate ?c)" "coherent D bpl (view (delegate ?c)) ?c" "length (lines ?c) \<le> maxl"
    using s by (simp_all add: system_ok_def)
  note ws = write_section_coherent [OF sz c(1,2) r w]
  have sp: "spare c' a \<and> arrays c' ! a = arrays ?c ! a" if "spare ?c a" for a
    by (rule write_section_spare [OF that w])
  have "thread_ok D bpl (view (delegate c')) c' y" if y: "thread_ok D bpl (view (delegate ?c)) ?c y" for y
    unfolding thread_ok_def
  proof (intro conjI allI impI)
    fix i assume "fetch_of bpl y = Some i"
    then show "i \<in> fetching c'" using y ws(4) by (auto simp: thread_ok_def)
  next
    fix a i assume l: "loaded_of y = Some a \<and> fetch_of bpl y = Some i"
    then have h: "spare ?c a" "0 < line_count D bpl i" "i \<in> fetching ?c"
      "i \<in> dirtiedWhileFetching ?c \<or> arrays ?c ! a = line_bytes D bpl (view (delegate ?c)) i"
      using y by (auto simp: thread_ok_def)
    have "i \<in> dirtiedWhileFetching c' \<or> line_bytes D bpl (view (delegate c')) i = line_bytes D bpl (view (delegate ?c)) i"
    proof (cases "?n \<noteq> 0 \<and> blk div bpl \<le> i \<and> i \<le> (blk + ?n - 1) div bpl")
      case True
      then show ?thesis using h(3) ws(5) by (auto simp: markFetchesDirty_def Let_def)
    next
      case False
      have "view (delegate c') = view (delegate ?c)" if "?n = 0"
        using ws(7) that r(2) by (intro ext) (metis add.right_neutral leI mult_0)
      moreover have "line_bytes D bpl (view (delegate c')) i = line_bytes D bpl (view (delegate ?c)) i" if "?n \<noteq> 0"
        by (rule line_bytes_outside [OF _ _ sz, of blk D ?n]) (use ws(7) r(2) that False in auto)
      ultimately show ?thesis by fastforce
    qed
    moreover have "dirtiedWhileFetching ?c \<subseteq> dirtiedWhileFetching c'" using ws(5) by (auto simp: markFetchesDirty_def Let_def)
    ultimately show "a < length (arrays c')" "a \<notin> snd ` set (lines c')" "0 < line_count D bpl i"
      "i \<in> dirtiedWhileFetching c' \<or> arrays c' ! a = line_bytes D bpl (view (delegate c')) i"
      using h sp [OF h(1)] by auto
  qed
  then show ?thesis using s ws(1-3) by (simp add: system_ok_def sys')
qed

lemma invalidate_step:
  assumes "system_ok view ok D bpl maxl sys"
  shows "system_ok view ok D bpl maxl (sys\<lparr>cache := invalidate (cache sys)\<rparr>)"
proof -
  let ?c = "cache sys" and ?c' = "invalidate (cache sys)"
  have f: "delegate ?c' = delegate ?c" "fetching ?c' = fetching ?c" "lines ?c' = []"
    "dirtiedWhileFetching ?c' = dirtiedWhileFetching ?c \<union> fetching ?c"
    "length (arrays ?c') = length (arrays ?c)"
    by (simp_all add: invalidate_def)
  have "spare ?c' a \<and> arrays ?c' ! a = arrays ?c ! a" if "spare ?c a" for a
    using that f fill_lines_spare [of a "map snd (lines ?c)" "?c\<lparr>dirtiedWhileFetching := dirtiedWhileFetching ?c \<union> fetching ?c\<rparr>"]
    by (auto simp: invalidate_def)
  then have "thread_ok D bpl (view (delegate ?c)) ?c' y" if "thread_ok D bpl (view (delegate ?c)) ?c y" for y
    using f by (intro thread_ok_cong [OF that]) auto
  then show ?thesis using assms f by (simp add: system_ok_def coherent_def)
qed

lemma act_system_ok:
  assumes sz: "0 < bpl" "bpl * bsize D < 2 ^ 31" "0 < maxl"
    and s: "system_ok view ok D bpl maxl sys" "lone bpl sys x" "act D bpl maxl x sys = Some sys'"
  shows "system_ok view ok D bpl maxl sys'"
proof (cases x)
  case (Call t block n)
  then have "thread_at sys t = Idle" "sys' = goto sys t (cache sys) (Reading block n [])"
    using s(3) by (auto split: thread.splits if_splits)
  then show ?thesis using system_ok_local [OF s(1)] by simp
next
  case (Copy t)
  then obtain block left out a where th: "thread_at sys t = Holding block left out a" using s(3) by (auto split: thread.splits)
  then obtain th' where "sys' = goto sys t (cache sys) th'" "fetch_of bpl th' = None"
    using s(3) Copy by (auto simp: Let_def split: option.splits)
  then show ?thesis using system_ok_local [OF s(1) th] by simp
next
  case (Lookup t)
  then show ?thesis using lookup_step [OF s(1)] s(2,3) by blast
next
  case (Load t)
  then show ?thesis using load_step [OF s(1) sz(2)] s(3) by blast
next
  case (CleanUp t)
  then show ?thesis using cleanup_step [OF s(1)] s(3) by blast
next
  case (Publish t)
  then show ?thesis using publish_step [OF s(1) sz(3)] s(3) by blast
next
  case (Write block data)
  then show ?thesis using write_step [OF s(1) sz(1)] s(3) by blast
next
  case Invalidate
  then show ?thesis using invalidate_step [OF s(1)] s(3) by simp
qed

lemma new_system_ok: "ok d \<Longrightarrow> system_ok view ok D bpl maxl (new_system d n)"
  by (auto simp: system_ok_def new_system_def new_cache_def coherent_def thread_ok_none apart_none)

lemma reachable_system_ok:
  assumes "0 < bpl" "bpl * bsize D < 2 ^ 31" "0 < maxl" "ok d"
  shows "reachable D bpl maxl d n sys \<Longrightarrow> system_ok view ok D bpl maxl sys"
  by (induction rule: reachable.induct) (auto intro: new_system_ok assms act_system_ok)

end

section \<open>Every reader finishes\<close>

text \<open>The steps a reading thread takes itself, and a bound on how many of them are left.\<close>

definition own :: "nat \<Rightarrow> action \<Rightarrow> bool" where
  "own t x \<longleftrightarrow> x \<in> {Lookup t, Load t, CleanUp t, Publish t, Copy t}"

fun work :: "thread \<Rightarrow> nat" where
  "work (Reading block left out) = 4 * left + 1"
| "work (Missed block left out) = 4 * max left 1"
| "work (LoadFailed block left out) = 4 * max left 1 - 1"
| "work (Loaded block left out a) = 4 * max left 1 - 1"
| "work (Holding block left out a) = 4 * max left 1 - 2"
| "work th = 0"

lemma thread_at_elsewhere [simp]:
  "u \<noteq> t \<Longrightarrow> thread_at (s\<lparr>threads := (threads sys)[t := th]\<rparr>) u = thread_at sys u"
  by (simp add: thread_at_def)

lemma thread_at_here [simp]:
  "thread_at sys t \<noteq> Thrown \<Longrightarrow> thread_at (s\<lparr>threads := (threads sys)[t := th]\<rparr>) t = th"
  by (auto simp: thread_at_def split: if_splits)

lemma thread_at_cache [simp]: "thread_at (sys\<lparr>cache := c\<rparr>) t = thread_at sys t"
  by (simp add: thread_at_def)

lemma line_part_some: "line_part bs bpl line block left = Some part \<Longrightarrow> 0 < length line div bs - block mod bpl"
  by (simp add: line_part_def Let_def split: if_splits)

lemma copy_work:
  assumes "act D bpl maxl (Copy t) sys = Some sys'"
  shows "work (thread_at sys' t) < work (thread_at sys t)"
proof -
  obtain block left out a where th: "thread_at sys t = Holding block left out a"
    using assms by (auto split: thread.splits)
  let ?av = "length (arrays (cache sys) ! a) div bsize D - block mod bpl"
  consider "thread_at sys' t = Thrown" | out' where "0 < ?av" "thread_at sys' t = Reading (block + min ?av left) (left - min ?av left) out'"
    using assms th by (auto simp: Let_def dest: line_part_some split: option.splits)
  then show ?thesis using th by cases auto
qed

lemma own_step_work:
  assumes "own t x" "act D bpl maxl x sys = Some sys'"
  shows "work (thread_at sys' t) < work (thread_at sys t)"
proof (cases "x = Copy t")
  case False
  then show ?thesis using assms
    by (auto simp: own_def Let_def split: thread.splits if_splits prod.splits option.splits)
qed (use assms copy_work in blast)

lemma other_step_work:
  assumes "\<not> own t x" "act D bpl maxl x sys = Some sys'" "thread_at sys t \<noteq> Idle"
  shows "thread_at sys' t = thread_at sys t"
  using assms
  by (cases x) (auto simp: own_def Let_def split: thread.splits if_splits prod.splits option.splits
      intro!: thread_at_elsewhere)


lemma acts_work:
  "acts D bpl maxl xs sys = Some sys' \<Longrightarrow> thread_at sys t \<noteq> Idle \<Longrightarrow>
    length (filter (own t) xs) + work (thread_at sys' t) \<le> work (thread_at sys t) \<and> thread_at sys' t \<noteq> Idle"
proof (induction xs arbitrary: sys)
  case (Cons x xs)
  then obtain s where s: "act D bpl maxl x sys = Some s" "acts D bpl maxl xs s = Some sys'" by (auto split: option.splits)
  show ?case
  proof (cases "own t x")
    case True
    then have "work (thread_at s t) < work (thread_at sys t)" using own_step_work s(1) by blast
    moreover have "thread_at s t \<noteq> Idle" using True s(1)
      by (auto simp: own_def Let_def split: thread.splits if_splits prod.splits option.splits)
    ultimately show ?thesis using True Cons.IH [OF s(2)] by auto
  next
    case False
    then show ?thesis using Cons.IH [OF s(2)] other_step_work [OF False s(1) Cons.prems(2)] Cons.prems(2) by simp
  qed
qed simp

lemma own_step_enabled:
  assumes "thread_at sys t \<noteq> Idle"
  shows "thread_at sys t = Thrown \<or> (\<exists>out. thread_at sys t = Returned out) \<or> (\<exists>x. own t x \<and> act D bpl maxl x sys \<noteq> None)"
proof -
  have "act D bpl maxl (Lookup t) sys \<noteq> None \<or> act D bpl maxl (Load t) sys \<noteq> None \<or> act D bpl maxl (CleanUp t) sys \<noteq> None \<or>
    act D bpl maxl (Publish t) sys \<noteq> None \<or> act D bpl maxl (Copy t) sys \<noteq> None"
    if "thread_at sys t \<noteq> Thrown" "\<nexists>out. thread_at sys t = Returned out"
    using assms that by (cases "thread_at sys t") (simp_all add: Let_def split: prod.splits option.splits)
  then show ?thesis unfolding own_def by blast
qed


section \<open>The properties\<close>

text \<open>C5. As long as no thread starts to fetch a line that another one is fetching, every interleaving of the
  sections of \<^verbatim>\<open>readBlocks\<close>, \<^verbatim>\<open>writeBlocks\<close> and \<^verbatim>\<open>invalidate\<close> keeps the cache coherent: every cached line holds the
  bytes of the device, no two entries share an array, and the cache never has more than \<^verbatim>\<open>maxLines\<close> lines. A fetch
  that a write or an invalidation has overtaken is never published.\<close>

theorem cache_stays_coherent:
  assumes "raw_device D view ok" "ok d" "0 < bpl" "bpl * bsize D < 2 ^ 31" "0 < maxl"
    and "reachable D bpl maxl d n sys"
  shows "coherent D bpl (view (delegate (cache sys))) (cache sys) \<and> length (lines (cache sys)) \<le> maxl"
  using raw_device.reachable_system_ok [OF assms(1) assms(3-5) assms(2) assms(6)] by (simp add: system_ok_def)

text \<open>A schedule in which no fetch overlaps another one of the same line.\<close>

fun lone_acts :: "'d raw_block_device \<Rightarrow> nat \<Rightarrow> nat \<Rightarrow> action list \<Rightarrow> 'd system \<Rightarrow> bool" where
  "lone_acts D bpl maxl [] sys = True"
| "lone_acts D bpl maxl (x # xs) sys =
     (lone bpl sys x \<and> (case act D bpl maxl x sys of None \<Rightarrow> False | Some sys \<Rightarrow> lone_acts D bpl maxl xs sys))"

lemma reachable_acts:
  "reachable D bpl maxl d n sys \<Longrightarrow> lone_acts D bpl maxl xs sys \<Longrightarrow> acts D bpl maxl xs sys = Some sys' \<Longrightarrow>
    reachable D bpl maxl d n sys'"
  by (induction xs arbitrary: sys) (auto split: option.splits intro: reachable.step)

lemma demo_coherent_run:
  "\<exists>sys. reachable demo_device 2 4 (demo_file 1) 2 sys \<and> delegate (cache sys) = demo_file 2 \<and> lines (cache sys) = [(0, 1)] \<and>
    threads sys ! 0 = Returned (replicate 512 1) \<and> threads sys ! 1 = Returned (replicate 512 2)"
proof -
  let ?xs = "[Call 0 0 1, Lookup 0, Load 0, Write 0 (replicate 512 2), Publish 0, Copy 0, Lookup 0,
    Call 1 0 1, Lookup 1, Load 1, Publish 1, Copy 1, Lookup 1]"
  obtain sys where sys: "acts demo_device 2 4 ?xs (new_system (demo_file 1) 2) = Some sys" "delegate (cache sys) = demo_file 2 \<and>
    lines (cache sys) = [(0, 1)] \<and> threads sys ! 0 = Returned (replicate 512 1) \<and> threads sys ! 1 = Returned (replicate 512 2)"
    by (simp add: demo_simps demo_bsize write_section_def markFetchesDirty_def demo_write demo_patch)
  have "lone_acts demo_device 2 4 ?xs (new_system (demo_file 1) 2)"
    by (simp add: demo_simps demo_bsize write_section_def markFetchesDirty_def demo_write demo_patch lone_def)
  from reachable_acts [OF reachable.start this sys(1)] show ?thesis using sys(2) by blast
qed

lemma demo_raw_device: "raw_device demo_device file_view (\<lambda>f. 16 * 512 \<le> length f)"
  using file_raw_device [of 16] by simp

theorem cache_stays_coherent_witness:
  "\<exists>sys. reachable demo_device 2 4 (demo_file 1) 2 sys \<and> delegate (cache sys) = demo_file 2 \<and> lines (cache sys) = [(0, 1)] \<and>
    coherent demo_device 2 (file_view (delegate (cache sys))) (cache sys) \<and> length (lines (cache sys)) \<le> 4"
proof -
  obtain sys where sys: "reachable demo_device 2 4 (demo_file 1) 2 sys" "delegate (cache sys) = demo_file 2" "lines (cache sys) = [(0, 1)]"
    using demo_coherent_run by blast
  have "16 * 512 \<le> length (demo_file 1)" by (simp add: demo_file_def)
  from cache_stays_coherent [OF demo_raw_device this _ _ _ sys(1)] show ?thesis using sys by (auto simp: demo_bsize)
qed

text \<open>C11. A thread that reads \<open>n\<close> blocks takes at most \<open>4 * n + 1\<close> steps of its own, whatever the other threads do
  in between, and until it has returned or thrown one of its own steps is always possible.\<close>

theorem cache_reader_finishes:
  assumes "acts D bpl maxl xs sys = Some sys'" "thread_at sys t = Reading block n []"
  shows "length (filter (own t) xs) \<le> 4 * n + 1 \<and>
    (thread_at sys' t = Thrown \<or> (\<exists>out. thread_at sys' t = Returned out) \<or> (\<exists>x. own t x \<and> act D bpl maxl x sys' \<noteq> None))"
  using acts_work [OF assms(1), of t] own_step_enabled [of sys' t D bpl maxl] assms(2) by simp


theorem cache_reader_finishes_witness:
  "\<exists>sys sys'. act demo_device 2 4 (Call 0 0 1) (new_system (demo_file 1) 1) = Some sys \<and>
    acts demo_device 2 4 [Lookup 0, Load 0, Publish 0, Copy 0] sys = Some sys' \<and> thread_at sys' 0 = Reading 1 0 (replicate 512 1) \<and>
    (\<exists>x. own 0 x \<and> act demo_device 2 4 x sys' \<noteq> None)"
proof -
  let ?sys = "goto (new_system (demo_file 1) 1) 0 (new_cache (demo_file 1)) (Reading 0 1 [])"
  obtain sys' where s: "acts demo_device 2 4 [Lookup 0, Load 0, Publish 0, Copy 0] ?sys = Some sys'"
    "thread_at sys' 0 = Reading 1 0 (replicate 512 1)"
    by (simp add: demo_simps demo_bsize)
  have "thread_at ?sys 0 = Reading 0 1 []" by (simp add: demo_simps)
  from cache_reader_finishes [OF s(1) this] have "\<exists>x. own 0 x \<and> act demo_device 2 4 x sys' \<noteq> None" using s(2) by simp
  moreover have "act demo_device 2 4 (Call 0 0 1) (new_system (demo_file 1) 1) = Some ?sys"
    by (simp add: demo_simps demo_bsize)
  ultimately show ?thesis using s by blast
qed

end
