(* ===== verification/DeviceStack.thy ===== *)
theory DeviceStack
  imports VolumeDevice CacheThreads
begin

text \<open>
  What the filesystems see. A filesystem drives a device by a sequence of reads and writes; the specification is
  a flat medium, an array of bytes. Every device that keeps the contract of \<open>confined_device\<close> refines
  the medium, and the contracts compose: a cache over a VeraCrypt volume over any raw device behaves as the
  decrypted data area.
\<close>

section \<open>A run of requests\<close>

datatype dev_op = ReadBlocks int int | WriteBlocks int bytes

datatype dev_result = Data "bytes option" | Written bool

fun device_step :: "'d raw_block_device \<Rightarrow> dev_op \<Rightarrow> 'd \<Rightarrow> dev_result \<times> 'd" where
  "device_step D (ReadBlocks s n) d = (let (r, d) = read_blocks D d s n in (Data r, d))"
| "device_step D (WriteBlocks s data) d = (let (w, d) = write_blocks D d s data in (Written w, d))"

fun device_run :: "'d raw_block_device \<Rightarrow> dev_op list \<Rightarrow> 'd \<Rightarrow> dev_result list \<times> 'd" where
  "device_run D [] d = ([], d)"
| "device_run D (x # xs) d =
     (let (r, d) = device_step D x d; (rs, d) = device_run D xs d in (r # rs, d))"

section \<open>The medium\<close>

text \<open>What a medium of \<open>cnt\<close> blocks of \<open>bs\<close> bytes answers. A request can fail; a write that fails may have changed
  any of the blocks it names and no other; only requests inside the medium succeed.\<close>

fun medium_step :: "nat \<Rightarrow> int \<Rightarrow> dev_op \<Rightarrow> dev_result \<Rightarrow> (nat \<Rightarrow> u8) \<Rightarrow> (nat \<Rightarrow> u8) \<Rightarrow> bool" where
  "medium_step bs cnt (ReadBlocks s n) (Data r) m m' \<longleftrightarrow>
     m' = m \<and> (r = None \<or> in_range cnt s n \<and> r = Some (peek m (nat s * bs) (nat n * bs)))"
| "medium_step bs cnt (WriteBlocks s data) (Written w) m m' \<longleftrightarrow>
     (if in_range cnt s (int (length data div bs))
      then (if w then m' = poke m (nat s * bs) data
            else \<forall>a. a < nat s * bs \<or> nat s * bs + length data \<le> a \<longrightarrow> m' a = m a)
      else \<not> w \<and> m' = m)"
| "medium_step bs cnt x r m m' \<longleftrightarrow> False"

inductive medium_run :: "nat \<Rightarrow> int \<Rightarrow> dev_op list \<Rightarrow> dev_result list \<Rightarrow> (nat \<Rightarrow> u8) \<Rightarrow> (nat \<Rightarrow> u8) \<Rightarrow> bool"
  for bs cnt where
  none: "medium_run bs cnt [] [] m m"
| more: "medium_step bs cnt x r m m1 \<Longrightarrow> medium_run bs cnt xs rs m1 m' \<Longrightarrow> medium_run bs cnt (x # xs) (r # rs) m m'"

inductive_cases medium_run_ConsE: "medium_run bs cnt (x # xs) rs m m'"
inductive_cases medium_run_NilE: "medium_run bs cnt [] rs m m'"

text \<open>The requests a caller can make: arrays below two gigabytes, whole blocks, block numbers below \<open>2^62\<close>.\<close>

fun op_ok :: "nat \<Rightarrow> dev_op \<Rightarrow> bool" where
  "op_ok bs (ReadBlocks s n) \<longleftrightarrow> s < 2 ^ 62 \<and> n < 2 ^ 31 \<and> nat n * bs < 2 ^ 31"
| "op_ok bs (WriteBlocks s data) \<longleftrightarrow> s < 2 ^ 62 \<and> length data < 2 ^ 31 \<and> length data mod bs = 0"

context confined_device
begin

lemma device_step_refines:
  assumes "ok d" "op_ok (bsize D) x" "device_step D x d = (r, d')"
  shows "ok d' \<and> medium_step (bsize D) (bcount D) x r (view d) (view d')"
proof (cases x)
  case (ReadBlocks s n)
  obtain y where y: "read_blocks D d s n = (y, d')" "r = Data y"
    using assms(3) ReadBlocks by (auto simp: Let_def split: prod.splits)
  show ?thesis
  proof (cases "in_range (bcount D) s n")
    case True
    from read_law [OF assms(1) this _ y(1)] True show ?thesis using assms(2) ReadBlocks y(2) by auto
  next
    case False
    from read_outside [OF assms(1) _ _ this] show ?thesis using assms(1,2) ReadBlocks y by auto
  qed
next
  case (WriteBlocks s data)
  let ?k = "length data div bsize D"
  obtain w where w: "write_blocks D d s data = (w, d')" "r = Written w"
    using assms(3) WriteBlocks by (auto simp: Let_def split: prod.splits)
  have len: "length data = ?k * bsize D" using assms(2) WriteBlocks by auto
  show ?thesis
  proof (cases "in_range (bcount D) s (int ?k)")
    case True
    from write_law [OF assms(1) this _ _ w(1)] True len show ?thesis using assms(2) WriteBlocks w(2) by auto
  next
    case False
    from write_outside [OF assms(1) _ _ len this] False show ?thesis using assms(1,2) WriteBlocks w by auto
  qed
qed

lemma device_run_refines:
  "ok d \<Longrightarrow> list_all (op_ok (bsize D)) xs \<Longrightarrow> device_run D xs d = (rs, d') \<Longrightarrow>
    medium_run (bsize D) (bcount D) xs rs (view d) (view d') \<and> ok d'"
proof (induction xs arbitrary: d rs)
  case (Cons x xs)
  obtain r d1 where 1: "device_step D x d = (r, d1)" by fastforce
  obtain rs' where 2: "device_run D xs d1 = (rs', d')" "rs = r # rs'"
    using Cons.prems(3) 1 by (auto simp: Let_def split: prod.splits)
  from device_step_refines [OF Cons.prems(1) _ 1] Cons.prems(2) Cons.IH [OF _ _ 2(1)] 2(2)
  show ?case by (auto intro: medium_run.more)
qed (auto intro: medium_run.none)

end

section \<open>The stack of a mounted VeraCrypt volume\<close>

text \<open>The device \<^verbatim>\<open>VeraCryptUnlocker.unlock\<close> returns for a candidate, once it has the master key, and the cache
  \<^verbatim>\<open>MainActivity.wrapWithCache\<close> puts over it.\<close>

definition unlocked_device :: "'d raw_block_device \<Rightarrow> int \<Rightarrow> int option \<Rightarrow> int list \<Rightarrow> 'd vc_volume raw_block_device" where
  "unlocked_device U startBlock blocks ids =
     (let dataOffsetSectors = 131072 div int (bsize U)
      in NativeDecryptedBlockDevice U (startBlock + dataOffsetSectors)
           ((case blocks of Some n \<Rightarrow> n | None \<Rightarrow> bcount U - startBlock) - dataOffsetSectors) ids dataOffsetSectors)"

definition wrapWithCache :: "'d raw_block_device \<Rightarrow> int \<Rightarrow> 'd cache raw_block_device" where
  "wrapWithCache D readAhead = CachedBlockDevice D DEFAULT_CACHE_BYTES readAhead"

definition open_volume :: "'d \<Rightarrow> bytes \<Rightarrow> 'd vc_volume cache" where
  "open_volume d key = new_cache \<lparr>encryptedDevice = d, masterKey = key, closed = False\<rparr>"

text \<open>What the filesystem is to see: the data area behind the two headers, decrypted under the number of each
  512-byte unit counted from the start of the volume.\<close>

definition decrypted_area :: "('d \<Rightarrow> nat \<Rightarrow> u8) \<Rightarrow> nat \<Rightarrow> int \<Rightarrow> int list \<Rightarrow> 'd vc_volume cache \<Rightarrow> nat \<Rightarrow> u8" where
  "decrypted_area base bs startBlock ids c = volume_view base (nat startBlock * bs + 131072) ids 256 (delegate c)"

lemma new_cache_ok: "ok d \<Longrightarrow> cache_ok base ok D bpl maxl (new_cache d)"
  by (simp add: cache_ok_def coherent_def new_cache_def)

text \<open>A block is a number of 512-byte units that divides the 256 units of the headers.\<close>

lemma unlocked_geometry:
  assumes U: "0 < bsize U" "bsize U = spb * 512" "spb dvd 256" and n: "131072 \<le> n * int (bsize U)" and st: "0 \<le> st"
  obtains q where "131072 div int (bsize U) = int q" "int q \<le> n" "bsize U < 2 ^ 31"
    "unlocked_device U st (Some n) ids = NativeDecryptedBlockDevice U (st + int q) (n - int q) ids (int q)"
    "nat (st + int q) * bsize U = nat st * bsize U + 131072" "word_of_int (int q * int spb) = (256 :: u64)"
proof -
  obtain q where q: "256 = spb * q" using U(3) by blast
  then have qs: "spb * q = 256" "q * spb = 256" using mult.commute [of spb q] by simp_all
  have "bsize U * q = 131072" "q * bsize U = 131072" using qs U(2) by (simp_all add: mult.commute mult.left_commute)
  then have bs: "int (bsize U) * int q = 131072" "q * bsize U = 131072" by (simp_all flip: of_nat_mult)
  have dos: "131072 div int (bsize U) = int q" unfolding bs(1) [symmetric] using U(1) by simp
  have "int q * int (bsize U) \<le> n * int (bsize U)" using n bs(1) by (simp add: mult.commute)
  then have "int q \<le> n" using U(1) by simp
  moreover have "spb \<le> 256" using U(3) by (intro dvd_imp_le) simp_all
  then have "bsize U < 2 ^ 31" using U(2) by simp
  moreover have "nat (st + int q) = nat st + q" using st by simp
  then have "nat (st + int q) * bsize U = nat st * bsize U + 131072" using bs(2) by (simp add: add_mult_distrib)
  moreover have "word_of_int (int q * int spb) = (256 :: u64)" using qs(2) by (simp flip: of_nat_mult)
  ultimately show thesis using that [of q] dos by (simp add: unlocked_device_def Let_def)
qed

section \<open>Devices that do not fail\<close>

text \<open>A device on which every request inside it succeeds. A request of no blocks is left out: the native layer
  refuses an empty range.\<close>

locale reliable_device = raw_device +
  assumes read_total: "ok d \<Longrightarrow> in_range (bcount D) s n \<Longrightarrow> 0 < n \<Longrightarrow> nat n * bsize D < 2 ^ 31 \<Longrightarrow> fst (read_blocks D d s n) \<noteq> None"
    and write_total: "ok d \<Longrightarrow> in_range (bcount D) s n \<Longrightarrow> 0 < n \<Longrightarrow> length data = nat n * bsize D \<Longrightarrow> length data < 2 ^ 31 \<Longrightarrow>
      fst (write_blocks D d s data)"

lemma file_reliable:
  assumes "0 \<le> cnt" "cnt < 2 ^ 50"
  shows "reliable_device (FileBlockDevice cnt) file_view (\<lambda>f. nat cnt * 512 \<le> length f)"
proof (intro reliable_device.intro file_raw_device [OF assms], unfold_locales, goal_cases)
  case (1 f s n)
  then have "long (s * 512) = s * 512" "nat (s * 512) = nat s * 512" "nat s * 512 + nat n * 512 \<le> length f" "0 \<le> s"
    and "\<not> int_product n 512 < 0" "nat (int_product n 512) = nat n * 512"
    using assms by (auto simp: FileBlockDevice_def in_range_def nat_mult_distrib int_product_id)
  then show ?case by (simp add: FileBlockDevice_def Let_def)
next
  case (2 f s n data)
  then have "long (s * 512) = s * 512" "0 \<le> s" using assms by (auto simp: FileBlockDevice_def in_range_def)
  then show ?case by (simp add: FileBlockDevice_def Let_def)
qed

interpretation image_file: reliable_device "FileBlockDevice 20480" file_view "\<lambda>file. nat 20480 * 512 \<le> length file"
  by (rule file_reliable) simp_all

definition volume_open :: "('d \<Rightarrow> bool) \<Rightarrow> int list \<Rightarrow> 'd vc_volume \<Rightarrow> bool" where
  "volume_open ok ids v \<longleftrightarrow> volume_ok ok ids v \<and> \<not> closed v"

lemma volume_stays_open:
  "volume_read E off cnt ids twk v s n = (r, v') \<Longrightarrow> closed v' = closed v"
  "volume_write E off cnt ids twk v s data = (w, v') \<Longrightarrow> closed v' = closed v"
  by (auto simp: volume_read_def volume_write_def Let_def split: if_splits option.splits prod.splits)

context reliable_device
begin

lemma volume_read_total:
  assumes geo: "0 \<le> off" "off + cnt \<le> bcount D" "bsize D = spb * 512"
    and v: "volume_open ok ids v" and r: "in_range cnt s n" "0 < n" "nat n * bsize D < 2 ^ 31"
  shows "fst (volume_read D off cnt ids twk v s n) \<noteq> None"
proof -
  obtain c where c: "vc_cascade_new ids (int (length ids)) (masterKey v) = Some c"
    using v by (auto simp: volume_open_def volume_ok_def)
  note sh = in_range_shift [OF r(1) geo(1,2)]
  obtain x d where x: "read_blocks D (encryptedDevice v) (off + s) n = (x, d)" by fastforce
  have req: "requireInRange cnt s n" "long (s + off) = off + s"
    using r(1) sh by (auto simp: requireInRange_def in_range_def add.commute)
  have okv: "ok (encryptedDevice v)" using v by (simp add: volume_open_def volume_ok_def)
  obtain data where data: "x = Some data" "length data = (nat n * spb) * 512"
    using read_total [OF okv sh(1) r(2,3)] read_law [OF okv sh(1) r(3) x] x geo(3) by (auto simp: mult.assoc)
  have "0 < nat n * spb" using r(2) bsize_pos geo(3) by simp
  then have "crypt_whole ids DECRYPT (masterKey v) u data \<noteq> None" for u
    using crypt_whole_run [OF c data(2)] data(2) r(3) geo(3) by (simp add: mult.assoc)
  then show ?thesis using v req x data(1) by (simp add: volume_read_def volume_open_def Let_def)
qed

lemma volume_write_total:
  assumes geo: "0 \<le> off" "off + cnt \<le> bcount D" "bsize D = spb * 512"
    and v: "volume_open ok ids v" and r: "in_range cnt s n" "0 < n" "length data = nat n * bsize D" "length data < 2 ^ 31"
  shows "fst (volume_write D off cnt ids twk v s data)"
proof -
  obtain c where c: "vc_cascade_new ids (int (length ids)) (masterKey v) = Some c"
    using v by (auto simp: volume_open_def volume_ok_def)
  note sh = in_range_shift [OF r(1) geo(1,2)] and k = vc_cascade_new_ok [OF c]
  have len: "length data = nat n * spb * 512" "0 < nat n * spb" using r(2,3) bsize_pos geo(3) by (simp_all add: mult.assoc)
  have req: "requireInRange cnt s (int (length data div bsize D))" "long (s + off) = off + s"
    using r(1,3) sh bsize_pos by (auto simp: requireInRange_def in_range_def add.commute)
  have okv: "ok (encryptedDevice v)" using v by (simp add: volume_open_def volume_ok_def)
  have "fst (write_blocks D (encryptedDevice v) (off + s) (crypt_run (vc_unit c True) 512 u (nat n * spb) data))" for u
    using write_total [OF okv sh(1) r(2)] vc_sectors.length_crypt_run [OF k len(1), of True u] len r(3,4) by simp
  then show ?thesis
    using v req crypt_whole_run [OF c len(1) r(4)] len(2)
    by (simp add: volume_write_def volume_open_def ENCRYPT_def Let_def split: prod.splits) (metis fst_conv)
qed

lemma volume_reliable:
  assumes geo: "0 \<le> off" "0 \<le> cnt" "off + cnt \<le> bcount D" "bsize D = spb * 512"
  shows "reliable_device (NativeDecryptedBlockDevice D off cnt ids twk)
    (volume_view view (nat off * bsize D) ids (word_of_int (twk * int spb))) (volume_open ok ids)"
proof -
  note C = volume_confined [OF assms, of ids twk]
  note R = raw_device.bsize_pos [OF confined_device.axioms(1) [OF C]] raw_device.bcount_range [OF confined_device.axioms(1) [OF C]]
    raw_device.read_law [OF confined_device.axioms(1) [OF C]] raw_device.write_law [OF confined_device.axioms(1) [OF C]]
  show ?thesis
  proof (unfold_locales, goal_cases)
    case (4 v s n r v')
    then show ?case using R(4) [of v s n r v'] volume_stays_open(1) [of D off cnt ids twk v s n r v']
      by (auto simp: volume_open_def NativeDecryptedBlockDevice_def)
  next
    case (5 v s n data w v')
    then show ?case using R(5) [of v s n data w v'] volume_stays_open(2) [of D off cnt ids twk v s data w v']
      by (auto simp: volume_open_def NativeDecryptedBlockDevice_def)
  next
    case (6 v s n)
    then show ?case using volume_read_total [OF geo(1,3,4)] by (simp add: NativeDecryptedBlockDevice_def)
  next
    case (7 v s n data)
    then show ?case using volume_write_total [OF geo(1,3,4)] by (simp add: NativeDecryptedBlockDevice_def)
  qed (use R in simp_all)
qed

end

context reliable_device
begin

lemma lineFor_total:
  assumes c: "ok (delegate c)" and i: "0 < line_count D bpl i" "bpl * bsize D < 2 ^ 31"
  shows "fst (lineFor D bpl maxl c i) \<noteq> None"
proof -
  have "line_count D bpl i * bsize D \<le> bpl * bsize D" by (rule mult_le_mono1 [OF line_count_le])
  then have "nat (int (line_count D bpl i)) * bsize D < 2 ^ 31" using i(2) unfolding nat_int by (rule le_less_trans)
  from read_total [OF c line_in_range [OF i(1)] _ this] i(1) obtain x d where
    "read_blocks D (delegate c) (int (i * bpl)) (int (line_count D bpl i)) = (Some x, d)"
    by (cases "read_blocks D (delegate c) (int (i * bpl)) (int (line_count D bpl i))") auto
  then show ?thesis using i(1)
    by (auto simp: lineFor_def lookup_line_def get_line_def load_line_def Let_def split: option.splits prod.splits)
qed

lemma read_lines_total:
  assumes "0 < bpl" "bpl * bsize D < 2 ^ 31" "0 < maxl"
  shows "cache_ok view ok D bpl maxl c \<Longrightarrow> int (block + left) \<le> bcount D \<Longrightarrow> fst (read_lines D bpl maxl c block left) \<noteq> None"
proof (induction left arbitrary: c block rule: less_induct)
  case (less left)
  show ?case
  proof (cases "left = 0")
    case False
    let ?i = "block div bpl" and ?m = "view (delegate c)"
    have o: "block mod bpl < line_count D bpl ?i" using less.prems(2) False assms(1) by (intro block_in_line) auto
    then have pos: "0 < line_count D bpl ?i" by simp
    have "ok (delegate c)" using less.prems(1) by (simp add: cache_ok_def)
    from lineFor_total [OF this pos assms(2), of maxl] obtain a c1 where x: "lineFor D bpl maxl c ?i = (Some a, c1)"
      by (cases "lineFor D bpl maxl c ?i") auto
    from lineFor_result [OF less.prems(1) pos assms(2,3) x]
    have l: "cache_ok view ok D bpl maxl c1" "arrays c1 ! a = line_bytes D bpl ?m ?i" by auto
    let ?t = "min (line_count D bpl ?i - block mod bpl) left"
    have n: "length (arrays c1 ! a) div bsize D = line_count D bpl ?i" using bsize_pos l(2) by (simp add: line_bytes_def)
    have "left - ?t < left" "int (block + ?t + (left - ?t)) \<le> bcount D" using o False less.prems(2) by auto
    from less.IH [OF this(1) l(1) this(2)]
    have "fst (read_lines D bpl maxl c1 (block + ?t) (left - ?t)) \<noteq> None" .
    moreover have "fst (read_lines D bpl maxl c block left) =
        map_option ((@) (peek ?m (block * bsize D) (?t * bsize D))) (fst (read_lines D bpl maxl c1 (block + ?t) (left - ?t)))"
      using x False line_part_bytes [OF o bsize_pos] l(2) n
      by (simp add: read_lines.simps [of D bpl maxl c] Let_def case_prod_beta)
    ultimately show ?thesis by simp
  qed (simp add: read_lines.simps)
qed

lemma cache_reliable:
  fixes maxCacheBytes readAheadBytes :: int
  assumes "bsize D < 2 ^ 31" "readAheadBytes < 2 ^ 31"
  defines "bpl \<equiv> blocksPerLine (bsize D) readAheadBytes"
  defines "maxl \<equiv> maxLines (bsize D) maxCacheBytes bpl"
  shows "reliable_device (CachedBlockDevice D maxCacheBytes readAheadBytes) (\<lambda>c. view (delegate c)) (cache_ok view ok D bpl maxl)"
proof (intro reliable_device.intro)
  show "raw_device (CachedBlockDevice D maxCacheBytes readAheadBytes) (\<lambda>c. view (delegate c)) (cache_ok view ok D bpl maxl)"
    unfolding bpl_def maxl_def by (rule confined_device.axioms(1) [OF cache_confined [OF assms(1,2)]])
  note sz = CachedBlockDevice_fields(1) [of readAheadBytes, folded bpl_def]
    CachedBlockDevice_fields(2) [of maxCacheBytes readAheadBytes, folded bpl_def, folded maxl_def]
    and dev = CachedBlockDevice_fields(3,4) CachedBlockDevice_fields(5) [of maxCacheBytes readAheadBytes, folded bpl_def, folded maxl_def]
      CachedBlockDevice_fields(6) [of maxCacheBytes readAheadBytes, folded bpl_def]
    and lb = line_size [OF assms(1,2), folded bpl_def]
  show "reliable_device_axioms (CachedBlockDevice D maxCacheBytes readAheadBytes) (cache_ok view ok D bpl maxl)"
  proof (unfold_locales, unfold dev, goal_cases)
    case (1 c s n)
    then have r: "long (s + n) = s + n" "0 \<le> s" "s + n \<le> bcount D" "int (nat s + nat n) \<le> bcount D"
      using bcount_range by (auto simp: in_range_def)
    have "ok (delegate c)" using 1(1) by (simp add: cache_ok_def)
    from read_total [OF this 1(2-4)] read_lines_total [OF sz(1) lb sz(2) 1(1) r(4)] show ?case
      using 1(3) r by (auto simp: cached_read_def Let_def split: prod.splits)
  next
    case (2 c s n data)
    have n: "length data div bsize D = nat n" "int (nat s) = s" "int (nat n) = n"
      using 2 bsize_pos by (simp_all add: in_range_def)
    have d: "delegate (markFetchesDirty bpl c (nat s) (nat n)) = delegate c" by (simp add: markFetchesDirty_def Let_def)
    have "ok (delegate c)" using 2(1) by (simp add: cache_ok_def)
    from write_total [OF this 2(2-5)] have "fst (write_section D bpl c (nat s) data)"
      using n d by (auto simp: write_section_def Let_def split: prod.splits)
    moreover have "requireInRange (bcount D) s n" using 2(2) bcount_range by (auto simp: requireInRange_def in_range_def)
    ultimately show ?case using 2(4) n by (simp add: cached_write_def)
  qed
qed

end

section \<open>The flat medium\<close>

text \<open>The reference: an array of bytes on which a request inside it is done and any other refused.\<close>

fun flat_step :: "nat \<Rightarrow> int \<Rightarrow> dev_op \<Rightarrow> (nat \<Rightarrow> u8) \<Rightarrow> dev_result \<times> (nat \<Rightarrow> u8)" where
  "flat_step bs cnt (ReadBlocks s n) m =
     (Data (if in_range cnt s n then Some (peek m (nat s * bs) (nat n * bs)) else None), m)"
| "flat_step bs cnt (WriteBlocks s data) m =
     (if in_range cnt s (int (length data div bs)) then (Written True, poke m (nat s * bs) data) else (Written False, m))"

fun flat_run :: "nat \<Rightarrow> int \<Rightarrow> dev_op list \<Rightarrow> (nat \<Rightarrow> u8) \<Rightarrow> dev_result list \<times> (nat \<Rightarrow> u8)" where
  "flat_run bs cnt [] m = ([], m)"
| "flat_run bs cnt (x # xs) m = (let (r, m) = flat_step bs cnt x m; (rs, m) = flat_run bs cnt xs m in (r # rs, m))"

fun nonempty :: "dev_op \<Rightarrow> bool" where
  "nonempty (ReadBlocks s n) \<longleftrightarrow> 0 < n"
| "nonempty (WriteBlocks s data) \<longleftrightarrow> data \<noteq> []"

lemma reliable_step:
  assumes R: "reliable_device D vw okr" and C: "confined_device D vw okc" and d: "okr d" "okc d"
    and x: "op_ok (bsize D) x" "nonempty x" and run: "device_step D x d = (r, d')"
  shows "flat_step (bsize D) (bcount D) x (vw d) = (r, vw d') \<and> okr d' \<and> okc d'"
proof -
  from confined_device.device_step_refines [OF C d(2) x(1) run]
  have m: "okc d'" "medium_step (bsize D) (bcount D) x r (vw d) (vw d')" by simp_all
  note laws = raw_device.read_law [OF reliable_device.axioms(1) [OF R] d(1)] raw_device.write_law [OF reliable_device.axioms(1) [OF R] d(1)]
    and out = confined_device.read_outside [OF C d(2)] confined_device.write_outside [OF C d(2)]
    and total = reliable_device.read_total [OF R d(1)] reliable_device.write_total [OF R d(1)]
  show ?thesis
  proof (cases x)
    case (ReadBlocks s n)
    obtain y where y: "read_blocks D d s n = (y, d')" "r = Data y"
      using run ReadBlocks by (auto simp: Let_def split: prod.splits)
    have n: "0 < n" "s < 2 ^ 62" "n < 2 ^ 31" "nat n * bsize D < 2 ^ 31" using x ReadBlocks by auto
    show ?thesis
    proof (cases "in_range (bcount D) s n")
      case True
      then show ?thesis using laws(1) [OF True n(4) y(1)] total(1) [OF True n(1,4)] m y ReadBlocks by auto
    next
      case False
      then show ?thesis using out(1) [OF n(2,3) False] d m y ReadBlocks by auto
    qed
  next
    case (WriteBlocks s data)
    let ?k = "length data div bsize D"
    obtain w where w: "write_blocks D d s data = (w, d')" "r = Written w"
      using run WriteBlocks by (auto simp: Let_def split: prod.splits)
    have len: "length data = nat (int ?k) * bsize D" "length data = ?k * bsize D" "s < 2 ^ 62" "length data < 2 ^ 31"
      using x WriteBlocks by auto
    have "0 < length data" using x WriteBlocks by simp
    then have k: "0 < int ?k" using len(2) by (intro iffD2 [OF of_nat_0_less_iff] Nat.gr0I) auto
    show ?thesis
    proof (cases "in_range (bcount D) s (int ?k)")
      case True
      then show ?thesis using laws(2) [OF True len(1,4) w(1)] total(2) [OF True k len(1,4)] m w WriteBlocks by auto
    next
      case False
      then show ?thesis using out(2) [OF len(3,4,2) False] d m w WriteBlocks by auto
    qed
  qed
qed

lemma reliable_run:
  assumes R: "reliable_device D vw okr" and C: "confined_device D vw okc"
  shows "okr d \<Longrightarrow> okc d \<Longrightarrow> list_all (op_ok (bsize D)) xs \<Longrightarrow> list_all nonempty xs \<Longrightarrow>
    map_prod id vw (device_run D xs d) = flat_run (bsize D) (bcount D) xs (vw d)"
proof (induction xs arbitrary: d)
  case (Cons x xs)
  obtain r d1 where 1: "device_step D x d = (r, d1)" by fastforce
  have "op_ok (bsize D) x" "nonempty x" using Cons.prems by simp_all
  note s = reliable_step [OF R C Cons.prems(1,2) this 1]
  with Cons.IH [of d1] Cons.prems 1 show ?case by (cases "device_run D xs d1") (auto simp: Let_def split: prod.splits)
qed simp

section \<open>The properties\<close>

lemma stack_contract:
  fixes ids :: "int list" and readAhead :: int
  assumes U: "raw_device U base ok" "bsize U = spb * 512" "spb dvd 256"
    and geo: "0 \<le> st" "131072 \<le> n * int (bsize U)" "st + n \<le> bcount U" "readAhead < 2 ^ 31"
  defines "St \<equiv> wrapWithCache (unlocked_device U st (Some n) ids) readAhead"
  defines "V \<equiv> unlocked_device U st (Some n) ids"
  defines "okc \<equiv> \<lambda>okv. cache_ok (volume_view base (nat st * bsize U + 131072) ids 256) okv V
    (blocksPerLine (bsize V) readAhead) (maxLines (bsize V) DEFAULT_CACHE_BYTES (blocksPerLine (bsize V) readAhead))"
  shows "confined_device St (decrypted_area base (bsize U) st ids) (okc (volume_ok ok ids))"
    "reliable_device U base ok \<Longrightarrow> reliable_device St (decrypted_area base (bsize U) st ids) (okc (volume_open ok ids))"
    "bsize St = bsize U" "bcount St = n - 131072 div int (bsize U)"
proof -
  let ?vw = "volume_view base (nat st * bsize U + 131072) ids 256"
  obtain q where q: "131072 div int (bsize U) = int q" "int q \<le> n" "bsize U < 2 ^ 31"
    "V = NativeDecryptedBlockDevice U (st + int q) (n - int q) ids (int q)"
    "nat (st + int q) * bsize U = nat st * bsize U + 131072" "word_of_int (int q * int spb) = (256 :: u64)"
    unfolding V_def by (rule unlocked_geometry [OF raw_device.bsize_pos [OF U(1)] U(2,3) geo(2,1), of ids])
  have g: "0 \<le> st + int q" "0 \<le> n - int q" "st + int q + (n - int q) \<le> bcount U" using geo q(2) by simp_all
  have dev: "bsize V = bsize U" "bcount V = n - int q" by (simp_all add: q(4) NativeDecryptedBlockDevice_def)
  then have b: "bsize V < 2 ^ 31" using q(3) by simp
  have da: "decrypted_area base (bsize U) st ids = (\<lambda>c. ?vw (delegate c))" by (simp add: decrypted_area_def fun_eq_iff)
  have St: "St = CachedBlockDevice V DEFAULT_CACHE_BYTES readAhead" by (simp add: St_def V_def wrapWithCache_def)
  have "confined_device V ?vw (volume_ok ok ids)"
    using raw_device.volume_confined [OF U(1) g U(2), of ids "int q"] by (simp only: q(4-6))
  from raw_device.cache_confined [OF confined_device.axioms(1) [OF this] b geo(4)]
  show "confined_device St (decrypted_area base (bsize U) st ids) (okc (volume_ok ok ids))" unfolding St da okc_def .
  show "reliable_device St (decrypted_area base (bsize U) st ids) (okc (volume_open ok ids))" if R: "reliable_device U base ok"
  proof -
    have "reliable_device V ?vw (volume_open ok ids)"
      using reliable_device.volume_reliable [OF R g U(2), of ids "int q"] by (simp only: q(4-6))
    from reliable_device.cache_reliable [OF this b geo(4)] show ?thesis unfolding St da okc_def .
  qed
  show "bsize St = bsize U" "bcount St = n - 131072 div int (bsize U)"
    by (simp_all add: St CachedBlockDevice_def Let_def dev q(1))
qed

lemma open_volume_ok:
  assumes "ok d" "vc_cascade_new ids (int (length ids)) key \<noteq> None"
  shows "cache_ok vw (volume_ok ok ids) V bpl maxl (open_volume d key)" "cache_ok vw (volume_open ok ids) V bpl maxl (open_volume d key)"
  using assms unfolding open_volume_def by (auto intro!: new_cache_ok simp: volume_open_def volume_ok_def)

text \<open>C6. What a filesystem sees of a mounted VeraCrypt volume. Let \<open>U\<close> be any raw device that keeps its contract, and
  a partition of \<open>n\<close> blocks on it. Any sequence of reads and writes through the cache over the unlocked volume gives
  results that the decrypted data area, as a plain medium, could give: a read that succeeds returns the
  current plaintext, a write that succeeds replaces exactly its bytes, one that fails touches no block outside
  its range, and every request outside the data area is refused.\<close>

theorem mounted_volume_refines_medium:
  assumes "raw_device U base ok" "bsize U = spb * 512" "spb dvd 256"
    and "0 \<le> st" "131072 \<le> n * int (bsize U)" "st + n \<le> bcount U" "readAhead < 2 ^ 31"
    and "ok d" "vc_cascade_new ids (int (length ids)) key \<noteq> None" "list_all (op_ok (bsize U)) ops"
    and "device_run (wrapWithCache (unlocked_device U st (Some n) ids) readAhead) ops (open_volume d key) = (rs, c)"
  shows "medium_run (bsize U) (n - 131072 div int (bsize U)) ops rs
    (decrypted_area base (bsize U) st ids (open_volume d key)) (decrypted_area base (bsize U) st ids c)"
proof -
  note S = stack_contract [OF assms(1-7), where ids = ids]
  from confined_device.device_run_refines [OF S(1) open_volume_ok(1) [where ok = ok and d = d, OF assms(8,9)] _ assms(11)] assms(10)
  show ?thesis by (simp add: S(3,4))
qed

text \<open>An AES volume in the file of 20480 blocks.\<close>

abbreviation demo_image :: bytes where
  "demo_image \<equiv> replicate (20480 * 512) 0"

abbreviation demo_mount :: "bytes vc_volume cache raw_block_device" where
  "demo_mount \<equiv> wrapWithCache (unlocked_device (FileBlockDevice 20480) 2048 (Some 4096) [VC_CIPHER_AES]) 65536"

lemma demo_geometry:
  "bsize (FileBlockDevice 20480) = 512" "bcount (FileBlockDevice 20480) = 20480" "nat 20480 * 512 \<le> length demo_image"
  by (simp_all add: FileBlockDevice_def)

lemma demo_key: "vc_cascade_new [VC_CIPHER_AES] (int (length [VC_CIPHER_AES])) (replicate 64 1) \<noteq> None"
  by (rule iffD2 [OF vc_cascade_new_succeeds]) simp

theorem mounted_volume_refines_medium_witness:
  "\<exists>rs c. device_run demo_mount [WriteBlocks 3 (replicate 512 7), ReadBlocks 3 1, ReadBlocks 3840 1] (open_volume demo_image (replicate 64 1)) = (rs, c) \<and>
    medium_run 512 3840 [WriteBlocks 3 (replicate 512 7), ReadBlocks 3 1, ReadBlocks 3840 1] rs
      (decrypted_area file_view 512 2048 [VC_CIPHER_AES] (open_volume demo_image (replicate 64 1)))
      (decrypted_area file_view 512 2048 [VC_CIPHER_AES] c)"
proof -
  let ?ops = "[WriteBlocks 3 (replicate 512 7), ReadBlocks 3 1, ReadBlocks 3840 1]"
  obtain rs c where run: "device_run demo_mount ?ops (open_volume demo_image (replicate 64 1)) = (rs, c)" by fastforce
  have "medium_run (bsize (FileBlockDevice 20480)) (4096 - 131072 div int (bsize (FileBlockDevice 20480))) ?ops rs
    (decrypted_area file_view (bsize (FileBlockDevice 20480)) 2048 [VC_CIPHER_AES] (open_volume demo_image (replicate 64 1)))
    (decrypted_area file_view (bsize (FileBlockDevice 20480)) 2048 [VC_CIPHER_AES] c)"
    by (rule mounted_volume_refines_medium [OF image.raw_device_axioms, where spb = 1, OF _ _ _ _ _ _ demo_geometry(3) demo_key _ run])
      (simp_all add: demo_geometry)
  with run show ?thesis by (auto simp: demo_geometry)
qed

text \<open>C1. If the raw device does not fail, the mounted volume is exactly that medium: the results of any sequence of
  nonempty requests, and the plaintext afterwards, are those of a flat array of bytes. Encryption, sector
  numbers, cache lines and evictions do not show.\<close>

theorem mounted_volume_is_flat:
  assumes "reliable_device U base ok" "bsize U = spb * 512" "spb dvd 256"
    and "0 \<le> st" "131072 \<le> n * int (bsize U)" "st + n \<le> bcount U" "readAhead < 2 ^ 31"
    and "ok d" "vc_cascade_new ids (int (length ids)) key \<noteq> None" "list_all (op_ok (bsize U)) ops" "list_all nonempty ops"
  shows "map_prod id (decrypted_area base (bsize U) st ids)
      (device_run (wrapWithCache (unlocked_device U st (Some n) ids) readAhead) ops (open_volume d key)) =
    flat_run (bsize U) (n - 131072 div int (bsize U)) ops (decrypted_area base (bsize U) st ids (open_volume d key))"
proof -
  note S = stack_contract [OF reliable_device.axioms(1) [OF assms(1)] assms(2-7), where ids = ids]
  from reliable_run [OF S(2) [OF assms(1)] S(1) open_volume_ok(2) [where ok = ok and d = d, OF assms(8,9)]
      open_volume_ok(1) [where ok = ok and d = d, OF assms(8,9)] _ assms(11)] assms(10)
  show ?thesis by (simp add: S(3,4))
qed


theorem mounted_volume_is_flat_witness:
  "fst (device_run demo_mount [WriteBlocks 3 (replicate 512 7), ReadBlocks 3 1, ReadBlocks 3840 1] (open_volume demo_image (replicate 64 1))) =
    [Written True, Data (Some (replicate 512 7)), Data None]"
proof -
  let ?ops = "[WriteBlocks 3 (replicate 512 7), ReadBlocks 3 1, ReadBlocks 3840 1]"
  let ?m = "decrypted_area file_view 512 2048 [VC_CIPHER_AES] (open_volume demo_image (replicate 64 1))"
  have "map_prod id (decrypted_area file_view (bsize (FileBlockDevice 20480)) 2048 [VC_CIPHER_AES])
      (device_run demo_mount ?ops (open_volume demo_image (replicate 64 1))) =
    flat_run (bsize (FileBlockDevice 20480)) (4096 - 131072 div int (bsize (FileBlockDevice 20480))) ?ops
      (decrypted_area file_view (bsize (FileBlockDevice 20480)) 2048 [VC_CIPHER_AES] (open_volume demo_image (replicate 64 1)))"
    by (rule mounted_volume_is_flat [OF image_file.reliable_device_axioms, where spb = 1, OF _ _ _ _ _ _ demo_geometry(3) demo_key])
      (simp_all add: demo_geometry)
  from arg_cong [OF this, of fst, unfolded fst_map_prod id_apply]
  have "fst (device_run demo_mount ?ops (open_volume demo_image (replicate 64 1))) = fst (flat_run 512 3840 ?ops ?m)"
    by (simp del: device_run.simps flat_run.simps add: demo_geometry)
  also have "\<dots> = [Written True, Data (Some (replicate 512 7)), Data None]"
    using peek_poke [of ?m 1536 "replicate 512 7"] by (simp add: in_range_def Let_def)
  finally show ?thesis .
qed

end
