(* ===== verification/VeraCryptVolume.thy ===== *)
theory VeraCryptVolume
  imports DeviceStack "HOL-Library.Multiset"
begin

text \<open>
  Creating and unlocking VeraCrypt volumes: the choice of ciphers and key derivations of
  \<^verbatim>\<open>VeraCryptCipher.kt\<close>, the keyfiles of \<^verbatim>\<open>VeraCryptKeyfiles.kt\<close>, the headers \<^verbatim>\<open>VeraCryptVolumeCreator.kt\<close> writes and the
  header \<^verbatim>\<open>VeraCryptUnlocker.kt\<close> reads. The random bytes of the creator are arguments. A keyfile is the bytes its stream
  yields and whether the stream then fails.
\<close>

unbundle bit_operations_syntax

section \<open>Ciphers and key derivations\<close>

datatype SingleCipher = AES | SERPENT | TWOFISH

fun nativeId :: "SingleCipher \<Rightarrow> int" where
  "nativeId AES = 0"
| "nativeId SERPENT = 1"
| "nativeId TWOFISH = 2"

datatype VeraCryptCipher =
  V_AES | V_SERPENT | V_TWOFISH | V_AES_TWOFISH | V_AES_TWOFISH_SERPENT | V_SERPENT_AES | V_SERPENT_TWOFISH_AES | V_TWOFISH_SERPENT

fun components :: "VeraCryptCipher \<Rightarrow> SingleCipher list" where
  "components V_AES = [AES]"
| "components V_SERPENT = [SERPENT]"
| "components V_TWOFISH = [TWOFISH]"
| "components V_AES_TWOFISH = [TWOFISH, AES]"
| "components V_AES_TWOFISH_SERPENT = [SERPENT, TWOFISH, AES]"
| "components V_SERPENT_AES = [AES, SERPENT]"
| "components V_SERPENT_TWOFISH_AES = [AES, TWOFISH, SERPENT]"
| "components V_TWOFISH_SERPENT = [SERPENT, TWOFISH]"

definition keySizeBytes :: "VeraCryptCipher \<Rightarrow> nat" where
  "keySizeBytes c = length (components c) * 64"

definition nativeIds :: "VeraCryptCipher \<Rightarrow> int list" where
  "nativeIds c = map nativeId (components c)"

datatype VeraCryptHash = SHA512 | ARGON2 | SHA256 | WHIRLPOOL | STREEBOG

fun kdfNativeId :: "VeraCryptHash \<Rightarrow> int option" where
  "kdfNativeId SHA512 = Some 0"
| "kdfNativeId ARGON2 = Some 1"
| "kdfNativeId h = None"

definition isSupported :: "VeraCryptHash \<Rightarrow> bool" where
  "isSupported h \<longleftrightarrow> kdfNativeId h \<noteq> None"

text \<open>The cost parameters; \<^verbatim>\<open>Int\<close> arithmetic wraps at 32 bits. The quotient is taken of a number that is not negative.\<close>

record KdfParams =
  iterations :: "32 word"
  memoryKiB :: "32 word"

definition argon2_params :: "32 word \<Rightarrow> KdfParams" where
  "argon2_params pim =
     (let p = if pim = 0 then 12 else pim;
          mib = 64 + (p - 1) * 32;
          memoryMiB = if sint mib \<le> 1024 then mib else 1024;
          passes = if sint p \<le> 31 then 3 + word_of_int (sint (p - 1) div 3) else 13 + (p - 31)
      in \<lparr>iterations = passes, memoryKiB = memoryMiB * 1024\<rparr>)"

definition forVolume :: "VeraCryptHash \<Rightarrow> 32 word option \<Rightarrow> KdfParams" where
  "forVolume hash pim =
     (let p = case pim of Some p \<Rightarrow> if sint p < 0 then 0 else p | None \<Rightarrow> 0
      in if hash = ARGON2 then argon2_params p
         else \<lparr>iterations = if p = 0 then 500000 else 15000 + p * 1000, memoryKiB = 0\<rparr>)"

section \<open>Keyfiles\<close>

definition MAX_BYTES_READ :: nat where "MAX_BYTES_READ = 1048576"

definition crc_shift :: "u64 \<Rightarrow> u64" where
  "crc_shift crc = (if crc AND 1 \<noteq> 0 then drop_bit 1 crc XOR 0xEDB88320 else drop_bit 1 crc)"

definition crc_byte :: "u64 \<Rightarrow> u8 \<Rightarrow> u64" where
  "crc_byte crc b = (crc_shift ^^ 8) (crc XOR ucast b)"

text \<open>The four bytes of the running value, added into the pool from the write position on.\<close>

definition pool_add :: "bytes \<times> nat \<Rightarrow> u8 \<Rightarrow> bytes \<times> nat" where
  "pool_add = (\<lambda>(pool, writePos) v.
     (pool[writePos := pool ! writePos + v], if length pool \<le> writePos + 1 then 0 else writePos + 1))"

definition crc_bytes :: "u64 \<Rightarrow> bytes" where
  "crc_bytes crc = map (\<lambda>shift. ucast (drop_bit shift crc AND 0xFF)) [24, 16, 8, 0]"

definition mix_byte :: "u64 \<times> bytes \<times> nat \<Rightarrow> u8 \<Rightarrow> u64 \<times> bytes \<times> nat" where
  "mix_byte = (\<lambda>(crc, st) b.
     let crc = crc_byte crc b in (crc, foldl pool_add st (crc_bytes crc)))"

definition mixOne :: "bytes \<Rightarrow> bytes \<Rightarrow> bytes" where
  "mixOne stream pool = fst (snd (foldl mix_byte (0xFFFFFFFF, pool, 0) (take MAX_BYTES_READ stream)))"

type_synonym keyfile = "bytes \<times> bool"

text \<open>The keyfiles one after the other. A stream that fails has been mixed in as far as it was read.\<close>

fun mixAll :: "bool \<Rightarrow> keyfile list \<Rightarrow> bytes \<Rightarrow> bytes option" where
  "mixAll skipUnreadable [] pool = Some pool"
| "mixAll skipUnreadable ((stream, fails) # keyfiles) pool =
     (if fails \<and> length stream < MAX_BYTES_READ \<and> \<not> skipUnreadable then None
      else mixAll skipUnreadable keyfiles (mixOne stream pool))"

definition apply_keyfiles :: "bytes \<Rightarrow> keyfile list \<Rightarrow> bool \<Rightarrow> bytes option" where
  "apply_keyfiles password keyfiles skipUnreadable =
     (if keyfiles = [] then Some password
      else
        let poolSize = if length password \<le> 64 then 64 else 128
        in case mixAll skipUnreadable keyfiles (replicate poolSize 0) of
             None \<Rightarrow> None
           | Some pool \<Rightarrow>
               let mixed = overwrite (replicate (max poolSize (length password)) 0) 0 password
               in Some (map2 (+) (take poolSize mixed) pool @ drop poolSize mixed))"

text \<open>Mixing a keyfile adds to the pool what it adds to an empty one.\<close>

lemma length_pool_add [simp]: "length (fst (pool_add st v)) = length (fst st)"
  by (simp add: pool_add_def case_prod_beta)

lemma length_pool_adds [simp]: "length (fst (foldl pool_add st vs)) = length (fst st)"
  by (induction vs arbitrary: st) simp_all

lemma pool_add_sum:
  assumes "length p = length p'"
  shows "pool_add (map2 (+) p p', w) v = (map2 (+) p (fst (pool_add (p', w) v)), snd (pool_add (p', w) v))"
  using assms by (cases "w < length p'") (auto simp: pool_add_def list_eq_iff_nth_eq nth_list_update add.assoc)

lemma pool_adds_sum:
  "length p = length (fst st) \<Longrightarrow>
    foldl pool_add (map2 (+) p (fst st), snd st) vs = (map2 (+) p (fst (foldl pool_add st vs)), snd (foldl pool_add st vs))"
  by (induction vs arbitrary: st) (simp_all add: pool_add_sum [of p "fst st" "snd st" for st])

lemma length_mix_byte [simp]: "length (fst (snd (mix_byte s b))) = length (fst (snd s))"
  by (simp add: mix_byte_def case_prod_beta Let_def)

lemma mix_bytes_sum:
  "length p = length (fst (snd s)) \<Longrightarrow>
    foldl mix_byte (fst s, map2 (+) p (fst (snd s)), snd (snd s)) bs =
    (let s' = foldl mix_byte s bs in (fst s', map2 (+) p (fst (snd s')), snd (snd s')))"
proof (induction bs arbitrary: s)
  case (Cons b bs)
  have "mix_byte (fst s, map2 (+) p (fst (snd s)), snd (snd s)) b =
      (fst (mix_byte s b), map2 (+) p (fst (snd (mix_byte s b))), snd (snd (mix_byte s b)))"
    using pool_adds_sum [of p "snd s"] Cons.prems by (simp add: mix_byte_def case_prod_beta Let_def)
  with Cons show ?case by simp
qed simp

lemma length_mixOne [simp]: "length (mixOne stream pool) = length pool"
proof -
  have "length (fst (snd (foldl mix_byte s bs))) = length (fst (snd s))" for s bs
    by (induction bs arbitrary: s) simp_all
  then show ?thesis by (simp add: mixOne_def)
qed

lemma mixOne_sum: "mixOne stream pool = map2 (+) pool (mixOne stream (replicate (length pool) 0))"
proof -
  have "map2 (+) pool (replicate (length pool) 0) = pool" by (simp add: list_eq_iff_nth_eq)
  then show ?thesis
    using mix_bytes_sum [of pool "(0xFFFFFFFF, replicate (length pool) 0, 0)" "take MAX_BYTES_READ stream"]
    by (simp add: mixOne_def Let_def)
qed

lemma mixOne_commute: "mixOne a (mixOne b pool) = mixOne b (mixOne a pool)"
proof -
  let ?z = "replicate (length pool) (0 :: u8)"
  have two: "mixOne x (mixOne y pool) = map2 (+) (map2 (+) pool (mixOne y ?z)) (mixOne x ?z)" for x y
    using mixOne_sum [of x "mixOne y pool", unfolded length_mixOne] mixOne_sum [of y pool] by simp
  show ?thesis unfolding two by (simp add: list_eq_iff_nth_eq add.commute add.left_commute)
qed

lemma mixAll_fold:
  "mixAll skip keyfiles pool =
    (if \<not> skip \<and> (\<exists>kf \<in> set keyfiles. snd kf \<and> length (fst kf) < MAX_BYTES_READ) then None
     else Some (fold mixOne (map fst keyfiles) pool))"
proof (induction skip keyfiles pool rule: mixAll.induct)
  case (2 skip stream fails keyfiles pool)
  then show ?case by (cases skip; cases "fails \<and> length stream < MAX_BYTES_READ"; simp; blast)
qed simp

lemma mixAll_order: "mset keyfiles = mset keyfiles' \<Longrightarrow> mixAll skip keyfiles pool = mixAll skip keyfiles' pool"
proof -
  assume m: "mset keyfiles = mset keyfiles'"
  then have "fold mixOne (map fst keyfiles) = fold mixOne (map fst keyfiles')"
    by (intro fold_multiset_equiv) (simp_all add: mixOne_commute fun_eq_iff)
  moreover have "set keyfiles = set keyfiles'" using m by (rule mset_eq_setD)
  ultimately show ?thesis by (simp only: mixAll_fold)
qed

text \<open>C40. The order of the keyfiles does not matter, whichever of them can be read and whether unreadable ones are
  skipped or not.\<close>

theorem keyfile_order_irrelevant:
  assumes "mset keyfiles = mset keyfiles'"
  shows "apply_keyfiles password keyfiles skipUnreadable = apply_keyfiles password keyfiles' skipUnreadable"
  using assms mixAll_order [OF assms] by (auto simp: apply_keyfiles_def Let_def)

theorem keyfile_order_irrelevant_witness:
  "apply_keyfiles [1, 2] [([3, 4], False), ([5], False), ([6], True)] True = apply_keyfiles [1, 2] [([6], True), ([5], False), ([3, 4], False)] True"
  by (rule keyfile_order_irrelevant) simp

section \<open>Creating a volume\<close>

text \<open>\<^verbatim>\<open>String.toByteArray(UTF_8)\<close> on the UTF-16 units of the password; a lone surrogate becomes a question mark.\<close>

fun java_utf8 :: "u16 list \<Rightarrow> bytes" where
  "java_utf8 [] = []"
| "java_utf8 (c # cs) =
     (if c < 0x80 then ucast c # java_utf8 cs
      else if c < 0x800 then ucast (0xC0 OR drop_bit 6 c) # ucast (0x80 OR (c AND 0x3F)) # java_utf8 cs
      else if 0xD800 \<le> c \<and> c \<le> 0xDFFF then
        (case cs of
           d # ds \<Rightarrow>
             if c \<le> 0xDBFF \<and> 0xDC00 \<le> d \<and> d \<le> 0xDFFF then
               let u = 0x10000 + push_bit 10 (ucast c - 0xD800) + (ucast d - 0xDC00) :: u32
               in ucast (0xF0 OR drop_bit 18 u) # ucast (0x80 OR (drop_bit 12 u AND 0x3F)) #
                  ucast (0x80 OR (drop_bit 6 u AND 0x3F)) # ucast (0x80 OR (u AND 0x3F)) # java_utf8 ds
             else 0x3F # java_utf8 cs
         | [] \<Rightarrow> [0x3F])
      else ucast (0xE0 OR drop_bit 12 c) # ucast (0x80 OR (drop_bit 6 c AND 0x3F)) # ucast (0x80 OR (c AND 0x3F)) # java_utf8 cs)"

definition HEADER_GROUP_BYTES :: int where "HEADER_GROUP_BYTES = 131072"

definition minPimForShortPassword :: "VeraCryptHash \<Rightarrow> int" where
  "minPimForShortPassword hash = (if hash = ARGON2 then 12 else 485)"

definition pimTooLowForPassword :: "u16 list \<Rightarrow> 32 word option \<Rightarrow> VeraCryptHash \<Rightarrow> bool" where
  "pimTooLowForPassword password pim hash \<longleftrightarrow>
     password \<noteq> [] \<and> length password < 20 \<and>
     (case pim of Some p \<Rightarrow> 1 \<le> sint p \<and> sint p < minPimForShortPassword hash | None \<Rightarrow> False)"

datatype password_problem = NoPassword | PimNegative | PasswordTooLong | PimTooLow

definition passwordProblem :: "u16 list \<Rightarrow> 32 word option \<Rightarrow> bool \<Rightarrow> VeraCryptHash \<Rightarrow> password_problem option" where
  "passwordProblem password pim hasKeyfiles hash =
     (let negative = (case pim of Some p \<Rightarrow> sint p < 0 | None \<Rightarrow> False)
      in if password = [] \<and> \<not> hasKeyfiles then Some NoPassword
         else if password = [] then if negative then Some PimNegative else None
         else if 128 < length (java_utf8 password) then Some PasswordTooLong
         else if negative then Some PimNegative
         else if pimTooLowForPassword password pim hash then Some PimTooLow
         else None)"

definition dataBytes :: "int \<Rightarrow> int" where
  "dataBytes hostSectors = max 0 ((long (hostSectors * 512) - 2 * HEADER_GROUP_BYTES) div 4096 * 4096)"

definition crc32 :: "bytes \<Rightarrow> u32" where
  "crc32 b = ucast (foldl crc_byte 0xFFFFFFFF b XOR 0xFFFFFFFF)"

definition be_bytes :: "nat \<Rightarrow> u64 \<Rightarrow> bytes" where
  "be_bytes n v = map (\<lambda>i. ucast (drop_bit (8 * i) v)) (rev [0..<n])"

definition VERA :: bytes where "VERA = [0x56, 0x45, 0x52, 0x41]"

definition plainHeader :: "int \<Rightarrow> bytes \<Rightarrow> bytes option" where
  "plainHeader dataSize keyArea =
     (if length keyArea \<noteq> 256 then None
      else
        let h = replicate 448 0;
            h = overwrite h 0 (VERA @ be_bytes 2 5 @ be_bytes 2 0x010B @ be_bytes 4 (ucast (crc32 keyArea)));
            h = overwrite h 28 (be_bytes 8 0 @ be_bytes 8 (word_of_int dataSize) @ be_bytes 8 (word_of_int HEADER_GROUP_BYTES) @
                  be_bytes 8 (word_of_int dataSize) @ be_bytes 4 0 @ be_bytes 4 512);
            out = overwrite h 188 (be_bytes 4 (ucast (crc32 (take 188 h))))
        in Some (overwrite out 192 keyArea))"

text \<open>The random bytes: the key area, the salts of the two headers, and the filling of the two header groups.\<close>

record randomness =
  rnd_keyArea :: bytes
  rnd_salt1 :: bytes
  rnd_salt2 :: bytes
  rnd_group1 :: bytes
  rnd_group2 :: bytes

datatype create_error =
  HashUnsupported | SectorSize | PasswordRefused password_problem | TooSmall | KeyfileUnreadable | HeaderFailed | WriteFailed

definition seal :: "argon2_fn \<Rightarrow> pbkdf2_fn \<Rightarrow> VeraCryptCipher \<Rightarrow> VeraCryptHash \<Rightarrow> KdfParams \<Rightarrow> bytes \<Rightarrow> bytes \<Rightarrow> bytes \<Rightarrow> bytes option" where
  "seal argon2 pbkdf2 cipher hash kdf passwordBytes salt plain =
     (case encryptHeader argon2 pbkdf2 (nativeIds cipher) (the (kdfNativeId hash)) passwordBytes salt
             (iterations kdf) (memoryKiB kdf) plain of
        Some (Header encd) \<Rightarrow> Some (salt @ encd)
      | _ \<Rightarrow> None)"

definition write_headers :: "'d raw_block_device \<Rightarrow> bytes \<Rightarrow> bytes \<Rightarrow> 'd \<Rightarrow> bool \<times> 'd" where
  "write_headers part group1 group2 d =
     (let (w, d) = write_blocks part d 0 group1
      in if \<not> w then (False, d)
         else write_blocks part d (long (long (bcount part * 512) - HEADER_GROUP_BYTES) div 512) group2)"

definition create :: "argon2_fn \<Rightarrow> pbkdf2_fn \<Rightarrow> randomness \<Rightarrow> 'd raw_block_device \<Rightarrow> 'd \<Rightarrow> u16 list \<Rightarrow> 32 word option \<Rightarrow>
    VeraCryptCipher \<Rightarrow> VeraCryptHash \<Rightarrow> keyfile list \<Rightarrow> (create_error + bytes) \<times> 'd" where
  "create argon2 pbkdf2 rnd part d password pim cipher hash keyfiles =
     (if \<not> isSupported hash then (Inl HashUnsupported, d)
      else if bsize part \<noteq> 512 then (Inl SectorSize, d)
      else
        case passwordProblem password pim (keyfiles \<noteq> []) hash of
          Some problem \<Rightarrow> (Inl (PasswordRefused problem), d)
        | None \<Rightarrow>
            let dataSize = dataBytes (bcount part)
            in if dataSize < 2 ^ 20 then (Inl TooSmall, d)
               else
                 case apply_keyfiles (java_utf8 password) keyfiles False of
                   None \<Rightarrow> (Inl KeyfileUnreadable, d)
                 | Some passwordBytes \<Rightarrow>
                     let plain = plainHeader dataSize (rnd_keyArea rnd);
                         kdf = forVolume hash pim;
                         sealed = (\<lambda>salt. Option.bind plain (seal argon2 pbkdf2 cipher hash kdf passwordBytes salt))
                     in case (sealed (rnd_salt1 rnd), sealed (rnd_salt2 rnd)) of
                          (Some primary, Some backup) \<Rightarrow>
                            let (w, d) = write_headers part (overwrite (rnd_group1 rnd) 0 primary) (overwrite (rnd_group2 rnd) 0 backup) d
                            in (if w then Inr (take (keySizeBytes cipher) (rnd_keyArea rnd)) else Inl WriteFailed, d)
                        | _ \<Rightarrow> (Inl HeaderFailed, d))"

text \<open>The device \<^verbatim>\<open>create\<close> returns for its master key.\<close>

definition created_device :: "'d raw_block_device \<Rightarrow> VeraCryptCipher \<Rightarrow> 'd vc_volume raw_block_device" where
  "created_device part cipher = NativeDecryptedBlockDevice part 256 (dataBytes (bcount part) div 512) (nativeIds cipher) 256"

section \<open>Unlocking\<close>

datatype unlock_error = UnsupportedAlgorithm | HeaderUnreadable | KdfFailed int | DecryptionFailed | WrongPassword

definition unlock :: "argon2_fn \<Rightarrow> pbkdf2_fn \<Rightarrow> 'd raw_block_device \<Rightarrow> 'd \<Rightarrow> int \<Rightarrow> u16 list \<Rightarrow> 32 word option \<Rightarrow>
    keyfile list \<Rightarrow> VeraCryptCipher \<Rightarrow> VeraCryptHash \<Rightarrow> (unlock_error + bytes) \<times> 'd" where
  "unlock argon2 pbkdf2 U d startBlock password pim keyfiles cipher hash =
     (if \<not> isSupported hash then (Inl UnsupportedAlgorithm, d)
      else
        case apply_keyfiles (java_utf8 password) keyfiles True of
          None \<Rightarrow> (Inl HeaderUnreadable, d)
        | Some passwordBytes \<Rightarrow>
            let kdf = forVolume hash pim;
                (r, d) = read_blocks U d startBlock 1
            in case r of
                 None \<Rightarrow> (Inl HeaderUnreadable, d)
               | Some headerSector \<Rightarrow>
                   if length headerSector < 512 then (Inl HeaderUnreadable, d)
                   else
                     let salt = take 64 headerSector;
                         encryptedHeader = take 448 (drop 64 headerSector)
                     in (case decryptHeader argon2 pbkdf2 (nativeIds cipher) (the (kdfNativeId hash)) passwordBytes salt
                                (iterations kdf) (memoryKiB kdf) encryptedHeader of
                           Some (Header decryptedHeader) \<Rightarrow>
                             if take 4 decryptedHeader \<noteq> VERA then Inl WrongPassword
                             else Inr (take (keySizeBytes cipher) (drop 192 decryptedHeader))
                         | Some (IllegalState code) \<Rightarrow> Inl (KdfFailed code)
                         | _ \<Rightarrow> Inl DecryptionFailed, d))"


section \<open>From the creator to the unlocker\<close>

lemma length_be_bytes [simp]: "length (be_bytes n v) = n"
  by (simp add: be_bytes_def)

lemma plainHeader_parts:
  assumes "length keyArea = 256"
  obtains h where "plainHeader dataSize keyArea = Some h" "length h = 448" "take 4 h = VERA" "drop 192 h = keyArea"
proof -
  obtain h where h: "plainHeader dataSize keyArea = Some h" using assms by (simp add: plainHeader_def Let_def)
  moreover have "length h = 448" "take 4 h = VERA" "drop 192 h = keyArea"
    using h assms by (auto simp: plainHeader_def Let_def VERA_def overwrite_def)
  ultimately show thesis by (rule that)
qed

lemma apply_keyfiles_strict:
  "apply_keyfiles password keyfiles False = Some x \<Longrightarrow> apply_keyfiles password keyfiles True = Some x"
  by (auto simp: apply_keyfiles_def mixAll_fold Let_def split: if_splits option.splits)

lemma seal_opens:
  assumes "seal argon2 pbkdf2 cipher hash kdf pwd salt plain = Some header" "length salt = 64" "length plain = 448"
  shows "length header = 512 \<and> take 64 header = salt \<and>
    decryptHeader argon2 pbkdf2 (nativeIds cipher) (the (kdfNativeId hash)) pwd salt (iterations kdf) (memoryKiB kdf)
      (drop 64 header) = Some (Header plain)"
proof -
  obtain encd where e: "encryptHeader argon2 pbkdf2 (nativeIds cipher) (the (kdfNativeId hash)) pwd salt (iterations kdf) (memoryKiB kdf) plain = Some (Header encd)"
    and h: "header = salt @ encd"
    using assms(1) by (auto simp: seal_def split: option.splits header_result.splits)
  from encrypted_header_opens [OF e] h assms(2,3) show ?thesis by simp
qed


text \<open>Where the two header groups go.\<close>

lemma header_positions:
  assumes "0 \<le> n" "n < 2 ^ 50" "2 ^ 20 \<le> dataBytes n"
  shows "2560 \<le> n" "long (long (n * 512) - HEADER_GROUP_BYTES) div 512 = n - 256" "in_range n 0 256" "in_range n (n - 256) 256"
proof -
  have l: "long (n * 512) = n * 512" using assms(1,2) by simp
  then show n: "2560 \<le> n" using assms(3) by (auto simp: dataBytes_def HEADER_GROUP_BYTES_def)
  show "long (long (n * 512) - HEADER_GROUP_BYTES) div 512 = n - 256"
    using n assms(2) l by (simp add: HEADER_GROUP_BYTES_def)
  show "in_range n 0 256" "in_range n (n - 256) 256" using n by (auto simp: in_range_def)
qed

lemma headers_written:
  assumes dev: "confined_device part vw ok" "bsize part = 512" "bcount part < 2 ^ 50" "2 ^ 20 \<le> dataBytes (bcount part)"
    and g: "length group1 = 131072" "length group2 = 131072"
    and d: "ok d" "write_headers part group1 group2 d = (True, d')"
  shows "ok d'" "peek (vw d') 0 512 = take 512 group1" "1 \<le> bcount part"
proof -
  let ?n = "bcount part"
  have "0 \<le> ?n" using raw_device.bcount_range [OF confined_device.axioms(1) [OF dev(1)]] by simp
  note hp = header_positions [OF this dev(3,4)]
  note n = hp(1) and pos = hp(2) and r = hp(3,4)
  obtain d1 where w: "write_blocks part d 0 group1 = (True, d1)" "write_blocks part d1 (?n - 256) group2 = (True, d')"
    using d(2) by (auto simp: write_headers_def pos Let_def split: prod.splits if_splits)
  note law = raw_device.write_law [OF confined_device.axioms(1) [OF dev(1)]]
  have 1: "ok d1" "vw d1 = poke (vw d) 0 group1" using law [OF d(1) r(1) _ _ w(1)] g(1) dev(2) by simp_all
  have 2: "ok d'" "vw d' = poke (vw d1) (nat (?n - 256) * 512) group2"
    using law [OF 1(1) r(2) _ _ w(2)] g(2) dev(2) by simp_all
  show "ok d'" by (rule 2)
  have "peek (vw d') 0 512 = peek (vw d1) 0 512" unfolding 2 using n by (intro peek_poke_disjoint) simp
  also have "\<dots> = take 512 (drop 0 (peek (vw d1) 0 131072))" by (subst take_drop_peek) simp_all
  also have "peek (vw d1) 0 131072 = group1" unfolding 1(2) using peek_poke [of "vw d" 0 group1] g(1) by simp
  finally show "peek (vw d') 0 512 = take 512 group1" by simp
  show "1 \<le> ?n" using n by simp
qed

lemma create_Inr:
  assumes "create argon2 pbkdf2 rnd part d password pim cipher hash keyfiles = (Inr key, d')" "length (rnd_keyArea rnd) = 256"
  obtains pwd h primary backup where "isSupported hash" "bsize part = 512" "2 ^ 20 \<le> dataBytes (bcount part)"
    "apply_keyfiles (java_utf8 password) keyfiles False = Some pwd"
    "length h = 448" "take 4 h = VERA" "drop 192 h = rnd_keyArea rnd" "key = take (keySizeBytes cipher) (rnd_keyArea rnd)"
    "seal argon2 pbkdf2 cipher hash (forVolume hash pim) pwd (rnd_salt1 rnd) h = Some primary"
    "seal argon2 pbkdf2 cipher hash (forVolume hash pim) pwd (rnd_salt2 rnd) h = Some backup"
    "write_headers part (overwrite (rnd_group1 rnd) 0 primary) (overwrite (rnd_group2 rnd) 0 backup) d = (True, d')"
proof -
  obtain h where h: "plainHeader (dataBytes (bcount part)) (rnd_keyArea rnd) = Some h" "length h = 448" "take 4 h = VERA" "drop 192 h = rnd_keyArea rnd"
    by (rule plainHeader_parts [OF assms(2)])
  show thesis using assms(1) h
    by (auto simp: create_def Let_def split: if_splits option.splits prod.splits intro!: that [of _ h])
qed

lemma cipher_key_accepted:
  assumes "length key = keySizeBytes cipher"
  shows "vc_cascade_new (nativeIds cipher) (int (length (nativeIds cipher))) key \<noteq> None"
  using assms
  by (intro iffD2 [OF vc_cascade_new_succeeds])
    (cases cipher; simp add: nativeIds_def keySizeBytes_def vc_ids less_Suc_eq numeral_3_eq_3 numeral_2_eq_2)

context reliable_device
begin

lemma slice_reliable:
  assumes "0 \<le> first" "0 \<le> cnt" "first + cnt \<le> bcount D"
  shows "reliable_device (SlicedBlockDevice D first cnt) (slice_view view (nat first * bsize D)) ok"
proof (intro reliable_device.intro)
  show "raw_device (SlicedBlockDevice D first cnt) (slice_view view (nat first * bsize D)) ok"
    by (rule confined_device.axioms(1) [OF slice_confined [OF assms]])
  show "reliable_device_axioms (SlicedBlockDevice D first cnt) ok"
  proof (unfold_locales, goal_cases)
    case (1 d s n)
    then have r: "in_range cnt s n" "nat n * bsize D < 2 ^ 31" by (simp_all add: SlicedBlockDevice_def)
    note sh = in_range_shift [OF r(1) assms(1,3)]
    have "0 \<le> s" "0 \<le> n" "s + n \<le> cnt" using r(1) by (auto simp: in_range_def)
    with read_total [OF 1(1) sh(1) 1(3) r(2)] sh show ?case by (simp add: SlicedBlockDevice_def)
  next
    case (2 d s n data)
    then have r: "in_range cnt s n" "length data = nat n * bsize D" by (simp_all add: SlicedBlockDevice_def)
    note sh = in_range_shift [OF r(1) assms(1,3)]
    have "0 \<le> s" "0 \<le> n" "s + n \<le> cnt" "int (length data div bsize D) = n" using r bsize_pos by (auto simp: in_range_def)
    with write_total [OF 2(1) sh(1) 2(3) r(2) 2(5)] sh show ?case by (simp add: SlicedBlockDevice_def)
  qed
qed

end

text \<open>C2. A volume that \<^verbatim>\<open>VeraCryptVolumeCreator.create\<close> has made on a partition opens again: on a device that does not
  fail, \<^verbatim>\<open>VeraCryptUnlocker.unlock\<close> with the same password, PIM, keyfiles, cipher and hash returns the master key
  the creator used, whatever the key derivations compute, and the key is one its cascade accepts.\<close>

theorem created_volume_unlocks:
  assumes U: "reliable_device U base ok" "bsize U = 512" "bcount U < 2 ^ 50" "0 \<le> st" "0 \<le> n" "st + n \<le> bcount U"
    and rnd: "length (rnd_keyArea rnd) = 256" "length (rnd_salt1 rnd) = 64" "length (rnd_salt2 rnd) = 64"
      "length (rnd_group1 rnd) = 131072" "length (rnd_group2 rnd) = 131072"
    and d: "ok d" "create argon2 pbkdf2 rnd (SlicedBlockDevice U st n) d password pim cipher hash keyfiles = (Inr key, d')"
  shows "fst (unlock argon2 pbkdf2 U d' st password pim keyfiles cipher hash) = Inr key \<and>
    length key = keySizeBytes cipher \<and> vc_cascade_new (nativeIds cipher) (int (length (nativeIds cipher))) key \<noteq> None"
proof -
  let ?part = "SlicedBlockDevice U st n"
  obtain pwd h primary backup where c: "isSupported hash" "bsize ?part = 512" "2 ^ 20 \<le> dataBytes (bcount ?part)"
    "apply_keyfiles (java_utf8 password) keyfiles False = Some pwd"
    "length h = 448" "take 4 h = VERA" "drop 192 h = rnd_keyArea rnd" "key = take (keySizeBytes cipher) (rnd_keyArea rnd)"
    "seal argon2 pbkdf2 cipher hash (forVolume hash pim) pwd (rnd_salt1 rnd) h = Some primary"
    "seal argon2 pbkdf2 cipher hash (forVolume hash pim) pwd (rnd_salt2 rnd) h = Some backup"
    "write_headers ?part (overwrite (rnd_group1 rnd) 0 primary) (overwrite (rnd_group2 rnd) 0 backup) d = (True, d')"
    by (rule create_Inr [OF d(2) rnd(1)])
  note C = raw_device.slice_confined [OF reliable_device.axioms(1) [OF U(1)] U(4-6)]
  have s: "length primary = 512" "take 64 primary = rnd_salt1 rnd" "length backup = 512"
    using seal_opens [OF c(9) rnd(2) c(5)] seal_opens [OF c(10) rnd(3) c(5)] by simp_all
  have part: "bcount ?part = n" "bsize ?part = bsize U" by (simp_all add: SlicedBlockDevice_def)
  have "bcount ?part < 2 ^ 50" using U(3-6) part by simp
  note w = headers_written [OF C c(2) this c(3) _ _ d(1) c(11)]
  have w': "ok d'" "peek (slice_view base (nat st * bsize U) d') 0 512 = primary" "1 \<le> n"
    using w rnd(4,5) s part by (simp_all add: overwrite_def)
  have r: "in_range (bcount U) st 1" using w'(3) U(4-6) by (simp add: in_range_def)
  obtain x d'' where x: "read_blocks U d' st 1 = (x, d'')" by fastforce
  have "x = Some (peek (base d') (nat st * 512) 512)"
    using reliable_device.read_total [OF U(1) w'(1) r] raw_device.read_law [OF reliable_device.axioms(1) [OF U(1)] w'(1) r _ x] x U(2) by auto
  also have "\<dots> = Some primary" using w'(2) U(2) by (simp add: peek_slice)
  finally have "read_blocks U d' st 1 = (Some primary, d'')" using x by simp
  moreover have "take 448 (drop 64 primary) = drop 64 primary" using s(1) by simp
  ultimately have "fst (unlock argon2 pbkdf2 U d' st password pim keyfiles cipher hash) = Inr key"
    using seal_opens [OF c(9) rnd(2) c(5)] c(1,6-8) apply_keyfiles_strict [OF c(4)] s
    by (simp add: unlock_def Let_def)
  moreover have "length key = keySizeBytes cipher" using c(8) rnd(1) by (cases cipher) (simp_all add: keySizeBytes_def)
  ultimately show ?thesis using cipher_key_accepted by blast
qed


lemma seal_total:
  assumes "header_cascade argon2 pbkdf2 (nativeIds cipher) (the (kdfNativeId hash)) pwd salt (iterations kdf) (memoryKiB kdf) \<noteq> None"
    "length salt = 64" "length h = 448"
  obtains x where "seal argon2 pbkdf2 cipher hash kdf pwd salt h = Some x" "length x = 512"
proof -
  obtain c where c: "header_cascade argon2 pbkdf2 (nativeIds cipher) (the (kdfNativeId hash)) pwd salt (iterations kdf) (memoryKiB kdf) = Some c"
    using assms(1) by blast
  obtain y where "length y = 448" "vc_cascade_encrypt_unit c 0 (take 448 h) 448 = Some y"
    using unit_crypt_in_buffer [OF header_cascade_ok [OF c], of 448 "take 448 h" True 0] assms(3) by auto
  then show thesis using that [of "salt @ y"] assms(2,3) c
    by (simp add: seal_def encryptHeader_def cryptHeader_cascade)
qed

text \<open>The creator succeeds on a device that does not fail, if the password is acceptable, the keyfiles can be read and
  the key derivation works.\<close>

lemma create_total:
  assumes dev: "reliable_device part vw ok" "bsize part = 512" "bcount part < 2 ^ 50" "2 ^ 20 \<le> dataBytes (bcount part)"
    and rnd: "length (rnd_keyArea rnd) = 256" "length (rnd_salt1 rnd) = 64" "length (rnd_salt2 rnd) = 64"
      "length (rnd_group1 rnd) = 131072" "length (rnd_group2 rnd) = 131072"
    and arg: "isSupported hash" "passwordProblem password pim (keyfiles \<noteq> []) hash = None"
      "apply_keyfiles (java_utf8 password) keyfiles False = Some pwd"
      "\<And>salt. header_cascade argon2 pbkdf2 (nativeIds cipher) (the (kdfNativeId hash)) pwd salt
        (iterations (forVolume hash pim)) (memoryKiB (forVolume hash pim)) \<noteq> None"
    and d: "ok d"
  shows "fst (create argon2 pbkdf2 rnd part d password pim cipher hash keyfiles) = Inr (take (keySizeBytes cipher) (rnd_keyArea rnd))"
proof -
  obtain h where h: "plainHeader (dataBytes (bcount part)) (rnd_keyArea rnd) = Some h" "length h = 448"
    by (rule plainHeader_parts [OF rnd(1)])
  obtain x where x: "seal argon2 pbkdf2 cipher hash (forVolume hash pim) pwd (rnd_salt1 rnd) h = Some x" "length x = 512"
    by (rule seal_total [OF arg(4) rnd(2) h(2)])
  obtain y where y: "seal argon2 pbkdf2 cipher hash (forVolume hash pim) pwd (rnd_salt2 rnd) h = Some y" "length y = 512"
    by (rule seal_total [OF arg(4) rnd(3) h(2)])
  let ?n = "bcount part" and ?g1 = "overwrite (rnd_group1 rnd) 0 x" and ?g2 = "overwrite (rnd_group2 rnd) 0 y"
  note R = reliable_device.axioms(1) [OF dev(1)]
  have "0 \<le> ?n" using raw_device.bcount_range [OF R] by simp
  note hp = header_positions [OF this dev(3,4)]
  note pos = hp(2) and r = hp(3,4)
  have g: "length ?g1 = 131072" "length ?g2 = 131072" using rnd(4,5) x(2) y(2) by simp_all
  obtain w1 d1 where w1: "write_blocks part d 0 ?g1 = (w1, d1)" by fastforce
  have "w1" "ok d1"
    using reliable_device.write_total [OF dev(1) d r(1), of ?g1] raw_device.write_law [OF R d r(1) _ _ w1] w1 g(1) dev(2) by simp_all
  moreover from this(2) have "fst (write_blocks part d1 (?n - 256) ?g2)"
    using reliable_device.write_total [OF dev(1) _ r(2), of d1 ?g2] g(2) dev(2) by simp
  ultimately have "fst (write_headers part ?g1 ?g2 d)" using w1 by (simp add: write_headers_def pos Let_def)
  then show ?thesis using arg(1-3) dev(2,4) h(1) x(1) y(1)
    by (simp add: create_def Let_def case_prod_beta)
qed


abbreviation demo_pbkdf2 :: pbkdf2_fn where
  "demo_pbkdf2 \<equiv> \<lambda>_ _ _ l. (0, replicate l 7)"

abbreviation demo_argon2 :: argon2_fn where
  "demo_argon2 \<equiv> \<lambda>_ _ _ _ l. (0, replicate l 7)"

definition demo_rnd :: randomness where
  "demo_rnd = \<lparr>rnd_keyArea = replicate 256 5, rnd_salt1 = replicate 64 1, rnd_salt2 = replicate 64 2,
     rnd_group1 = replicate 131072 3, rnd_group2 = replicate 131072 4\<rparr>"

theorem created_volume_unlocks_witness:
  "\<exists>d'. create demo_argon2 demo_pbkdf2 demo_rnd (SlicedBlockDevice (FileBlockDevice 20480) 2048 4096) demo_image
      (replicate 20 0x61) None V_AES_TWOFISH_SERPENT SHA512 [([1, 2, 3], False)] = (Inr (replicate 192 5), d') \<and>
    fst (unlock demo_argon2 demo_pbkdf2 (FileBlockDevice 20480) d' 2048 (replicate 20 0x61) None [([1, 2, 3], False)]
      V_AES_TWOFISH_SERPENT SHA512) = Inr (replicate 192 5)"
proof -
  let ?part = "SlicedBlockDevice (FileBlockDevice 20480) 2048 4096" and ?pw = "replicate 20 (0x61 :: u16)"
    and ?kf = "[([1, 2, 3], False)] :: keyfile list"
  have rnd: "length (rnd_keyArea demo_rnd) = 256" "length (rnd_salt1 demo_rnd) = 64" "length (rnd_salt2 demo_rnd) = 64"
    "length (rnd_group1 demo_rnd) = 131072" "length (rnd_group2 demo_rnd) = 131072"
    by (simp_all add: demo_rnd_def)
  have part: "bsize ?part = 512" "bcount ?part = 4096" by (simp_all add: SlicedBlockDevice_def FileBlockDevice_def)
  have "java_utf8 ?pw = replicate 20 0x61" by code_simp
  then have pp: "passwordProblem ?pw None (?kf \<noteq> []) SHA512 = None"
    by (simp add: passwordProblem_def pimTooLowForPassword_def)
  obtain pwd where pwd: "apply_keyfiles (java_utf8 ?pw) ?kf False = Some pwd" by (simp add: apply_keyfiles_def Let_def)
  have hc: "header_cascade demo_argon2 demo_pbkdf2 (nativeIds V_AES_TWOFISH_SERPENT) (the (kdfNativeId SHA512)) pwd salt
      (iterations (forVolume SHA512 None)) (memoryKiB (forVolume SHA512 None)) \<noteq> None" for salt
    using cipher_key_accepted [of "replicate 192 7" V_AES_TWOFISH_SERPENT]
    by (simp add: header_cascade_def readCipherIds_def VC_MAX_CASCADE_def KDF_PBKDF2_SHA512_def KDF_ARGON2ID_def nativeIds_def keySizeBytes_def)
  have "reliable_device ?part (slice_view file_view (nat 2048 * bsize (FileBlockDevice 20480))) (\<lambda>file. nat 20480 * 512 \<le> length file)"
    by (rule image_file.slice_reliable) (simp_all add: demo_geometry)
  from create_total [OF this part(1) _ _ rnd _ pp pwd hc demo_geometry(3)] part(2)
  have "fst (create demo_argon2 demo_pbkdf2 demo_rnd ?part demo_image ?pw None V_AES_TWOFISH_SERPENT SHA512 ?kf) = Inr (replicate 192 5)"
    by (simp add: dataBytes_def HEADER_GROUP_BYTES_def isSupported_def keySizeBytes_def demo_rnd_def)
  then obtain d' where c: "create demo_argon2 demo_pbkdf2 demo_rnd ?part demo_image ?pw None V_AES_TWOFISH_SERPENT SHA512 ?kf = (Inr (replicate 192 5), d')"
    by (cases "create demo_argon2 demo_pbkdf2 demo_rnd ?part demo_image ?pw None V_AES_TWOFISH_SERPENT SHA512 ?kf") simp
  from created_volume_unlocks [OF image_file.reliable_device_axioms demo_geometry(1) _ _ _ _ rnd demo_geometry(3) c] c
  show ?thesis by (auto simp: demo_geometry)
qed

text \<open>The unlocked device reaches over the backup header: it has at least 256 blocks more than the data area of the
  creator, up to the end of the partition.\<close>

lemma unlocked_covers_backup_header:
  assumes "bsize U = 512" "bsize part = 512" "bcount part = n" "0 \<le> n" "n < 2 ^ 50" "2 ^ 20 \<le> dataBytes n"
  shows "bcount (unlocked_device U st (Some n) ids) = n - 256 \<and> bcount (created_device part cipher) \<le> n - 512"
proof -
  have "long (n * 512) = n * 512" using assms(4,5) by simp
  then have "dataBytes n \<le> n * 512 - 262144" using header_positions [OF assms(4-6)] by (simp add: dataBytes_def HEADER_GROUP_BYTES_def)
  then show ?thesis using assms by (simp add: unlocked_device_def created_device_def NativeDecryptedBlockDevice_def Let_def)
qed

end
