(* ===== verification/Spec2Isabelle.thy ===== *)
theory Spec2Isabelle
  imports Cascade BitLockerKeys ExfatTime ExfatUtils ExfatChain VeraCryptVolume
begin

text \<open>
  OTGMaster is an Android application that opens encrypted USB drives without a kernel driver. It reads the raw
  blocks of a drive (Kotlin, over the libaums USB library), finds partitions, unlocks VeraCrypt, LUKS and
  BitLocker volumes (key derivation and sector encryption in C and C++ behind JNI), and serves the files of the
  filesystem inside through filesystem code that works on top of the decrypted blocks (exFAT in C, others in
  Kotlin or in vendored libraries). Paths below are relative to \<^verbatim>\<open>src/app/src/main/cpp\<close> for C and C++ and to
  \<^verbatim>\<open>src/app/src/main/java/app/fayaz/otgmaster\<close> for Kotlin.

  How the parts fit together: a filesystem asks the \<^emph>\<open>block cache\<close> for blocks; the cache asks the \<^emph>\<open>decrypted
  volume\<close>; the volume asks the partition or the drive for ciphertext and has the native layer decrypt it
  sector by sector with a \<^emph>\<open>cascade\<close> of XTS ciphers (VeraCrypt, LUKS) or in one of BitLocker's sector modes. The
  keys come out of volume headers and key records.

  \<^bold>\<open>Prelude.\<close> \<open>Base\<close> names the C integer types (\<open>u8\<close> to \<open>u64\<close> are words), has the little-endian accesses, buffers and
  the named collections of simplification rules the other theories share.

  \<^bold>\<open>Ciphers.\<close> \<open>Xts\<close> (\<^verbatim>\<open>serpent/xts_generic.c\<close>), \<open>Serpent\<close> (\<^verbatim>\<open>serpent/serpent_generic.c\<close> and its adapter), \<open>Twofish\<close>
  (\<^verbatim>\<open>libtomcrypt/src/ciphers/twofish\<close>), \<open>Aes\<close> and \<open>AesModes\<close> (\<^verbatim>\<open>mbedtls/library/aes.c\<close>). Shown: the bitsliced Serpent code and its
  unrolled key schedule are the reference cipher; the Twofish and AES tables hold what their definitions
  compute; the table-driven AES rounds are the textbook rounds; every cipher and mode decrypts what it
  encrypted; the two XTS implementations agree on whole blocks. The contract \<open>block_cipher\<close> between a cipher and
  the mode is a locale that each cipher interprets.

  \<^bold>\<open>Cascades.\<close> \<open>Cascade\<close> (\<^verbatim>\<open>vc_cascade.cpp\<close>, \<^verbatim>\<open>VeraCryptNative.cpp\<close>): key slicing, stages, data units, runs of sectors in a
  Java array, volume headers. The key derivation of a header is an argument of \<open>cryptHeader\<close>, so the results on headers
  hold for PBKDF2 and Argon2id alike. Shown: which ids and keys are accepted, the round trips, that a failing
  call leaves the array alone, and that the range check of \<^verbatim>\<open>cryptSectorsInPlace\<close> wraps.

  \<^bold>\<open>Hashes and BitLocker.\<close> \<open>HashStream\<close> (the contract \<open>block_hash\<close> of a streaming hash), \<open>Sha256\<close>
  (\<^verbatim>\<open>mbedtls/library/sha256.c\<close>), \<open>Ccm\<close> (\<^verbatim>\<open>mbedtls/library/ccm.c\<close>), \<open>BitLocker\<close> and \<open>BitLockerKeys\<close> (\<^verbatim>\<open>bitlocker/bitlocker_crypto.c\<close>,
  \<^verbatim>\<open>bitlocker/BitLockerNative.cpp\<close>). Shown: the digest does not depend on how the message is split into update
  calls and is the standard one, CCM accepts exactly what it would have produced, the Elephant diffusers and all sector
  modes are inverted, the key stretch is its 1048576 rounds.

  \<^bold>\<open>Devices.\<close> \<open>RawDevice\<close> (\<^verbatim>\<open>block/RawBlockDevice.kt\<close>, \<^verbatim>\<open>SlicedBlockDevice.kt\<close>, \<^verbatim>\<open>FileBlockDevice.kt\<close>): a device is a record of
  its operations on a state, so a device over another one is a function of it. The contract is the locale
  \<open>raw_device\<close>, extended by \<open>confined_device\<close> (requests outside are refused) and \<open>reliable_device\<close> (requests inside
  succeed). \<open>SectorCrypt\<close> has the contract \<open>sector_cipher\<close> of sector encryption and the plaintext of a medium;
  the native calls of \<open>Cascade\<close> and \<open>BitLockerKeys\<close> interpret it. \<open>VolumeDevice\<close> (\<^verbatim>\<open>veracrypt/NativeDecryptedBlockDevice.kt\<close>) and
  \<open>BlockCache\<close> (\<^verbatim>\<open>block/CachedBlockDevice.kt\<close>) keep the contracts over any device that has them. \<open>DeviceStack\<close> composes
  them as unlocking and mounting do, and shows that the stack is a flat array of decrypted bytes. \<open>CacheThreads\<close>
  splits the cache into the sections between which it releases its lock: a state machine of threads, an
  invariant by rule induction, a bound on the steps of a reader, and two traces on which the cache goes wrong.

  \<^bold>\<open>VeraCrypt volumes.\<close> \<open>VeraCryptVolume\<close> (\<^verbatim>\<open>veracrypt/VeraCryptCipher.kt\<close>, \<^verbatim>\<open>VeraCryptKeyfiles.kt\<close>, \<^verbatim>\<open>VeraCryptVolumeCreator.kt\<close>,
  \<^verbatim>\<open>VeraCryptUnlocker.kt\<close>): cipher choices, key derivation costs, keyfile mixing, header layout, creating and unlocking. The
  random bytes and the key derivations are arguments. Shown: a volume the creator has written opens with the same
  credentials and gives the same master key, the creator succeeds where its preconditions hold, the order
  of keyfiles does not matter, and the unlocked device reaches over the backup header.

  \<^bold>\<open>exFAT.\<close> \<open>ExfatBase\<close> (\<^verbatim>\<open>exfat/exfatfs.h\<close>, \<^verbatim>\<open>exfat.h\<close>), \<open>ExfatDev\<close> (\<^verbatim>\<open>exfat/io.c\<close> and \<^verbatim>\<open>exfat/ExFatNative.kt\<close>), \<open>Utf\<close>, \<open>ExfatTime\<close>,
  \<open>ExfatUtils\<close>, \<open>ExfatCluster\<close> and \<open>ExfatChain\<close> (\<^verbatim>\<open>utf.c\<close>, \<^verbatim>\<open>time.c\<close>, \<^verbatim>\<open>utils.c\<close>, \<^verbatim>\<open>cluster.c\<close>). Shown: names and timestamps survive
  their conversions, checksums detect single changes, a look-up through the cached file pointer is a walk along the
  chain, resizing keeps every invariant of the volume, is undone when the disk is full, and leaves all other
  files alone whatever accesses of the device fail.

  \<^bold>\<open>Conventions.\<close> An exception, an error return or an access outside a buffer is \<open>None\<close> or a value of an error type, a call
  of \<^verbatim>\<open>abort()\<close> is \<open>None\<close>; return codes are kept where the code looks at them. Loops are recursive functions with a
  termination proof; \<open>erase_range\<close>, which need not end, is a partial function. No fuel is used. Integers keep
  their width wherever they can wrap; \<^verbatim>\<open>Long\<close> and \<^verbatim>\<open>Int\<close> sums and products of the Kotlin code are wrapped with
  \<open>long\<close> and \<open>int_product\<close>. The default sizes (an 8 MiB cache, lines of 64 KiB, volumes of 512-byte sectors) are
  instances of the theorems, which hold for all sizes below the bounds they state.

  \<^bold>\<open>Not modelled.\<close> The vendored libraries ntfs-3g, libfsapfs, zstd and argon2, the parts of mbedtls and libtomcrypt that
  the application does not call through the code above, and libaums: third-party code of several hundred
  thousand lines, used as it is. The user interface, services, providers, USB access, backup jobs and the
  credential store: they call the Android framework, whose behaviour is not part of the sources. The wiping of
  keys from memory has no observable result in a functional model, except where it is the point (closing a
  volume, evicting a cache line), where it is modelled.
\<close>

end
